(* ===== verification/Lumen_Prelude.thy ===== *)
theory Lumen_Prelude
  imports Main "HOL-Library.Word"
begin

unbundle bit_operations_syntax

section \<open>Shared notions of the Lumen development\<close>

text \<open>
  The prelude names the machine types of the engine (a 64-bit Linux target, which the build
  files assume), the outcome of a call that may block, and the generic facts the
  component theories share: masking a counter with \<open>Capacity - 1\<close>, positions of
  a ring that are taken modulo its capacity, and small facts on lists.

  The collection \<open>ring_simps\<close> holds the rewrite rules on ring positions, the collection
  \<open>word_bounds\<close> the rules that read 64-bit sums and differences as naturals.
\<close>

named_theorems ring_simps
named_theorems word_bounds

type_synonym size_t = "64 word"
type_synonym uint32 = "32 word"
type_synonym byte = "8 word"

text \<open>
  A call either returns a value or waits: it is parked on a condition variable, or it is
  still inside its retry loop.
\<close>

datatype 'a call = Waits | Returns 'a

fun map_call :: "('a \<Rightarrow> 'b) \<Rightarrow> 'a call \<Rightarrow> 'b call" where
  "map_call f Waits = Waits"
| "map_call f (Returns x) = Returns (f x)"

lemma map_call_Returns:
  assumes "map_call f c = Returns y"
  obtains x where "c = Returns x" "y = f x"
  using assms by (cases c) auto


text \<open>
  How a constructor ends: with an object, with an exception for its caller, with the process
  brought down (\<^verbatim>\<open>std::terminate\<close>), or with undefined behaviour.
\<close>

datatype ('e, 'a) ctor = Built 'a | Threw 'e | Terminated | Broken


subsection \<open>Counters and ring positions\<close>

lemma unat_and_mask10 [ring_simps]: "unat ((x :: size_t) AND 1023) = unat x mod 1024"
proof -
  have "x AND 1023 = take_bit 10 x"
    by (simp add: take_bit_eq_mask mask_eq_exp_minus_1)
  also have "\<dots> = x mod 1024"
    by (simp add: take_bit_eq_mod)
  finally show ?thesis
    by (simp add: unat_mod)
qed

lemma mod_mod_ring: "(a mod 18446744073709551616) mod 1024 = (a :: nat) mod 1024"
  by (rule mod_mod_cancel) simp

lemma unat_and_mask10_add [ring_simps]:
  "unat (((h :: size_t) + of_nat i) AND 1023) = (unat h + i) mod 1024"
proof -
  have "unat ((h + of_nat i) AND 1023) = (unat h + i mod 18446744073709551616) mod 1024"
    by (simp add: unat_and_mask10 unat_word_ariths unat_of_nat mod_mod_ring)
  also have "\<dots> = (unat h + i) mod 1024"
    by (metis mod_add_right_eq mod_mod_ring)
  finally show ?thesis .
qed

lemma and_mask10_less [simp]: "unat ((x :: size_t) AND 1023) < 1024"
  by (simp add: unat_and_mask10)

text \<open>Two positions less than one lap apart share a slot only when they are equal.\<close>

lemma mod_ring_inj:
  fixes p q :: nat
  assumes "p mod 1024 = q mod 1024" "p < q + 1024" "q < p + 1024"
  shows "p = q"
proof -
  have le: "a = b" if "a mod 1024 = b mod (1024 :: nat)" "a \<le> b" "b < a + 1024" for a b :: nat
  proof -
    have "1024 dvd b - a"
      using that(1,2) by (metis mod_eq_dvd_iff_nat)
    moreover have "b - a < 1024"
      using that(2,3) by simp
    ultimately have "b - a = 0"
      by (metis dvd_imp_le not_gr_zero leD)
    then show ?thesis
      using that(2) by simp
  qed
  show ?thesis
    using le [of p q] le [of q p] assms by (cases "p \<le> q") auto
qed

lemma mod_lap_inj:
  "(a + i) mod 1024 = (a + j) mod (1024 :: nat) \<Longrightarrow> i < 1024 \<Longrightarrow> j < 1024 \<Longrightarrow> i = j"
  using mod_ring_inj [of "a + i" "a + j"] by simp


subsection \<open>Reading 64-bit arithmetic as arithmetic on naturals\<close>

lemma unat_less_2p64 [simp]: "unat (x :: size_t) < 18446744073709551616"
  using unsigned_less [of x, where ?'a = nat] by simp

lemma unat_add_size_t [word_bounds]:
  "unat x + unat y < 18446744073709551616 \<Longrightarrow> unat (x + y :: size_t) = unat x + unat y"
  by (simp add: unat_word_ariths)

lemma unat_Suc_size_t [word_bounds]:
  "unat x + 1 < 18446744073709551616 \<Longrightarrow> unat (x + 1 :: size_t) = unat x + 1"
  by (simp add: unat_word_ariths)

lemma unat_of_nat_size_t [word_bounds]:
  "n < 18446744073709551616 \<Longrightarrow> unat (of_nat n :: size_t) = n"
  by (simp add: unat_of_nat)

lemma unat_diff_Suc_tail:
  "unat (t - h :: size_t) < 18446744073709551615 \<Longrightarrow> unat (t + 1 - h) = unat (t - h) + 1"
  using unat_Suc_size_t [of "t - h"] by (simp add: algebra_simps)

lemma unat_diff_Suc_head:
  "t \<noteq> h \<Longrightarrow> unat (t - (h + 1) :: size_t) = unat (t - h) - 1"
  by (metis (no_types, lifting) diff_diff_eq right_minus_eq unat_minus_one)


subsection \<open>Lists\<close>

lemma map_upt_Suc_shift: "map f [0..<Suc n] = f 0 # map (\<lambda>i. f (Suc i)) [0..<n]"
  by (simp add: upt_conv_Cons map_Suc_upt [symmetric] del: upt_Suc map_Suc_upt)

lemma list_update_self_nth: "i < length xs \<Longrightarrow> xs[i := x] ! j = (if i = j then x else xs ! j)"
  by simp

end
