(* ===== verification/Lumen_Core.thy ===== *)
theory Lumen_Core
  imports Complex_Main Lumen_Prelude
begin

section \<open>Core data: traces, tasks and results\<close>

text \<open>
  The records of \<^verbatim>\<open>include/lumen/core\<close>: \<^verbatim>\<open>InferenceTrace\<close>, \<^verbatim>\<open>InferenceTask\<close> and
  \<^verbatim>\<open>InferenceResult\<close>, their constructors, and the scoped timer of
  \<^verbatim>\<open>include/lumen/utils/Timer.hpp\<close>. A point of the steady clock is an integer number of
  nanoseconds; reading the clock is an argument \<open>now\<close> of the operation that reads it. A
  duration in milliseconds is a real number: the rounding of \<^verbatim>\<open>double\<close> is not modelled.
  A \<^verbatim>\<open>unique_ptr\<close> or \<^verbatim>\<open>shared_ptr\<close> that may be null is an option.
\<close>

type_synonym double = real
type_synonym time_point = int

record InferenceTrace =
  request_id :: uint32
  start_ts :: time_point
  queue_wait_ms :: double
  preprocess_ms :: double
  inference_ms :: double
  postprocess_ms :: double
  total_e2e_ms :: double
  metadata :: string

definition new_trace :: "uint32 \<Rightarrow> time_point \<Rightarrow> InferenceTrace" where
  "new_trace i now =
     \<lparr>request_id = i, start_ts = now, queue_wait_ms = 0, preprocess_ms = 0, inference_ms = 0,
      postprocess_ms = 0, total_e2e_ms = 0, metadata = ''''\<rparr>"

definition ms_between :: "time_point \<Rightarrow> time_point \<Rightarrow> double" where
  "ms_between a b = real_of_int (b - a) / 1000000"

definition get_elapsed_ms :: "time_point \<Rightarrow> InferenceTrace \<Rightarrow> double" where
  "get_elapsed_ms now tr = ms_between (start_ts tr) now"

text \<open>
  The processors a task carries. The interfaces \<^verbatim>\<open>IPreProcessor\<close> and \<^verbatim>\<open>IPostProcessor\<close> have
  one implementation each, the ImageNet pair; the post-processor owns its label table.
\<close>

datatype pre_processor = ImageNetPreProcessor
datatype post_processor = ImageNetPostProcessor (labels: "string list")

record InferenceTask =
  client_fd :: int
  task_data :: "byte list"
  task_pre :: "pre_processor option"
  task_post :: "post_processor option"
  task_trace :: "InferenceTrace option"

definition new_task ::
  "int \<Rightarrow> byte list \<Rightarrow> pre_processor option \<Rightarrow> post_processor option \<Rightarrow> InferenceTrace option \<Rightarrow>
   InferenceTask" where
  "new_task fd tensor_data pr po tr =
     \<lparr>client_fd = fd, task_data = tensor_data, task_pre = pr, task_post = po, task_trace = tr\<rparr>"

definition default_task :: InferenceTask where
  "default_task =
     \<lparr>client_fd = -1, task_data = [], task_pre = None, task_post = None, task_trace = None\<rparr>"

text \<open>
  What the implicit move constructor leaves behind: the vector is empty and the pointers are
  null, while the descriptor, a plain \<^verbatim>\<open>int\<close>, is copied.
\<close>

definition moved_from :: "InferenceTask \<Rightarrow> InferenceTask" where
  "moved_from t = t\<lparr>task_data := [], task_pre := None, task_post := None, task_trace := None\<rparr>"

record InferenceResult =
  res_client_fd :: int
  response :: string
  res_trace :: "InferenceTrace option"
  success :: bool
  error_message :: string

text \<open>
  The designated initialisers of the source name the first three members only; the other two
  keep their default member initialisers.
\<close>

definition new_result :: "int \<Rightarrow> string \<Rightarrow> InferenceTrace option \<Rightarrow> InferenceResult" where
  "new_result fd resp tr =
     \<lparr>res_client_fd = fd, response = resp, res_trace = tr, success = True, error_message = ''''\<rparr>"


subsection \<open>The scoped timer\<close>

text \<open>
  A \<^verbatim>\<open>Timer\<close> measures the lifetime of its scope: it reads the clock when it is constructed
  on a target and writes the elapsed milliseconds there when it is destroyed. The target of
  every timer of the engine is a field of the task's trace, or null when there is no trace;
  \<open>timed\<close> is the effect of one such scope on the trace, given the two clock readings.
\<close>

record Timer =
  m_target :: bool
  m_name :: string
  m_start :: "time_point option"

definition timer_on_target :: "bool \<Rightarrow> time_point \<Rightarrow> Timer" where
  "timer_on_target target now =
     \<lparr>m_target = target, m_name = '''', m_start = (if target then Some now else None)\<rparr>"

definition timer_named :: "string \<Rightarrow> time_point \<Rightarrow> Timer" where
  "timer_named name now = \<lparr>m_target = False, m_name = name, m_start = Some now\<rparr>"

text \<open>The effect of a destructor: a duration for the target, a line for the console, or nothing.\<close>

datatype timer_effect = WriteTarget double | PrintProfile string double | NoEffect

definition timer_destroy :: "Timer \<Rightarrow> time_point \<Rightarrow> timer_effect" where
  "timer_destroy tm fin =
     (if m_target tm \<or> m_name tm \<noteq> ''''
      then (let duration = (case m_start tm of Some st \<Rightarrow> ms_between st fin | None \<Rightarrow> ms_between 0 fin)
            in if m_target tm then WriteTarget duration
               else PrintProfile (m_name tm) duration)
      else NoEffect)"

definition timed ::
  "(double \<Rightarrow> InferenceTrace \<Rightarrow> InferenceTrace) \<Rightarrow> time_point \<Rightarrow> time_point \<Rightarrow>
   InferenceTrace option \<Rightarrow> InferenceTrace option" where
  "timed write now fin tr =
     (case timer_destroy (timer_on_target (tr \<noteq> None) now) fin of
        WriteTarget d \<Rightarrow> map_option (write d) tr
      | _ \<Rightarrow> tr)"

lemma timed_None [simp]: "timed w a b None = None"
  by (simp add: timed_def timer_destroy_def timer_on_target_def)

lemma timed_Some [simp]: "timed w a b (Some tr) = Some (w (ms_between a b) tr)"
  by (simp add: timed_def timer_destroy_def timer_on_target_def Let_def)

lemma moved_from_simps [simp]:
  "client_fd (moved_from t) = client_fd t"
  "task_data (moved_from t) = []"
  "task_trace (moved_from t) = None"
  by (simp_all add: moved_from_def)

lemma new_task_simps [simp]:
  "client_fd (new_task fd d pr po tr) = fd"
  "task_data (new_task fd d pr po tr) = d"
  "task_pre (new_task fd d pr po tr) = pr"
  "task_post (new_task fd d pr po tr) = po"
  "task_trace (new_task fd d pr po tr) = tr"
  by (simp_all add: new_task_def)

lemma new_result_simps [simp]:
  "res_client_fd (new_result fd r tr) = fd"
  "response (new_result fd r tr) = r"
  "res_trace (new_result fd r tr) = tr"
  "success (new_result fd r tr)"
  "error_message (new_result fd r tr) = ''''"
  by (simp_all add: new_result_def)

end
