(* ===== verification/Queue_Interfaces.thy ===== *)
theory Queue_Interfaces
  imports Lumen_Core
begin

section \<open>The queue interfaces\<close>

text \<open>
  \<^verbatim>\<open>ITaskQueue\<close> and \<^verbatim>\<open>IResultQueue\<close> as locales: the operations a client calls are the
  parameters, the contract every implementation keeps is the assumptions. The contract is
  stated over \<open>contents\<close>, the FIFO list a queue stands for; \<open>accepts\<close> says whether a push is
  taken, which a bounded or stopped queue may refuse. A call that finds the queue empty
  either returns nothing or waits, depending on the implementation.

  \<open>run_ops\<close> is a client that issues any sequence of pushes and pops; it records what was
  accepted and what was delivered. A call that waits leaves the queue alone.
\<close>

datatype 't qop = Push 't | Pop

fun run_ops ::
  "('t \<Rightarrow> 'q \<Rightarrow> (bool \<times> 'q) call) \<Rightarrow> ('q \<Rightarrow> ('t option \<times> 'q) call) \<Rightarrow> 't qop list \<Rightarrow> 'q \<Rightarrow>
   't list \<times> 't list \<times> 'q" where
  "run_ops psh pp [] q = ([], [], q)"
| "run_ops psh pp (Push t # ops) q =
     (case psh t q of
        Waits \<Rightarrow> run_ops psh pp ops q
      | Returns (ok, q') \<Rightarrow>
          (let (acc, del, q'') = run_ops psh pp ops q'
           in (if ok then t # acc else acc, del, q'')))"
| "run_ops psh pp (Pop # ops) q =
     (case pp q of
        Waits \<Rightarrow> run_ops psh pp ops q
      | Returns (r, q') \<Rightarrow>
          (let (acc, del, q'') = run_ops psh pp ops q'
           in (acc, (case r of None \<Rightarrow> del | Some t \<Rightarrow> t # del), q'')))"

definition batch_count :: "size_t \<Rightarrow> 't list \<Rightarrow> nat" where
  "batch_count m xs = min (unat m) (length xs)"

lemma batch_count_le [simp]: "batch_count m xs \<le> length xs" "batch_count m xs \<le> unat m"
  by (simp_all add: batch_count_def)

lemma batch_count_zero [simp]: "batch_count 0 xs = 0"
  by (simp add: batch_count_def)

lemma batch_count_pos: "m \<noteq> 0 \<Longrightarrow> xs \<noteq> [] \<Longrightarrow> 0 < batch_count m xs"
  by (simp add: batch_count_def unat_gt_0)


subsection \<open>The task queue\<close>

locale task_queue =
  fixes push :: "'t \<Rightarrow> 'q \<Rightarrow> (bool \<times> 'q) call"
    and pop :: "'q \<Rightarrow> ('t option \<times> 'q) call"
    and pop_batch :: "'t list \<Rightarrow> size_t \<Rightarrow> 'q \<Rightarrow> (size_t \<times> 't list \<times> 'q) call"
    and shutdown :: "'q \<Rightarrow> 'q"
    and contents :: "'q \<Rightarrow> 't list"
    and accepts :: "'q \<Rightarrow> bool"
    and inv :: "'q \<Rightarrow> bool"
  assumes push_taken: "inv q \<Longrightarrow> accepts q \<Longrightarrow>
      \<exists>q'. push t q = Returns (True, q') \<and> inv q' \<and> contents q' = contents q @ [t]"
    and push_refused: "inv q \<Longrightarrow> \<not> accepts q \<Longrightarrow> push t q = Returns (False, q)"
    and pop_some: "inv q \<Longrightarrow> contents q = t # ts \<Longrightarrow>
      \<exists>q'. pop q = Returns (Some t, q') \<and> inv q' \<and> contents q' = ts"
    and pop_none: "inv q \<Longrightarrow> contents q = [] \<Longrightarrow> pop q = Waits \<or> pop q = Returns (None, q)"
    and pop_batch_some: "inv q \<Longrightarrow> contents q \<noteq> [] \<Longrightarrow>
      \<exists>q'. pop_batch b m q =
             Returns (of_nat (batch_count m (contents q)),
                      b @ take (batch_count m (contents q)) (contents q), q') \<and>
           inv q' \<and> contents q' = drop (batch_count m (contents q)) (contents q)"
    and pop_batch_none: "inv q \<Longrightarrow> contents q = [] \<Longrightarrow>
      pop_batch b m q = Waits \<or> pop_batch b m q = Returns (0, b, q)"
    and shutdown_keeps: "inv q \<Longrightarrow> inv (shutdown q) \<and> contents (shutdown q) = contents q"
begin

text \<open>First in, first out, for every sequence of calls: nothing is lost, duplicated or reordered.\<close>

lemma run_ops_fifo:
  assumes "inv q" "run_ops push pop ops q = (acc, del, q')"
  shows "inv q' \<and> contents q @ acc = del @ contents q'"
  using assms
proof (induction ops arbitrary: q acc del)
  case Nil
  then show ?case by simp
next
  case (Cons op ops)
  show ?case
  proof (cases op)
    case (Push t)
    show ?thesis
    proof (cases "accepts q")
      case True
      then obtain q1 where q1: "push t q = Returns (True, q1)" "inv q1"
          "contents q1 = contents q @ [t]"
        using push_taken Cons.prems(1) by blast
      obtain acc1 where run: "run_ops push pop ops q1 = (acc1, del, q')" and acc: "acc = t # acc1"
        using Cons.prems(2) Push q1(1) by (auto split: prod.splits)
      show ?thesis
        using Cons.IH [OF q1(2) run] q1(3) acc by simp
    next
      case False
      then have "run_ops push pop ops q = (acc, del, q')"
        using push_refused [of q t] Cons.prems Push by (auto split: prod.splits)
      then show ?thesis
        by (rule Cons.IH [OF Cons.prems(1)])
    qed
  next
    case Pop
    show ?thesis
    proof (cases "contents q")
      case Nil
      then have "run_ops push pop ops q = (acc, del, q')"
        using pop_none [of q] Cons.prems Pop by (auto split: prod.splits)
      then show ?thesis
        by (rule Cons.IH [OF Cons.prems(1)])
    next
      case (Cons t ts)
      then obtain q1 where q1: "pop q = Returns (Some t, q1)" "inv q1" "contents q1 = ts"
        using pop_some Cons.prems(1) by blast
      obtain del1 where run: "run_ops push pop ops q1 = (acc, del1, q')" and del: "del = t # del1"
        using Cons.prems(2) Pop q1(1) by (auto split: prod.splits)
      show ?thesis
        using Cons.IH [OF q1(2) run] q1(3) del \<open>contents q = t # ts\<close> by simp
    qed
  qed
qed

text \<open>A batch that is returned is the front of the queue, and the count is its length.\<close>

lemma pop_batch_returns:
  assumes "inv q" "pop_batch b m q = Returns (n, ts, q')"
  shows "inv q'" "\<exists>xs. ts = b @ xs \<and> contents q = xs @ contents q' \<and> unat n = length xs \<and> length xs \<le> unat m"
proof -
  have "inv q' \<and> (\<exists>xs. ts = b @ xs \<and> contents q = xs @ contents q' \<and> unat n = length xs \<and> length xs \<le> unat m)"
  proof (cases "contents q = []")
    case True
    then have "n = 0 \<and> ts = b \<and> q' = q"
      using pop_batch_none [OF assms(1) True, of b m] assms(2) by auto
    then show ?thesis
      using True assms(1) by simp
  next
    case False
    let ?k = "batch_count m (contents q)"
    have k: "unat (of_nat ?k :: size_t) = ?k"
    proof (rule unat_of_nat_size_t)
      show "?k < 18446744073709551616"
        using batch_count_le(2) [of m "contents q"] unat_less_2p64 [of m] by linarith
    qed
    have "inv q'" "ts = b @ take ?k (contents q)" "contents q' = drop ?k (contents q)" "n = of_nat ?k"
      using pop_batch_some [OF assms(1) False, of b m] assms(2) by auto
    then show ?thesis
      using k by (intro conjI exI [of _ "take ?k (contents q)"]) auto
  qed
  then show "inv q'" "\<exists>xs. ts = b @ xs \<and> contents q = xs @ contents q' \<and> unat n = length xs \<and> length xs \<le> unat m"
    by auto
qed

end

text \<open>
  A queue whose \<^verbatim>\<open>size\<close> and \<^verbatim>\<open>empty\<close> are exact. The multi-producer queue keeps this only
  while its counters have not wrapped around, so it is a contract of its own.
\<close>

locale sized_task_queue = task_queue +
  fixes size_q :: "'b \<Rightarrow> size_t"
    and empty_q :: "'b \<Rightarrow> bool"
  assumes size_contents: "inv q \<Longrightarrow> size_q q = of_nat (length (contents q))"
    and empty_contents: "inv q \<Longrightarrow> empty_q q \<longleftrightarrow> contents q = []"
begin

lemma run_ops_size:
  assumes "inv q" "run_ops push pop ops q = (acc, del, q')"
  shows "size_q q' + of_nat (length del) = size_q q + of_nat (length acc)"
proof -
  have "inv q'" "contents q @ acc = del @ contents q'"
    using run_ops_fifo [OF assms] by auto
  then have "of_nat (length (del @ contents q')) = (of_nat (length (contents q @ acc)) :: size_t)"
    by simp
  then show ?thesis
    using assms(1) \<open>inv q'\<close> by (simp add: size_contents algebra_simps)
qed

end


subsection \<open>The result queue\<close>

locale result_queue =
  fixes rpush :: "'r \<Rightarrow> 'q \<Rightarrow> 'q"
    and rpop :: "'q \<Rightarrow> ('r option \<times> 'q) call"
    and rpop_immediate :: "'q \<Rightarrow> 'r option \<times> 'q"
    and rsize :: "'q \<Rightarrow> nat"
    and rempty :: "'q \<Rightarrow> bool"
    and results :: "'q \<Rightarrow> 'r list"
  assumes results_push: "results (rpush r q) = results q @ [r]"
    and pop_immediate_none: "results q = [] \<Longrightarrow> rpop_immediate q = (None, q)"
    and pop_immediate_some: "results q = r # rs \<Longrightarrow>
      \<exists>q'. rpop_immediate q = (Some r, q') \<and> results q' = rs"
    and rpop_some: "results q = r # rs \<Longrightarrow> rpop q = Returns (rpop_immediate q)"
    and rpop_none: "results q = [] \<Longrightarrow> rpop q = Waits \<or> rpop q = Returns (None, q)"
    and rsize_results: "rsize q = length (results q)"
    and rempty_results: "rempty q \<longleftrightarrow> results q = []"
begin

lemma results_fold_push: "results (fold rpush rs q) = results q @ rs"
  by (induction rs arbitrary: q) (simp_all add: results_push)

lemma pop_immediate_cases:
  "rpop_immediate q = (None, q) \<and> results q = [] \<or>
   (\<exists>r q'. rpop_immediate q = (Some r, q') \<and> results q = r # results q')"
  by (cases "results q") (use pop_immediate_none pop_immediate_some in fastforce)+

lemma pop_immediate_Some:
  "rpop_immediate q = (Some r, q') \<Longrightarrow> results q = r # results q'"
  using pop_immediate_cases [of q] by auto

lemma pop_immediate_None:
  "rpop_immediate q = (None, q') \<Longrightarrow> results q = [] \<and> q' = q"
  using pop_immediate_cases [of q] by auto

end

end
