(* ===== verification/Naive_Queue.thy ===== *)
theory Naive_Queue
  imports Queue_Interfaces
begin

section \<open>The mutex-protected queues\<close>

text \<open>
  \<^verbatim>\<open>NaiveTaskQueue\<close> and \<^verbatim>\<open>NaiveResultQueue\<close>: a \<^verbatim>\<open>std::queue\<close> under one mutex, with a
  condition variable on which \<^verbatim>\<open>pop\<close> and \<^verbatim>\<open>pop_batch\<close> wait until there is data or the queue
  is stopped. Every method holds the mutex while it touches the data, so each is one atomic
  operation here, and a call whose predicate is false \<open>Waits\<close>. The condition variable itself,
  with its parked and woken threads, is modelled in \<^verbatim>\<open>Naive_Waiting\<close>.
\<close>

record NaiveTaskQueue =
  nq_data :: "InferenceTask list"
  nq_stop :: bool

definition naive_new :: NaiveTaskQueue where
  "naive_new = \<lparr>nq_data = [], nq_stop = False\<rparr>"

definition naive_push :: "InferenceTask \<Rightarrow> NaiveTaskQueue \<Rightarrow> (bool \<times> NaiveTaskQueue) call" where
  "naive_push task q = Returns (True, q\<lparr>nq_data := nq_data q @ [task]\<rparr>)"

text \<open>The predicate of every \<^verbatim>\<open>cv.wait\<close>.\<close>

definition naive_ready :: "NaiveTaskQueue \<Rightarrow> bool" where
  "naive_ready q \<longleftrightarrow> nq_data q \<noteq> [] \<or> nq_stop q"

definition naive_pop :: "NaiveTaskQueue \<Rightarrow> (InferenceTask option \<times> NaiveTaskQueue) call" where
  "naive_pop q =
     (if \<not> naive_ready q then Waits
      else case nq_data q of
             [] \<Rightarrow> Returns (None, q)
           | task # rest \<Rightarrow> Returns (Some task, q\<lparr>nq_data := rest\<rparr>))"

text \<open>The copy loop of \<^verbatim>\<open>pop_batch\<close>: it stops at an empty queue or a full batch.\<close>

fun naive_take ::
  "InferenceTask list \<Rightarrow> size_t \<Rightarrow> size_t \<Rightarrow> InferenceTask list \<Rightarrow>
   size_t \<times> InferenceTask list \<times> InferenceTask list" where
  "naive_take [] count max_batch_size batch = (count, batch, [])"
| "naive_take (task # rest) count max_batch_size batch =
     (if count < max_batch_size
      then naive_take rest (count + 1) max_batch_size (batch @ [task])
      else (count, batch, task # rest))"

definition naive_pop_batch ::
  "InferenceTask list \<Rightarrow> size_t \<Rightarrow> NaiveTaskQueue \<Rightarrow>
   (size_t \<times> InferenceTask list \<times> NaiveTaskQueue) call" where
  "naive_pop_batch batch max_batch_size q =
     (if \<not> naive_ready q then Waits
      else if nq_data q = [] then Returns (0, batch, q)
      else let (count, batch', rest) = naive_take (nq_data q) 0 max_batch_size batch
           in Returns (count, batch', q\<lparr>nq_data := rest\<rparr>))"

definition naive_size :: "NaiveTaskQueue \<Rightarrow> size_t" where
  "naive_size q = of_nat (length (nq_data q))"

definition naive_empty :: "NaiveTaskQueue \<Rightarrow> bool" where
  "naive_empty q \<longleftrightarrow> nq_data q = []"

definition naive_shutdown :: "NaiveTaskQueue \<Rightarrow> NaiveTaskQueue" where
  "naive_shutdown q = q\<lparr>nq_stop := True\<rparr>"

lemmas naive_defs = naive_push_def naive_pop_def naive_pop_batch_def naive_size_def
  naive_empty_def naive_shutdown_def naive_ready_def

lemma naive_take_result:
  assumes "unat c \<le> unat m"
  shows "naive_take xs c m b =
    (of_nat (unat c + min (unat m - unat c) (length xs)),
     b @ take (unat m - unat c) xs, drop (unat m - unat c) xs)"
  using assms
proof (induction xs c m b rule: naive_take.induct)
  case (1 c m b)
  then show ?case by simp
next
  case (2 x xs c m b)
  show ?case
  proof (cases "c < m")
    case True
    have lt: "unat c < unat m"
      using True by (simp add: word_less_nat_alt)
    have c1: "unat (c + 1) = unat c + 1"
      using lt unat_less_2p64 [of m] by (intro unat_Suc_size_t) linarith
    obtain k where k: "unat m - unat c = Suc k" "unat m - unat (c + 1) = k"
      using lt c1 by (metis Suc_diff_Suc Suc_eq_plus1)
    have "naive_take xs (c + 1) m (b @ [x]) =
        (of_nat (unat (c + 1) + min k (length xs)), (b @ [x]) @ take k xs, drop k xs)"
      using "2.IH" [OF True] lt c1 k(2) by simp
    then show ?thesis
      using True c1 k(1) by (simp add: algebra_simps)
  next
    case False
    then have "unat c = unat m"
      using "2.prems" by (simp add: word_less_nat_alt)
    then have "c = m"
      by (simp add: word_unat_eq_iff)
    then show ?thesis
      by simp
  qed
qed

interpretation nq: sized_task_queue naive_push naive_pop naive_pop_batch
  naive_shutdown nq_data "\<lambda>_. True" "\<lambda>_. True" naive_size naive_empty
proof unfold_locales
  fix q :: NaiveTaskQueue and b :: "InferenceTask list" and m :: size_t
  assume "nq_data q \<noteq> []"
  then show "\<exists>q'. naive_pop_batch b m q =
             Returns (of_nat (batch_count m (nq_data q)),
                      b @ take (batch_count m (nq_data q)) (nq_data q), q') \<and>
           True \<and> nq_data q' = drop (batch_count m (nq_data q)) (nq_data q)"
    by (auto simp: naive_defs naive_take_result batch_count_def min_def)
qed (auto simp: naive_defs split: list.splits)


subsection \<open>The result queue\<close>

record NaiveResultQueue =
  rq_data :: "InferenceResult list"
  rq_stop :: bool

definition rq_new :: NaiveResultQueue where
  "rq_new = \<lparr>rq_data = [], rq_stop = False\<rparr>"

definition rq_push :: "InferenceResult \<Rightarrow> NaiveResultQueue \<Rightarrow> NaiveResultQueue" where
  "rq_push result q = q\<lparr>rq_data := rq_data q @ [result]\<rparr>"

definition rq_pop_immediate ::
  "NaiveResultQueue \<Rightarrow> InferenceResult option \<times> NaiveResultQueue" where
  "rq_pop_immediate q =
     (case rq_data q of
        [] \<Rightarrow> (None, q)
      | result # rest \<Rightarrow> (Some result, q\<lparr>rq_data := rest\<rparr>))"

definition rq_pop :: "NaiveResultQueue \<Rightarrow> (InferenceResult option \<times> NaiveResultQueue) call" where
  "rq_pop q =
     (if rq_data q = [] \<and> \<not> rq_stop q then Waits
      else case rq_data q of
             [] \<Rightarrow> Returns (None, q)
           | result # rest \<Rightarrow> Returns (Some result, q\<lparr>rq_data := rest\<rparr>))"

definition rq_size :: "NaiveResultQueue \<Rightarrow> nat" where
  "rq_size q = length (rq_data q)"

definition rq_empty :: "NaiveResultQueue \<Rightarrow> bool" where
  "rq_empty q \<longleftrightarrow> rq_data q = []"

definition rq_shutdown :: "NaiveResultQueue \<Rightarrow> NaiveResultQueue" where
  "rq_shutdown q = q\<lparr>rq_stop := True\<rparr>"

lemmas rq_defs = rq_push_def rq_pop_def rq_pop_immediate_def rq_size_def rq_empty_def
  rq_shutdown_def

interpretation rq: result_queue rq_push rq_pop rq_pop_immediate rq_size rq_empty rq_data
  by unfold_locales (auto simp: rq_defs split: list.splits)

end
