(* ===== verification/Naive_Waiting.thy ===== *)
theory Naive_Waiting
  imports Naive_Queue
begin

section \<open>Waiting on the mutex queue\<close>

text \<open>
  The condition variable of \<^verbatim>\<open>NaiveTaskQueue\<close>. A consumer calls \<^verbatim>\<open>pop_batch\<close> with the configured
  batch size \<open>m\<close>; when the predicate is false it parks in \<open>waiting\<close>. A notification moves a
  parked thread to \<open>woken\<close>, from where it takes the mutex again and re-evaluates the predicate;
  a thread may also wake up spuriously. \<^verbatim>\<open>push\<close> and \<^verbatim>\<open>shutdown\<close> notify after they have
  released the mutex, so between the two there is a notification that is \<open>due\<close>: other threads
  run in that window. Which parked thread a notification picks is not determined.
\<close>

record naive_sys =
  nsys_q :: NaiveTaskQueue
  waiting :: "nat list"
  woken :: "nat list"
  one_due :: nat
  all_due :: nat
  pushed :: "InferenceTask list"
  popped :: "InferenceTask list"

definition naive_sys_init :: naive_sys where
  "naive_sys_init =
     \<lparr>nsys_q = naive_new, waiting = [], woken = [], one_due = 0, all_due = 0, pushed = [], popped = []\<rparr>"

text \<open>A consumer that holds the mutex evaluates the predicate: it takes a batch or parks.\<close>

definition naive_attempt :: "size_t \<Rightarrow> nat \<Rightarrow> naive_sys \<Rightarrow> naive_sys" where
  "naive_attempt m i s =
     (case naive_pop_batch [] m (nsys_q s) of
        Waits \<Rightarrow> s\<lparr>waiting := waiting s @ [i]\<rparr>
      | Returns (n, batch, q') \<Rightarrow> s\<lparr>nsys_q := q', popped := popped s @ batch\<rparr>)"

inductive naive_step :: "size_t \<Rightarrow> naive_sys \<Rightarrow> naive_sys \<Rightarrow> bool" for m :: size_t where
  push: "naive_push task (nsys_q s) = Returns (ok, q') \<Longrightarrow>
     naive_step m s (s\<lparr>nsys_q := q', one_due := one_due s + 1, pushed := pushed s @ [task]\<rparr>)"
| notify_nobody: "one_due s = Suc d \<Longrightarrow> waiting s = [] \<Longrightarrow> naive_step m s (s\<lparr>one_due := d\<rparr>)"
| notify_one: "one_due s = Suc d \<Longrightarrow> waiting s = xs @ i # ys \<Longrightarrow>
     naive_step m s (s\<lparr>one_due := d, waiting := xs @ ys, woken := woken s @ [i]\<rparr>)"
| spurious: "waiting s = xs @ i # ys \<Longrightarrow>
     naive_step m s (s\<lparr>waiting := xs @ ys, woken := woken s @ [i]\<rparr>)"
| call: "naive_step m s (naive_attempt m i s)"
| resume: "woken s = xs @ i # ys \<Longrightarrow> naive_step m s (naive_attempt m i (s\<lparr>woken := xs @ ys\<rparr>))"
| shutdown: "naive_step m s (s\<lparr>nsys_q := naive_shutdown (nsys_q s), all_due := all_due s + 1\<rparr>)"
| notify_all: "all_due s = Suc d \<Longrightarrow>
     naive_step m s (s\<lparr>all_due := d, waiting := [], woken := woken s @ waiting s\<rparr>)"

inductive naive_reachable :: "size_t \<Rightarrow> naive_sys \<Rightarrow> bool" for m :: size_t where
  init: "naive_reachable m naive_sys_init"
| step: "naive_reachable m s \<Longrightarrow> naive_step m s s' \<Longrightarrow> naive_reachable m s'"

definition wakeups_inv :: "naive_sys \<Rightarrow> bool" where
  "wakeups_inv s \<longleftrightarrow>
     pushed s = popped s @ nq_data (nsys_q s) \<and>
     (waiting s \<noteq> [] \<longrightarrow>
        length (nq_data (nsys_q s)) \<le> length (woken s) + one_due s \<and>
        (nq_stop (nsys_q s) \<longrightarrow> 0 < all_due s))"

text \<open>
  An attempt from a state in which the thread's own wake-up is already spent: if it does not
  park, it takes at least one task or finds the queue stopped and empty.
\<close>

lemma naive_attempt_inv:
  assumes "m \<noteq> 0" "pushed s = popped s @ nq_data (nsys_q s)"
    "waiting s \<noteq> [] \<Longrightarrow> length (nq_data (nsys_q s)) \<le> Suc (length (woken s)) + one_due s"
    "waiting s \<noteq> [] \<Longrightarrow> nq_stop (nsys_q s) \<Longrightarrow> 0 < all_due s"
  shows "wakeups_inv (naive_attempt m i s)"
proof (cases "nq_data (nsys_q s)")
  case Nil
  then show ?thesis
    using assms by (auto simp: wakeups_inv_def naive_attempt_def naive_defs)
next
  case (Cons x xs)
  obtain k where k: "unat m = Suc k"
    using assms(1) by (metis not0_implies_Suc unat_eq_zero)
  have "naive_attempt m i s =
      s\<lparr>nsys_q := (nsys_q s)\<lparr>nq_data := drop k xs\<rparr>, popped := popped s @ x # take k xs\<rparr>"
    using Cons k naive_take_result [of 0 m "x # xs" "[]"] by (simp add: naive_attempt_def naive_defs)
  then show ?thesis
    using assms(2-4) Cons by (auto simp: wakeups_inv_def)
qed

lemma naive_step_inv:
  assumes "m \<noteq> 0" "naive_step m s s'" "wakeups_inv s"
  shows "wakeups_inv s'"
  using assms(2,3)
proof (induction rule: naive_step.induct)
  case (call s i)
  then show ?case
    using assms(1) by (intro naive_attempt_inv) (auto simp: wakeups_inv_def)
next
  case (resume s xs i ys)
  then show ?case
    using assms(1) by (intro naive_attempt_inv) (auto simp: wakeups_inv_def)
qed (auto simp: wakeups_inv_def naive_push_def naive_shutdown_def)

lemma naive_reachable_inv: "naive_reachable m s \<Longrightarrow> m \<noteq> 0 \<Longrightarrow> wakeups_inv s"
proof (induction rule: naive_reachable.induct)
  case init
  show ?case by (simp add: wakeups_inv_def naive_sys_init_def naive_new_def)
next
  case (step s s')
  then show ?case by (blast intro: naive_step_inv)
qed


subsection \<open>Properties\<close>

text \<open>
  C10: For consumers whose batch size is not zero no wake-up is lost: while some consumer is parked,
  every queued task has a wake-up of its own that is still on its way (a thread already woken, or
  a notification that is due), although \<^verbatim>\<open>push\<close> notifies only after it has released the mutex;
  and a parked consumer of a stopped queue has a \<^verbatim>\<open>notify_all\<close> coming. (With batch size zero a
  woken consumer takes nothing, and its wake-up is lost.)
\<close>

theorem naive_no_lost_wakeup:
  assumes "naive_reachable m s" "m \<noteq> 0" "waiting s \<noteq> []"
  shows "length (nq_data (nsys_q s)) \<le> length (woken s) + one_due s \<and>
         (nq_stop (nsys_q s) \<longrightarrow> 0 < all_due s)"
  using naive_reachable_inv [OF assms(1,2)] assms(3) by (auto simp: wakeups_inv_def)

theorem naive_no_lost_wakeup_witness:
  "\<exists>s. naive_reachable 1 s \<and> waiting s = [5] \<and> nq_data (nsys_q s) = [default_task] \<and>
       length (nq_data (nsys_q s)) \<le> length (woken s) + one_due s"
proof -
  let ?s1 = "naive_attempt 1 5 naive_sys_init"
  let ?s2 = "?s1\<lparr>nsys_q := (nsys_q ?s1)\<lparr>nq_data := nq_data (nsys_q ?s1) @ [default_task]\<rparr>,
    one_due := one_due ?s1 + 1, pushed := pushed ?s1 @ [default_task]\<rparr>"
  have "naive_reachable 1 ?s1"
    by (rule naive_reachable.step [OF naive_reachable.init naive_step.call])
  then have r: "naive_reachable 1 ?s2"
    by (rule naive_reachable.step) (rule naive_step.push [where ok = True], simp add: naive_push_def)
  have s1: "waiting ?s1 = [5]" "nq_data (nsys_q ?s1) = []"
    by (simp_all add: naive_attempt_def naive_defs naive_sys_init_def naive_new_def)
  then show ?thesis
    using naive_no_lost_wakeup [OF r] r by (intro exI [of _ ?s2]) simp
qed

text \<open>
  The mutex queue delivers what was pushed in order, also across concurrent callers: at every
  moment the pushed tasks are the popped ones followed by the queued ones.
\<close>

theorem naive_fifo_history:
  assumes "naive_reachable m s" "m \<noteq> 0"
  shows "pushed s = popped s @ nq_data (nsys_q s)"
  using naive_reachable_inv [OF assms] by (simp add: wakeups_inv_def)

theorem naive_fifo_history_witness:
  "\<exists>s. naive_reachable 1 s \<and> pushed s = [default_task] \<and> popped s @ nq_data (nsys_q s) = [default_task]"
proof -
  let ?s = "naive_sys_init\<lparr>nsys_q := (nsys_q naive_sys_init)\<lparr>nq_data := [default_task]\<rparr>,
    one_due := 1, pushed := [default_task]\<rparr>"
  have "naive_step 1 naive_sys_init (naive_sys_init\<lparr>
      nsys_q := (nsys_q naive_sys_init)\<lparr>nq_data := nq_data (nsys_q naive_sys_init) @ [default_task]\<rparr>,
      one_due := one_due naive_sys_init + 1, pushed := pushed naive_sys_init @ [default_task]\<rparr>)"
    by (rule naive_step.push [where ok = True]) (simp add: naive_push_def)
  moreover have "nq_data (nsys_q naive_sys_init) = []" "one_due naive_sys_init = 0" "pushed naive_sys_init = []"
    by (simp_all add: naive_sys_init_def naive_new_def)
  ultimately have r: "naive_reachable 1 ?s"
    using naive_reachable.step [OF naive_reachable.init] by simp
  show ?thesis
    using naive_fifo_history [OF r] r by (intro exI [of _ ?s]) simp
qed

end
