(* ===== verification/Ring_Buffer.thy ===== *)
theory Ring_Buffer
  imports Queue_Interfaces
begin

section \<open>Positions of a 1024-cell ring\<close>

text \<open>
  Both lock-free queues index a buffer of \<^verbatim>\<open>Capacity = 1024\<close> cells with free-running 64-bit
  counters and \<^verbatim>\<open>& Mask\<close>. \<open>ring_list b h n\<close> reads the \<open>n\<close> elements that start at position
  \<open>h\<close>; it is the list a pair of counters stands for. Because 1024 divides \<open>2 ^ 64\<close>, a slot
  is its position modulo 1024 even when a counter wraps around.
\<close>

definition Capacity :: size_t where
  "Capacity = 1024"

definition Mask :: size_t where
  "Mask = Capacity - 1"

definition slot :: "size_t \<Rightarrow> nat" where
  "slot x = unat (x AND Mask)"

definition ring_list :: "'a list \<Rightarrow> size_t \<Rightarrow> nat \<Rightarrow> 'a list" where
  "ring_list b h n = map (\<lambda>i. b ! slot (h + of_nat i)) [0..<n]"

lemma Mask_eq: "Mask = 1023"
  by (simp add: Mask_def Capacity_def)

lemma slot_mod [ring_simps]: "slot x = unat x mod 1024"
  by (simp add: slot_def Mask_eq unat_and_mask10)

lemma slot_add [ring_simps]: "slot (h + of_nat i) = (unat h + i) mod 1024"
  by (simp add: slot_def Mask_eq unat_and_mask10_add)

lemma slot_less [simp]: "slot x < 1024"
  by (simp add: slot_mod)

lemma and_Mask_eq_iff: "x AND Mask = y AND Mask \<longleftrightarrow> slot x = slot y"
  by (simp add: slot_def word_unat_eq_iff)

lemma slot_lap_inj:
  "slot (h + of_nat i) = slot (h + of_nat j) \<Longrightarrow> i < 1024 \<Longrightarrow> j < 1024 \<Longrightarrow> i = j"
  unfolding slot_add by (rule mod_lap_inj)

text \<open>A ring is full, by the test of the single-producer queue, exactly when 1023 cells are used.\<close>

lemma slot_full_iff:
  fixes t h :: size_t
  assumes "unat (t - h) < 1024"
  shows "(t + 1) AND Mask = h AND Mask \<longleftrightarrow> unat (t - h) = 1023"
proof -
  let ?n = "unat (t - h)"
  have "t + 1 = h + of_nat (?n + 1)"
    by (simp add: algebra_simps)
  then have s: "slot (t + 1) = (unat h + (?n + 1)) mod 1024"
    by (simp only: slot_add)
  have "?n = 1023" if "(unat h + (?n + 1)) mod 1024 = (unat h + 0) mod 1024"
  proof (rule ccontr)
    assume "?n \<noteq> 1023"
    then have "?n + 1 < 1024"
      using assms by simp
    then show False
      using mod_lap_inj [OF that] by simp
  qed
  then show ?thesis
    using s by (auto simp: and_Mask_eq_iff slot_mod [of h])
qed


subsection \<open>Reading a stretch of the ring\<close>

lemma length_ring_list [simp]: "length (ring_list b h n) = n"
  by (simp add: ring_list_def)

lemma ring_list_0 [simp]: "ring_list b h 0 = []"
  by (simp add: ring_list_def)

lemma ring_list_eq_Nil_iff [simp]: "ring_list b h n = [] \<longleftrightarrow> n = 0"
  by (simp add: ring_list_def)

lemma ring_list_snoc: "ring_list b h (Suc n) = ring_list b h n @ [b ! slot (h + of_nat n)]"
  by (simp add: ring_list_def)

lemma ring_list_Cons: "ring_list b h (Suc n) = b ! slot h # ring_list b (h + 1) n"
  by (simp add: ring_list_def map_upt_Suc_shift add.assoc del: upt_Suc)

lemma ring_list_Cons_pos: "0 < n \<Longrightarrow> ring_list b h n = b ! slot h # ring_list b (h + 1) (n - 1)"
  using ring_list_Cons [of b h "n - 1"] by simp

lemma ring_list_update_back:
  assumes "n \<le> k" "k < 1024"
  shows "ring_list (b[slot (h + of_nat k) := x]) h n = ring_list b h n"
  unfolding ring_list_def
proof (rule map_cong [OF refl])
  fix i assume "i \<in> set [0..<n]"
  then have "i < k" "i < 1024"
    using assms by auto
  then have "slot (h + of_nat k) \<noteq> slot (h + of_nat i)"
    using slot_lap_inj [of h k i] assms(2) by blast
  then show "b[slot (h + of_nat k) := x] ! slot (h + of_nat i) = b ! slot (h + of_nat i)"
    by (rule nth_list_update_neq)
qed

lemma ring_list_update_tail:
  assumes "unat (t - h) < 1024"
  shows "ring_list (b[slot t := x]) h (unat (t - h)) = ring_list b h (unat (t - h))"
proof -
  have "slot t = slot (h + of_nat (unat (t - h)))"
    by simp
  then show ?thesis
    using ring_list_update_back [of "unat (t - h)" "unat (t - h)" b h x] assms by simp
qed

lemma ring_list_push:
  assumes "unat (t - h) < 1024" "length b = 1024"
  shows "ring_list (b[slot t := x]) h (Suc (unat (t - h))) = ring_list b h (unat (t - h)) @ [x]"
  using assms by (simp add: ring_list_snoc ring_list_update_tail)

lemma ring_list_update_front:
  assumes "n < 1024"
  shows "ring_list (b[slot h := x]) (h + 1) n = ring_list b (h + 1) n"
proof -
  have "slot (h + 1 + of_nat i) \<noteq> slot h" if "i < n" for i
  proof
    assume "slot (h + 1 + of_nat i) = slot h"
    then have "slot (h + of_nat (Suc i)) = slot (h + of_nat 0)"
      by (simp add: add.assoc)
    then show False
      using slot_lap_inj [of h "Suc i" 0] that assms by simp
  qed
  then show ?thesis
    unfolding ring_list_def by (intro map_cong [OF refl] nth_list_update_neq) fastforce
qed

end
