(* ===== verification/SPSC_Concurrent.thy ===== *)
theory SPSC_Concurrent
  imports SPSC_Queue
begin

section \<open>One producer and one consumer, interleaved\<close>

text \<open>
  The methods \<^verbatim>\<open>push\<close> and \<^verbatim>\<open>pop\<close> of \<^verbatim>\<open>SPSCTaskQueue\<close>, one access to shared memory per
  step. A local state says which access comes next and carries the method's local variables.
  \<open>spsc_step\<close> interleaves the two threads (and a \<^verbatim>\<open>shutdown\<close> from any thread) in every
  order. Two auxiliary fields record the history: \<open>accepted\<close> grows when a push publishes its
  task, \<open>delivered\<close> when a pop hands one out.
\<close>

datatype spsc_prod =
    ProdIdle
  | ProdStop InferenceTask             \<comment> \<open>load \<^verbatim>\<open>stop_flag\<close>\<close>
  | ProdTail InferenceTask             \<comment> \<open>load \<^verbatim>\<open>tail\<close>\<close>
  | ProdHead InferenceTask size_t      \<comment> \<open>load \<^verbatim>\<open>head\<close>, test for a full ring\<close>
  | ProdWrite InferenceTask size_t     \<comment> \<open>write the cell\<close>
  | ProdPub InferenceTask size_t       \<comment> \<open>store \<^verbatim>\<open>tail\<close>\<close>
  | ProdRet bool

datatype spsc_cons =
    ConsIdle
  | ConsHead                           \<comment> \<open>load \<^verbatim>\<open>head\<close>\<close>
  | ConsTail size_t                    \<comment> \<open>load \<^verbatim>\<open>tail\<close>, test for an empty ring\<close>
  | ConsRead size_t                    \<comment> \<open>move the task out of the cell\<close>
  | ConsPub size_t InferenceTask       \<comment> \<open>store \<^verbatim>\<open>head\<close>\<close>
  | ConsRet "InferenceTask option"

fun spsc_push_step :: "SPSCTaskQueue \<Rightarrow> spsc_prod \<Rightarrow> SPSCTaskQueue \<times> spsc_prod" where
  "spsc_push_step q (ProdStop task) = (q, if sp_stop q then ProdRet False else ProdTail task)"
| "spsc_push_step q (ProdTail task) = (q, ProdHead task (sp_tail q))"
| "spsc_push_step q (ProdHead task t) =
     (q, if (t + 1) AND Mask = sp_head q AND Mask then ProdRet False else ProdWrite task t)"
| "spsc_push_step q (ProdWrite task t) =
     (q\<lparr>sp_buffer := (sp_buffer q)[slot t := task]\<rparr>, ProdPub task t)"
| "spsc_push_step q (ProdPub task t) = (q\<lparr>sp_tail := t + 1\<rparr>, ProdRet True)"
| "spsc_push_step q p = (q, p)"

fun spsc_pop_step :: "SPSCTaskQueue \<Rightarrow> spsc_cons \<Rightarrow> SPSCTaskQueue \<times> spsc_cons" where
  "spsc_pop_step q ConsHead = (q, ConsTail (sp_head q))"
| "spsc_pop_step q (ConsTail h) = (q, if h = sp_tail q then ConsRet None else ConsRead h)"
| "spsc_pop_step q (ConsRead h) =
     (q\<lparr>sp_buffer := (sp_buffer q)[slot h := moved_from (sp_buffer q ! slot h)]\<rparr>,
      ConsPub h (sp_buffer q ! slot h))"
| "spsc_pop_step q (ConsPub h task) = (q\<lparr>sp_head := h + 1\<rparr>, ConsRet (Some task))"
| "spsc_pop_step q c = (q, c)"

record spsc_sys =
  sys_q :: SPSCTaskQueue
  producer :: spsc_prod
  consumer :: spsc_cons
  accepted :: "InferenceTask list"
  delivered :: "InferenceTask list"

definition spsc_init :: spsc_sys where
  "spsc_init =
     \<lparr>sys_q = spsc_new, producer = ProdIdle, consumer = ConsIdle, accepted = [], delivered = []\<rparr>"

fun published :: "spsc_prod \<Rightarrow> InferenceTask list" where
  "published (ProdPub task t) = [task]"
| "published _ = []"

fun handed_out :: "spsc_cons \<Rightarrow> InferenceTask list" where
  "handed_out (ConsPub h task) = [task]"
| "handed_out _ = []"

inductive spsc_step :: "spsc_sys \<Rightarrow> spsc_sys \<Rightarrow> bool" where
  call_push: "producer s = ProdIdle \<Longrightarrow> spsc_step s (s\<lparr>producer := ProdStop task\<rparr>)"
| push_step: "spsc_push_step (sys_q s) (producer s) = (q', p') \<Longrightarrow>
     spsc_step s (s\<lparr>sys_q := q', producer := p', accepted := accepted s @ published (producer s)\<rparr>)"
| return_push: "producer s = ProdRet ok \<Longrightarrow> spsc_step s (s\<lparr>producer := ProdIdle\<rparr>)"
| call_pop: "consumer s = ConsIdle \<Longrightarrow> spsc_step s (s\<lparr>consumer := ConsHead\<rparr>)"
| pop_step: "spsc_pop_step (sys_q s) (consumer s) = (q', c') \<Longrightarrow>
     spsc_step s (s\<lparr>sys_q := q', consumer := c', delivered := delivered s @ handed_out (consumer s)\<rparr>)"
| return_pop: "consumer s = ConsRet r \<Longrightarrow> spsc_step s (s\<lparr>consumer := ConsIdle\<rparr>)"
| stop: "spsc_step s (s\<lparr>sys_q := spsc_shutdown (sys_q s)\<rparr>)"

inductive spsc_reachable :: "spsc_sys \<Rightarrow> bool" where
  init: "spsc_reachable spsc_init"
| step: "spsc_reachable s \<Longrightarrow> spsc_step s s' \<Longrightarrow> spsc_reachable s'"


text \<open>The same system as a function on schedules, for runs on concrete inputs.\<close>

datatype spsc_action = CallPush InferenceTask | PushStep | RetPush | CallPop | PopStep | RetPop | Stop

fun spsc_act :: "spsc_action \<Rightarrow> spsc_sys \<Rightarrow> spsc_sys option" where
  "spsc_act (CallPush task) s = (if producer s = ProdIdle then Some (s\<lparr>producer := ProdStop task\<rparr>) else None)"
| "spsc_act PushStep s =
     (case spsc_push_step (sys_q s) (producer s) of (q', p') \<Rightarrow>
        Some (s\<lparr>sys_q := q', producer := p', accepted := accepted s @ published (producer s)\<rparr>))"
| "spsc_act RetPush s = (case producer s of ProdRet ok \<Rightarrow> Some (s\<lparr>producer := ProdIdle\<rparr>) | _ \<Rightarrow> None)"
| "spsc_act CallPop s = (if consumer s = ConsIdle then Some (s\<lparr>consumer := ConsHead\<rparr>) else None)"
| "spsc_act PopStep s =
     (case spsc_pop_step (sys_q s) (consumer s) of (q', c') \<Rightarrow>
        Some (s\<lparr>sys_q := q', consumer := c', delivered := delivered s @ handed_out (consumer s)\<rparr>))"
| "spsc_act RetPop s = (case consumer s of ConsRet r \<Rightarrow> Some (s\<lparr>consumer := ConsIdle\<rparr>) | _ \<Rightarrow> None)"
| "spsc_act Stop s = Some (s\<lparr>sys_q := spsc_shutdown (sys_q s)\<rparr>)"

fun spsc_run :: "spsc_action list \<Rightarrow> spsc_sys \<Rightarrow> spsc_sys option" where
  "spsc_run [] s = Some s"
| "spsc_run (a # as) s = (case spsc_act a s of None \<Rightarrow> None | Some s' \<Rightarrow> spsc_run as s')"


subsection \<open>A method that is not interrupted is the sequential method\<close>

fun spsc_run_push :: "nat \<Rightarrow> SPSCTaskQueue \<Rightarrow> spsc_prod \<Rightarrow> (bool \<times> SPSCTaskQueue) call" where
  "spsc_run_push n q (ProdRet ok) = Returns (ok, q)"
| "spsc_run_push 0 q p = Waits"
| "spsc_run_push (Suc n) q p = (case spsc_push_step q p of (q', p') \<Rightarrow> spsc_run_push n q' p')"

fun spsc_run_pop :: "nat \<Rightarrow> SPSCTaskQueue \<Rightarrow> spsc_cons \<Rightarrow> (InferenceTask option \<times> SPSCTaskQueue) call" where
  "spsc_run_pop n q (ConsRet r) = Returns (r, q)"
| "spsc_run_pop 0 q c = Waits"
| "spsc_run_pop (Suc n) q c = (case spsc_pop_step q c of (q', c') \<Rightarrow> spsc_run_pop n q' c')"

lemma spsc_push_uninterrupted: "spsc_run_push 5 q (ProdStop task) = spsc_push task q"
  by (simp add: numeral_eq_Suc spsc_push_def Let_def)

lemma spsc_pop_uninterrupted: "spsc_run_pop 4 q ConsHead = spsc_pop q"
  by (simp add: numeral_eq_Suc spsc_pop_def Let_def)


subsection \<open>The invariant of the interleaved system\<close>

fun prod_inv :: "SPSCTaskQueue \<Rightarrow> spsc_prod \<Rightarrow> bool" where
  "prod_inv q (ProdHead task t) \<longleftrightarrow> t = sp_tail q"
| "prod_inv q (ProdWrite task t) \<longleftrightarrow> t = sp_tail q \<and> sp_used q < 1023"
| "prod_inv q (ProdPub task t) \<longleftrightarrow> t = sp_tail q \<and> sp_used q < 1023 \<and> sp_buffer q ! slot t = task"
| "prod_inv q _ \<longleftrightarrow> True"

fun cons_inv :: "SPSCTaskQueue \<Rightarrow> spsc_cons \<Rightarrow> bool" where
  "cons_inv q (ConsTail h) \<longleftrightarrow> h = sp_head q"
| "cons_inv q (ConsRead h) \<longleftrightarrow> h = sp_head q \<and> 0 < sp_used q"
| "cons_inv q (ConsPub h task) \<longleftrightarrow> h = sp_head q \<and> 0 < sp_used q"
| "cons_inv q _ \<longleftrightarrow> True"

text \<open>What is in the queue: a task already moved out of its cell still counts until \<^verbatim>\<open>head\<close> moves.\<close>

fun in_queue :: "SPSCTaskQueue \<Rightarrow> spsc_cons \<Rightarrow> InferenceTask list" where
  "in_queue q (ConsPub h task) = task # ring_list (sp_buffer q) (sp_head q + 1) (sp_used q - 1)"
| "in_queue q _ = spsc_contents q"

definition spsc_sys_inv :: "spsc_sys \<Rightarrow> bool" where
  "spsc_sys_inv s \<longleftrightarrow>
     spsc_inv (sys_q s) \<and> prod_inv (sys_q s) (producer s) \<and> cons_inv (sys_q s) (consumer s) \<and>
     accepted s = delivered s @ in_queue (sys_q s) (consumer s)"

lemma spsc_sys_inv_init: "spsc_sys_inv spsc_init"
  by (simp add: spsc_sys_inv_def spsc_init_def spsc_new_inv)

lemma write_keeps_in_queue:
  assumes "spsc_inv q" "cons_inv q c" "sp_used q < 1023"
  shows "in_queue (q\<lparr>sp_buffer := (sp_buffer q)[slot (sp_tail q) := x]\<rparr>) c = in_queue q c"
proof -
  have all: "ring_list ((sp_buffer q)[slot (sp_tail q) := x]) (sp_head q) (sp_used q) =
      ring_list (sp_buffer q) (sp_head q) (sp_used q)"
    using assms(3) by (intro ring_list_update_tail) simp
  have rest: "ring_list ((sp_buffer q)[slot (sp_tail q) := x]) (sp_head q + 1) (sp_used q - 1) =
      ring_list (sp_buffer q) (sp_head q + 1) (sp_used q - 1)" if "0 < sp_used q"
    using all ring_list_Cons_pos [OF that] by (metis list.inject)
  show ?thesis
    using assms(2) all rest by (cases c) (auto simp: spsc_contents_def)
qed

lemma publish_extends_in_queue:
  assumes "spsc_inv q" "cons_inv q c" "sp_used q < 1023" "sp_buffer q ! slot (sp_tail q) = x"
  shows "in_queue (q\<lparr>sp_tail := sp_tail q + 1\<rparr>) c = in_queue q c @ [x]"
proof -
  let ?b = "sp_buffer q" and ?h = "sp_head q" and ?n = "sp_used q"
  have u: "unat (sp_tail q + 1 - ?h) = Suc ?n"
    using unat_diff_Suc_tail [of "sp_tail q" ?h] assms(3) by simp
  have all: "ring_list ?b ?h (Suc ?n) = ring_list ?b ?h ?n @ [x]"
    using assms(4) by (simp add: ring_list_snoc)
  have rest: "ring_list ?b (?h + 1) ?n = ring_list ?b (?h + 1) (?n - 1) @ [x]" if "0 < ?n"
    using all ring_list_Cons_pos [OF that, of ?b ?h] ring_list_Cons [of ?b ?h ?n] by simp
  show ?thesis
    using assms(2) all rest u by (cases c) (auto simp: spsc_contents_def)
qed

lemma push_step_inv:
  assumes "spsc_sys_inv s" "spsc_push_step (sys_q s) (producer s) = (q', p')"
  shows "spsc_sys_inv (s\<lparr>sys_q := q', producer := p', accepted := accepted s @ published (producer s)\<rparr>)"
proof -
  let ?q = "sys_q s"
  have inv: "spsc_inv ?q" "cons_inv ?q (consumer s)" "prod_inv ?q (producer s)"
      "accepted s = delivered s @ in_queue ?q (consumer s)"
    using assms(1) by (auto simp: spsc_sys_inv_def)
  show ?thesis
  proof (cases "producer s")
    case (ProdHead task t)
    then have "sp_used ?q < 1023" if "\<not> ((t + 1) AND Mask = sp_head ?q AND Mask)"
      using that inv slot_full_iff [of "sp_tail ?q" "sp_head ?q"] by (auto simp: spsc_inv_def)
    then show ?thesis
      using ProdHead assms by (auto simp: spsc_sys_inv_def)
  next
    case (ProdWrite task t)
    have "cons_inv (?q\<lparr>sp_buffer := (sp_buffer ?q)[slot t := task]\<rparr>) (consumer s)"
      using inv(2) by (cases "consumer s") auto
    then show ?thesis
      using ProdWrite assms(2) inv write_keeps_in_queue [OF inv(1,2)]
      by (auto simp: spsc_sys_inv_def spsc_inv_def)
  next
    case (ProdPub task t)
    have u: "unat (sp_tail ?q + 1 - sp_head ?q) = Suc (sp_used ?q)"
      using unat_diff_Suc_tail [of "sp_tail ?q" "sp_head ?q"] ProdPub inv(3) by simp
    have "cons_inv (?q\<lparr>sp_tail := sp_tail ?q + 1\<rparr>) (consumer s)"
      using inv(2) u by (cases "consumer s") auto
    then show ?thesis
      using ProdPub assms(2) inv publish_extends_in_queue [OF inv(1,2)] u
      by (auto simp: spsc_sys_inv_def spsc_inv_def)
  next
    case (ProdRet ok)
    then have "q' = ?q" "p' = ProdRet ok"
      using assms(2) by auto
    then show ?thesis
      using ProdRet inv by (simp add: spsc_sys_inv_def)
  qed (use assms in \<open>auto simp: spsc_sys_inv_def\<close>)
qed

lemma slots_apart:
  assumes "0 < sp_used q" "sp_used q < 1024"
  shows "slot (sp_tail q) \<noteq> slot (sp_head q)"
proof
  assume "slot (sp_tail q) = slot (sp_head q)"
  then have "slot (sp_head q + of_nat (sp_used q)) = slot (sp_head q + of_nat 0)"
    by simp
  then show False
    using slot_lap_inj [of "sp_head q" "sp_used q" 0] assms by simp
qed

lemma pop_step_inv:
  assumes "spsc_sys_inv s" "spsc_pop_step (sys_q s) (consumer s) = (q', c')"
  shows "spsc_sys_inv (s\<lparr>sys_q := q', consumer := c', delivered := delivered s @ handed_out (consumer s)\<rparr>)"
proof -
  let ?q = "sys_q s"
  have inv: "spsc_inv ?q" "cons_inv ?q (consumer s)" "prod_inv ?q (producer s)"
      "accepted s = delivered s @ in_queue ?q (consumer s)"
    using assms(1) by (auto simp: spsc_sys_inv_def)
  show ?thesis
  proof (cases "consumer s")
    case (ConsTail h)
    then show ?thesis
      using assms inv by (auto simp: spsc_sys_inv_def unat_gt_0)
  next
    case (ConsRead h)
    let ?x = "sp_buffer ?q ! slot h"
    let ?q' = "?q\<lparr>sp_buffer := (sp_buffer ?q)[slot h := moved_from ?x]\<rparr>"
    have h: "h = sp_head ?q" "0 < sp_used ?q" "sp_used ?q < 1024" "length (sp_buffer ?q) = 1024"
      using ConsRead inv by (auto simp: spsc_inv_def)
    have "in_queue ?q' (ConsPub h ?x) = spsc_contents ?q"
      using ring_list_Cons_pos [OF h(2), of "sp_buffer ?q" h] h
        ring_list_update_front [of "sp_used ?q - 1" "sp_buffer ?q" h "moved_from ?x"]
      by (simp add: spsc_contents_def)
    moreover have "prod_inv ?q' (producer s)"
      using inv(3) slots_apart [OF h(2,3)] h(1) by (cases "producer s") auto
    ultimately show ?thesis
      using ConsRead assms(2) inv h by (auto simp: spsc_sys_inv_def spsc_inv_def)
  next
    case (ConsPub h x)
    have h: "h = sp_head ?q" "0 < sp_used ?q"
      using ConsPub inv by auto
    have "sp_tail ?q \<noteq> sp_head ?q"
      using h(2) by auto
    then have u: "unat (sp_tail ?q - (sp_head ?q + 1)) = sp_used ?q - 1"
      by (rule unat_diff_Suc_head)
    have "prod_inv (?q\<lparr>sp_head := sp_head ?q + 1\<rparr>) (producer s)"
      using inv(3) u by (cases "producer s") auto
    then show ?thesis
      using ConsPub assms(2) inv h u by (auto simp: spsc_sys_inv_def spsc_inv_def spsc_contents_def)
  next
    case (ConsRet r)
    then have "q' = ?q" "c' = ConsRet r"
      using assms(2) by auto
    then show ?thesis
      using ConsRet inv by (simp add: spsc_sys_inv_def)
  qed (use assms in \<open>auto simp: spsc_sys_inv_def\<close>)
qed

lemma shutdown_step_inv:
  assumes "spsc_sys_inv s"
  shows "spsc_sys_inv (s\<lparr>sys_q := spsc_shutdown (sys_q s)\<rparr>)"
proof -
  have "prod_inv (spsc_shutdown q) p = prod_inv q p" "cons_inv (spsc_shutdown q) c = cons_inv q c"
    "in_queue (spsc_shutdown q) c = in_queue q c" for q p c
    by (cases p; simp add: spsc_shutdown_def) (cases c; simp add: spsc_shutdown_def spsc_contents_def)+
  then show ?thesis
    using assms by (simp add: spsc_sys_inv_def) (simp add: spsc_shutdown_def spsc_inv_def)
qed

lemma spsc_step_inv: "spsc_step s s' \<Longrightarrow> spsc_sys_inv s \<Longrightarrow> spsc_sys_inv s'"
proof (induction rule: spsc_step.induct)
  case (push_step s q' p')
  then show ?case by (metis push_step_inv)
next
  case (pop_step s q' c')
  then show ?case by (metis pop_step_inv)
next
  case (stop s)
  then show ?case by (metis shutdown_step_inv)
qed (auto simp: spsc_sys_inv_def)

lemma spsc_reachable_inv: "spsc_reachable s \<Longrightarrow> spsc_sys_inv s"
  by (induction rule: spsc_reachable.induct) (auto intro: spsc_sys_inv_init spsc_step_inv)


lemma spsc_act_step: "spsc_act a s = Some s' \<Longrightarrow> spsc_step s s'"
  by (cases a) (auto split: prod.splits if_splits spsc_prod.splits spsc_cons.splits
      intro: spsc_step.intros)

lemma spsc_run_reachable: "spsc_run as s = Some s' \<Longrightarrow> spsc_reachable s \<Longrightarrow> spsc_reachable s'"
  by (induction as arbitrary: s)
    (auto split: option.splits dest: spsc_reachable.step [OF _ spsc_act_step])


subsection \<open>Properties\<close>

text \<open>
  C3: In every reachable state of one producer and one consumer, the accepted tasks are the
  delivered tasks followed by what is still in the queue, in order, and the queue never holds
  more than 1023 tasks: no task is lost, duplicated or reordered by any interleaving, also
  when the 64-bit counters wrap around.
\<close>

theorem spsc_linear_history:
  assumes "spsc_reachable s"
  shows "accepted s = delivered s @ in_queue (sys_q s) (consumer s) \<and>
         length (in_queue (sys_q s) (consumer s)) \<le> 1023"
proof -
  have inv: "spsc_sys_inv s"
    using assms by (rule spsc_reachable_inv)
  moreover have "length (in_queue (sys_q s) (consumer s)) = sp_used (sys_q s)"
    using inv by (cases "consumer s") (auto simp: spsc_sys_inv_def)
  ultimately show ?thesis
    by (auto simp: spsc_sys_inv_def spsc_inv_def)
qed

text \<open>A schedule in which the producer is about to write a cell while the consumer is about to read one.\<close>

definition spsc_contended :: "spsc_action list" where
  "spsc_contended =
     CallPush default_task # replicate 5 PushStep @ [RetPush, CallPush (moved_from default_task)] @
     replicate 3 PushStep @ [CallPop, PopStep, PopStep]"

lemma spsc_contended_runs:
  "\<exists>s. spsc_run spsc_contended spsc_init = Some s \<and> producer s = ProdWrite (moved_from default_task) 1 \<and>
       consumer s = ConsRead 0 \<and> accepted s = [default_task] \<and> delivered s = []"
  by (simp add: spsc_contended_def numeral_eq_Suc spsc_init_def spsc_new_def Mask_eq)

theorem spsc_linear_history_witness:
  "\<exists>s. spsc_reachable s \<and> accepted s = [default_task] \<and> delivered s = [] \<and>
       in_queue (sys_q s) (consumer s) = [default_task]"
proof -
  obtain s where s: "spsc_run spsc_contended spsc_init = Some s" "accepted s = [default_task]" "delivered s = []"
    using spsc_contended_runs by blast
  then have "spsc_reachable s"
    by (blast intro: spsc_run_reachable spsc_reachable.init)
  then show ?thesis
    using s spsc_linear_history [of s] by auto
qed

text \<open>
  C21: The producer's write of a cell and the consumer's read of one never touch the same cell
  at the same time: the plain (non-atomic) accesses to the ring are free of data races.
\<close>

theorem spsc_race_free:
  assumes "spsc_reachable s" "producer s = ProdWrite task t" "consumer s = ConsRead h"
  shows "slot t \<noteq> slot h"
proof -
  have "spsc_sys_inv s"
    using assms(1) by (rule spsc_reachable_inv)
  then have "t = sp_tail (sys_q s)" "h = sp_head (sys_q s)" "0 < sp_used (sys_q s)" "sp_used (sys_q s) < 1024"
    using assms(2,3) by (auto simp: spsc_sys_inv_def)
  then show ?thesis
    using slots_apart by simp
qed

theorem spsc_race_free_witness:
  "\<exists>s. spsc_reachable s \<and> producer s = ProdWrite (moved_from default_task) 1 \<and> consumer s = ConsRead 0 \<and>
       slot 1 \<noteq> slot 0"
proof -
  obtain s where s: "spsc_run spsc_contended spsc_init = Some s"
      "producer s = ProdWrite (moved_from default_task) 1" "consumer s = ConsRead 0"
    using spsc_contended_runs by blast
  then have "spsc_reachable s"
    by (blast intro: spsc_run_reachable spsc_reachable.init)
  then show ?thesis
    using s spsc_race_free [of s] by auto
qed

end
