(* ===== verification/MPMC_Queue.thy ===== *)
theory MPMC_Queue
  imports Ring_Buffer
begin

section \<open>The multi-producer multi-consumer queue\<close>

text \<open>
  \<^verbatim>\<open>MPMCTaskQueue\<close>, the bounded ring of Vyukov: every cell carries a sequence number that
  says whose turn it is. A producer whose ticket \<^verbatim>\<open>t\<close> equals the cell's number claims the cell
  by advancing \<^verbatim>\<open>tail\<close>, writes it and publishes \<^verbatim>\<open>t + 1\<close>; a consumer whose ticket \<^verbatim>\<open>h\<close>
  finds \<^verbatim>\<open>h + 1\<close> claims the cell by advancing \<^verbatim>\<open>head\<close>, moves the task out and releases the
  cell for the next lap with \<^verbatim>\<open>h + Capacity\<close>.

  \<open>mpmc_thread_step\<close> is the code of both methods, one access to shared memory per step; the
  local state says which access comes next. Its Boolean argument makes
  \<^verbatim>\<open>compare_exchange_weak\<close> fail spuriously. This theory runs one thread without
  interruption (the methods as the single caller sees them); \<^verbatim>\<open>MPMC_Concurrent\<close> interleaves
  any number of threads over the same steps.
\<close>

record Cell =
  sequence :: size_t
  cell_data :: InferenceTask

record MPMCTaskQueue =
  mp_buffer :: "Cell list"
  mp_head :: size_t
  mp_tail :: size_t
  mp_stop :: bool

definition mpmc_new :: MPMCTaskQueue where
  "mpmc_new =
     \<lparr>mp_buffer = map (\<lambda>i. \<lparr>sequence = of_nat i, cell_data = default_task\<rparr>) [0..<unat Capacity],
      mp_head = 0, mp_tail = 0, mp_stop = False\<rparr>"

datatype mp_local =
    Idle
  | PushStop InferenceTask           \<comment> \<open>load \<^verbatim>\<open>stop_flag\<close>\<close>
  | PushTail InferenceTask           \<comment> \<open>load \<^verbatim>\<open>tail\<close>\<close>
  | PushSeq InferenceTask size_t     \<comment> \<open>load the cell's sequence number and compare\<close>
  | PushCas InferenceTask size_t     \<comment> \<open>compare-and-exchange \<^verbatim>\<open>tail\<close>\<close>
  | PushWrite InferenceTask size_t   \<comment> \<open>move the task into the claimed cell\<close>
  | PushPub InferenceTask size_t     \<comment> \<open>store the sequence number \<^verbatim>\<open>t + 1\<close>\<close>
  | PushRet bool
  | PopHead                          \<comment> \<open>load \<^verbatim>\<open>head\<close>\<close>
  | PopSeq size_t                    \<comment> \<open>load the cell's sequence number and compare\<close>
  | PopCas size_t                    \<comment> \<open>compare-and-exchange \<^verbatim>\<open>head\<close>\<close>
  | PopRead size_t                   \<comment> \<open>move the task out of the claimed cell\<close>
  | PopPub size_t InferenceTask      \<comment> \<open>store the sequence number \<^verbatim>\<open>h + Capacity\<close>\<close>
  | PopRet "InferenceTask option"

text \<open>
  The signed distance \<^verbatim>\<open>(intptr_t)a - (intptr_t)b\<close> as the two's complement machine computes
  it. Below \<open>2 ^ 63\<close>, where the source has no signed overflow, it is the exact difference
  (\<open>signed_diff_unat\<close>).
\<close>

definition signed_diff :: "size_t \<Rightarrow> size_t \<Rightarrow> int" where
  "signed_diff a b = sint (a - b)"

definition cell_at :: "MPMCTaskQueue \<Rightarrow> size_t \<Rightarrow> Cell" where
  "cell_at q p = mp_buffer q ! slot p"

definition set_cell :: "size_t \<Rightarrow> Cell \<Rightarrow> MPMCTaskQueue \<Rightarrow> MPMCTaskQueue" where
  "set_cell p c q = q\<lparr>mp_buffer := (mp_buffer q)[slot p := c]\<rparr>"

fun mpmc_thread_step :: "bool \<Rightarrow> MPMCTaskQueue \<Rightarrow> mp_local \<Rightarrow> MPMCTaskQueue \<times> mp_local" where
  "mpmc_thread_step weak q (PushStop task) =
     (q, if mp_stop q then PushRet False else PushTail task)"
| "mpmc_thread_step weak q (PushTail task) = (q, PushSeq task (mp_tail q))"
| "mpmc_thread_step weak q (PushSeq task t) =
     (let diff = signed_diff (sequence (cell_at q t)) t
      in (q, if diff = 0 then PushCas task t
             else if diff < 0 then PushRet False
             else PushTail task))"
| "mpmc_thread_step weak q (PushCas task t) =
     (if mp_tail q = t \<and> \<not> weak then (q\<lparr>mp_tail := t + 1\<rparr>, PushWrite task t)
      else (q, PushSeq task (mp_tail q)))"
| "mpmc_thread_step weak q (PushWrite task t) =
     (set_cell t ((cell_at q t)\<lparr>cell_data := task\<rparr>) q, PushPub task t)"
| "mpmc_thread_step weak q (PushPub task t) =
     (set_cell t ((cell_at q t)\<lparr>sequence := t + 1\<rparr>) q, PushRet True)"
| "mpmc_thread_step weak q PopHead = (q, PopSeq (mp_head q))"
| "mpmc_thread_step weak q (PopSeq h) =
     (let diff = signed_diff (sequence (cell_at q h)) (h + 1)
      in (q, if diff = 0 then PopCas h
             else if diff < 0 then PopRet None
             else PopHead))"
| "mpmc_thread_step weak q (PopCas h) =
     (if mp_head q = h \<and> \<not> weak then (q\<lparr>mp_head := h + 1\<rparr>, PopRead h)
      else (q, PopSeq (mp_head q)))"
| "mpmc_thread_step weak q (PopRead h) =
     (set_cell h ((cell_at q h)\<lparr>cell_data := moved_from (cell_data (cell_at q h))\<rparr>) q,
      PopPub h (cell_data (cell_at q h)))"
| "mpmc_thread_step weak q (PopPub h task) =
     (set_cell h ((cell_at q h)\<lparr>sequence := h + Capacity\<rparr>) q, PopRet (Some task))"
| "mpmc_thread_step weak q l = (q, l)"

text \<open>
  An uninterrupted call: the thread's steps until it returns, with a bound on the number of
  steps (the outcome is \<open>Waits\<close> when the bound is reached inside the retry loop). Six steps
  are enough for either method when no other thread runs, which is proved below.
\<close>

fun mpmc_run :: "nat \<Rightarrow> MPMCTaskQueue \<Rightarrow> mp_local \<Rightarrow> (MPMCTaskQueue \<times> mp_local) call" where
  "mpmc_run n q (PushRet ok) = Returns (q, PushRet ok)"
| "mpmc_run n q (PopRet r) = Returns (q, PopRet r)"
| "mpmc_run 0 q l = Waits"
| "mpmc_run (Suc n) q l =
     (case mpmc_thread_step False q l of (q', l') \<Rightarrow> mpmc_run n q' l')"

definition mpmc_push :: "InferenceTask \<Rightarrow> MPMCTaskQueue \<Rightarrow> (bool \<times> MPMCTaskQueue) call" where
  "mpmc_push task q =
     map_call (\<lambda>(q', l). (l = PushRet True, q')) (mpmc_run 6 q (PushStop task))"

definition mpmc_pop :: "MPMCTaskQueue \<Rightarrow> (InferenceTask option \<times> MPMCTaskQueue) call" where
  "mpmc_pop q =
     map_call (\<lambda>(q', l). (case l of PopRet r \<Rightarrow> r | _ \<Rightarrow> None, q')) (mpmc_run 6 q PopHead)"

fun mpmc_pop_loop ::
  "nat \<Rightarrow> size_t \<Rightarrow> InferenceTask list \<Rightarrow> MPMCTaskQueue \<Rightarrow>
   (size_t \<times> InferenceTask list \<times> MPMCTaskQueue) call" where
  "mpmc_pop_loop 0 count batch q = Returns (count, batch, q)"
| "mpmc_pop_loop (Suc left) count batch q =
     (case mpmc_pop q of
        Waits \<Rightarrow> Waits
      | Returns (None, q') \<Rightarrow> Returns (count, batch, q')
      | Returns (Some task, q') \<Rightarrow> mpmc_pop_loop left (count + 1) (batch @ [task]) q')"

definition mpmc_pop_batch ::
  "InferenceTask list \<Rightarrow> size_t \<Rightarrow> MPMCTaskQueue \<Rightarrow>
   (size_t \<times> InferenceTask list \<times> MPMCTaskQueue) call" where
  "mpmc_pop_batch batch max_n q = mpmc_pop_loop (unat max_n) 0 batch q"

definition mpmc_size :: "MPMCTaskQueue \<Rightarrow> size_t" where
  "mpmc_size q = (let t = mp_tail q; h = mp_head q in if t > h then t - h else 0)"

definition mpmc_empty :: "MPMCTaskQueue \<Rightarrow> bool" where
  "mpmc_empty q \<longleftrightarrow> mpmc_size q = 0"

definition mpmc_shutdown :: "MPMCTaskQueue \<Rightarrow> MPMCTaskQueue" where
  "mpmc_shutdown q = q\<lparr>mp_stop := True\<rparr>"

fun returned_local :: "mp_local \<Rightarrow> bool" where
  "returned_local (PushRet ok) = True"
| "returned_local (PopRet r) = True"
| "returned_local _ = False"

lemma mpmc_run_step:
  "0 < n \<Longrightarrow> \<not> returned_local l \<Longrightarrow>
   mpmc_run n q l = (case mpmc_thread_step False q l of (q', l') \<Rightarrow> mpmc_run (n - 1) q' l')"
  by (cases n; cases l) simp_all

lemma Cell_overwrite [simp]:
  "(c :: Cell)\<lparr>cell_data := d, sequence := n\<rparr> = \<lparr>sequence = n, cell_data = d\<rparr>"
  by (cases c) simp

lemma cell_at_set_cell:
  "length (mp_buffer q) = 1024 \<Longrightarrow> cell_at (set_cell p c q) p' = (if slot p = slot p' then c else cell_at q p')"
  by (simp add: cell_at_def set_cell_def)

lemma set_cell_simps [simp]:
  "mp_head (set_cell p c q) = mp_head q" "mp_tail (set_cell p c q) = mp_tail q"
  "mp_stop (set_cell p c q) = mp_stop q" "length (mp_buffer (set_cell p c q)) = length (mp_buffer q)"
  by (simp_all add: set_cell_def)

lemma signed_diff_zero_iff [simp]: "signed_diff a b = 0 \<longleftrightarrow> a = b"
  by (simp add: signed_diff_def signed_eq_0_iff)
lemma signed_diff_unat:
  assumes "unat a < 9223372036854775808" "unat b < 9223372036854775808"
  shows "signed_diff a b = int (unat a) - int (unat b)"
proof -
  have "a - b = word_of_int (int (unat a) - int (unat b))"
    by simp
  then have "signed_diff a b = signed_take_bit 63 (int (unat a) - int (unat b))"
    by (simp only: signed_diff_def sint_sbintrunc') simp
  also have "\<dots> = int (unat a) - int (unat b)"
  proof (rule signed_take_bit_int_eq_self)
    have p: "(2 :: int) ^ 63 = 9223372036854775808" by simp
    show "- (2 ^ 63) \<le> int (unat a) - int (unat b)" "int (unat a) - int (unat b) < 2 ^ 63"
      unfolding p using assms by linarith+
  qed
  finally show ?thesis .
qed
lemma signed_diff_shift: "signed_diff (a + b) (a + c) = signed_diff b c"
  by (simp add: signed_diff_def)

subsection \<open>The queue without interference\<close>

text \<open>
  When no thread is inside a method, the cell at distance \<open>i\<close> from \<^verbatim>\<open>head\<close> carries the
  number \<open>head + i + 1\<close> if it is filled and \<open>head + i\<close> if it is free.
\<close>

abbreviation mp_used :: "MPMCTaskQueue \<Rightarrow> nat" where
  "mp_used q \<equiv> unat (mp_tail q - mp_head q)"

definition mpmc_inv :: "MPMCTaskQueue \<Rightarrow> bool" where
  "mpmc_inv q \<longleftrightarrow>
     length (mp_buffer q) = 1024 \<and> mp_used q \<le> 1024 \<and>
     (\<forall>i < 1024. sequence (cell_at q (mp_head q + of_nat i)) =
        mp_head q + of_nat i + (if i < mp_used q then 1 else 0))"

definition mpmc_contents :: "MPMCTaskQueue \<Rightarrow> InferenceTask list" where
  "mpmc_contents q = ring_list (map cell_data (mp_buffer q)) (mp_head q) (mp_used q)"

definition mpmc_accepts :: "MPMCTaskQueue \<Rightarrow> bool" where
  "mpmc_accepts q \<longleftrightarrow> \<not> mp_stop q \<and> length (mpmc_contents q) < 1024"

lemma length_mpmc_contents [simp]: "length (mpmc_contents q) = mp_used q"
  by (simp add: mpmc_contents_def)

lemma mpmc_invD:
  assumes "mpmc_inv q"
  shows "length (mp_buffer q) = 1024" "mp_used q \<le> 1024"
    "i < 1024 \<Longrightarrow> sequence (cell_at q (mp_head q + of_nat i)) =
       mp_head q + of_nat i + (if i < mp_used q then 1 else 0)"
  using assms by (auto simp: mpmc_inv_def)

lemma mpmc_new_inv: "mpmc_inv mpmc_new" "mpmc_contents mpmc_new = []"
proof -
  have "sequence (cell_at mpmc_new (of_nat i)) = of_nat i" if "i < 1024" for i
    using that slot_add [of 0 i]
    by (simp add: cell_at_def mpmc_new_def Capacity_def del: upt_conv_Cons)
  then show "mpmc_inv mpmc_new"
    by (simp add: mpmc_inv_def) (simp add: mpmc_new_def Capacity_def)
qed (simp add: mpmc_contents_def mpmc_new_def)

lemma tail_cell:
  assumes "mpmc_inv q" "mp_used q < 1024"
  shows "sequence (cell_at q (mp_tail q)) = mp_tail q"
  using mpmc_invD(3) [OF assms(1), of "mp_used q"] assms(2) by simp

lemma tail_cell_full:
  assumes "mpmc_inv q" "mp_used q = 1024"
  shows "sequence (cell_at q (mp_tail q)) = mp_tail q - 1023"
proof -
  have "mp_tail q - mp_head q = 1024"
    using assms(2) by (simp add: word_unat_eq_iff)
  then have t: "mp_tail q = mp_head q + 1024"
    by (simp add: algebra_simps)
  have "slot (mp_tail q) = slot (mp_head q)"
    using slot_add [of "mp_head q" 1024] t by (simp add: slot_mod)
  then have "cell_at q (mp_tail q) = cell_at q (mp_head q + of_nat 0)"
    by (simp add: cell_at_def)
  then show ?thesis
    using mpmc_invD(3) [OF assms(1), of 0] assms(2) t by simp
qed


lemma mpmc_push_free:
  assumes "mpmc_inv q" "\<not> mp_stop q" "mp_used q < 1024"
  shows "mpmc_push task q = Returns (True,
     q\<lparr>mp_tail := mp_tail q + 1,
       mp_buffer := (mp_buffer q)[slot (mp_tail q) := \<lparr>sequence = mp_tail q + 1, cell_data = task\<rparr>]\<rparr>)"
  using tail_cell [OF assms(1,3)] mpmc_invD(1) [OF assms(1)] assms(2)
  by (simp add: mpmc_push_def mpmc_run_step cell_at_def set_cell_def)

lemma mpmc_push_full:
  assumes "mpmc_inv q" "mp_stop q \<or> mp_used q = 1024"
  shows "mpmc_push task q = Returns (False, q)"
proof (cases "mp_stop q")
  case False
  then have "signed_diff (sequence (cell_at q (mp_tail q))) (mp_tail q) = -1023"
    using tail_cell_full [OF assms(1)] assms(2) by (simp add: signed_diff_def)
  then show ?thesis
    using False by (simp add: mpmc_push_def mpmc_run_step)
qed (simp add: mpmc_push_def mpmc_run_step)

lemma mpmc_pop_filled:
  assumes "mpmc_inv q" "0 < mp_used q"
  shows "mpmc_pop q = Returns (Some (cell_data (cell_at q (mp_head q))),
     q\<lparr>mp_head := mp_head q + 1,
       mp_buffer := (mp_buffer q)[slot (mp_head q) :=
         \<lparr>sequence = mp_head q + Capacity, cell_data = moved_from (cell_data (cell_at q (mp_head q)))\<rparr>]\<rparr>)"
  using mpmc_invD(3) [OF assms(1), of 0] mpmc_invD(1) [OF assms(1)] assms(2)
  by (simp add: mpmc_pop_def mpmc_run_step cell_at_def set_cell_def)

lemma mpmc_pop_vacant:
  assumes "mpmc_inv q" "mp_used q = 0"
  shows "mpmc_pop q = Returns (None, q)"
proof -
  have "signed_diff (sequence (cell_at q (mp_head q))) (mp_head q + 1) = -1"
    using mpmc_invD(3) [OF assms(1), of 0] assms(2) by (simp add: signed_diff_def)
  then show ?thesis
    by (simp add: mpmc_pop_def mpmc_run_step)
qed

text \<open>The cell at distance \<open>i\<close> after one cell, at distance \<open>j\<close>, was replaced.\<close>

lemma cell_at_update:
  assumes "length (mp_buffer q) = 1024" "i < 1024" "j < 1024"
  shows "(mp_buffer q)[slot (h + of_nat j) := c] ! slot (h + of_nat i) =
     (if i = j then c else cell_at q (h + of_nat i))"
  using assms slot_lap_inj [of h i j] by (auto simp: cell_at_def nth_list_update)


lemma mpmc_push_accepts:
  assumes "mpmc_inv q" "mpmc_accepts q"
  shows "\<exists>q'. mpmc_push t q = Returns (True, q') \<and> mpmc_inv q' \<and>
              mpmc_contents q' = mpmc_contents q @ [t]"
proof -
  let ?h = "mp_head q" and ?t = "mp_tail q" and ?n = "mp_used q"
  have n: "?n < 1024" and len: "length (mp_buffer q) = 1024" and "\<not> mp_stop q"
    using assms mpmc_invD(1) by (auto simp: mpmc_accepts_def)
  let ?q = "q\<lparr>mp_tail := ?t + 1,
       mp_buffer := (mp_buffer q)[slot ?t := \<lparr>sequence = ?t + 1, cell_data = t\<rparr>]\<rparr>"
  have push: "mpmc_push t q = Returns (True, ?q)"
    using mpmc_push_free [OF assms(1)] n \<open>\<not> mp_stop q\<close> by simp
  have u: "mp_used ?q = Suc ?n"
    using unat_diff_Suc_tail [of ?t ?h] n by simp
  have "sequence (cell_at ?q (?h + of_nat i)) = ?h + of_nat i + (if i < Suc ?n then 1 else 0)"
    if "i < 1024" for i
    using cell_at_update [OF len that n, of ?h] mpmc_invD(3) [OF assms(1) that]
    by (auto simp: cell_at_def less_Suc_eq)
  then have "mpmc_inv ?q"
    using u n len by (simp add: mpmc_inv_def)
  moreover have "mpmc_contents ?q = mpmc_contents q @ [t]"
    unfolding mpmc_contents_def u
    using ring_list_push [of ?t ?h "map cell_data (mp_buffer q)" t] n len by (simp add: map_update)
  ultimately show ?thesis
    using push by blast
qed

lemma mpmc_pop_takes:
  assumes "mpmc_inv q" "mpmc_contents q = t # ts"
  shows "\<exists>q'. mpmc_pop q = Returns (Some t, q') \<and> mpmc_inv q' \<and> mpmc_contents q' = ts"
proof -
  let ?h = "mp_head q" and ?n = "mp_used q" and ?b = "map cell_data (mp_buffer q)"
  have len: "length (mp_buffer q) = 1024" and n: "?n \<le> 1024"
    using mpmc_invD [OF assms(1)] by auto
  have pos: "0 < ?n"
    using assms(2) length_mpmc_contents [of q] by (simp del: length_mpmc_contents)
  have t: "t = cell_data (cell_at q ?h)" and ts: "ts = ring_list ?b (?h + 1) (?n - 1)"
    using assms(2) ring_list_Cons_pos [OF pos, of ?b ?h] len
    by (auto simp: mpmc_contents_def cell_at_def)
  let ?c = "\<lparr>sequence = ?h + Capacity, cell_data = moved_from t\<rparr>"
  let ?q = "q\<lparr>mp_head := ?h + 1, mp_buffer := (mp_buffer q)[slot ?h := ?c]\<rparr>"
  have pop: "mpmc_pop q = Returns (Some t, ?q)"
    using mpmc_pop_filled [OF assms(1) pos] t by simp
  have ne: "mp_tail q \<noteq> ?h"
    using pos by auto
  have u: "mp_used ?q = ?n - 1"
    using unat_diff_Suc_head [OF ne] by simp
  have "sequence (cell_at ?q (?h + 1 + of_nat i)) = ?h + 1 + of_nat i + (if i < ?n - 1 then 1 else 0)"
    if "i < 1024" for i
  proof (cases "i = 1023")
    case True
    have "slot (?h + 1 + of_nat i) = slot ?h"
      using slot_add [of ?h 1024] True by (simp add: slot_mod add.assoc)
    then show ?thesis
      using True n len by (simp add: cell_at_def Capacity_def)
  next
    case False
    then have i: "Suc i < 1024"
      using that by simp
    then show ?thesis
      using cell_at_update [OF len i, of 0 ?h ?c] mpmc_invD(3) [OF assms(1) i]
      by (auto simp: cell_at_def add.assoc)
  qed
  then have "mpmc_inv ?q"
    using u n len by (simp add: mpmc_inv_def)
  moreover have "mpmc_contents ?q = ts"
    unfolding mpmc_contents_def u ts
    using ring_list_update_front [of "?n - 1" ?b ?h "moved_from t"] n pos by (simp add: map_update)
  ultimately show ?thesis
    using pop by blast
qed


lemma mpmc_contents_Nil_iff: "mpmc_contents q = [] \<longleftrightarrow> mp_used q = 0"
  by (simp add: mpmc_contents_def)

lemma mpmc_pop_loop_result:
  "mpmc_inv q \<Longrightarrow>
   \<exists>q'. mpmc_pop_loop n c b q =
          Returns (c + of_nat (min n (mp_used q)), b @ take n (mpmc_contents q), q') \<and>
        mpmc_inv q' \<and> mpmc_contents q' = drop n (mpmc_contents q)"
proof (induction n arbitrary: c b q)
  case 0
  then show ?case by simp
next
  case (Suc n)
  show ?case
  proof (cases "mpmc_contents q")
    case Nil
    then show ?thesis
      using Suc.prems mpmc_pop_vacant [OF Suc.prems] mpmc_contents_Nil_iff [of q] by simp
  next
    case (Cons t ts)
    obtain q1 where q1: "mpmc_pop q = Returns (Some t, q1)" "mpmc_inv q1" "mpmc_contents q1 = ts"
      using mpmc_pop_takes [OF Suc.prems Cons] by blast
    have len: "mp_used q = Suc (mp_used q1)"
      using length_mpmc_contents [of q] length_mpmc_contents [of q1] q1(3) Cons
      by (simp del: length_mpmc_contents)
    show ?thesis
      using Suc.IH [OF q1(2), of "c + 1" "b @ [t]"] q1 len Cons
      by (auto simp: algebra_simps)
  qed
qed

interpretation mq: task_queue mpmc_push mpmc_pop mpmc_pop_batch mpmc_shutdown
  mpmc_contents mpmc_accepts mpmc_inv
proof unfold_locales
  fix q t
  assume "mpmc_inv q" "\<not> mpmc_accepts q"
  then show "mpmc_push t q = Returns (False, q)"
    using mpmc_invD(2) [of q] by (intro mpmc_push_full) (auto simp: mpmc_accepts_def)
next
  fix q
  assume "mpmc_inv q" "mpmc_contents q = []"
  then show "mpmc_pop q = Waits \<or> mpmc_pop q = Returns (None, q)"
    using mpmc_pop_vacant mpmc_contents_Nil_iff by simp
next
  fix q b m
  assume "mpmc_inv q"
  then show "\<exists>q'. mpmc_pop_batch b m q =
             Returns (of_nat (batch_count m (mpmc_contents q)),
                      b @ take (batch_count m (mpmc_contents q)) (mpmc_contents q), q') \<and>
           mpmc_inv q' \<and> mpmc_contents q' = drop (batch_count m (mpmc_contents q)) (mpmc_contents q)"
    using mpmc_pop_loop_result [of q "unat m" 0 b]
    by (auto simp: mpmc_pop_batch_def batch_count_def min_def)
next
  fix q b m
  assume "mpmc_inv q" "mpmc_contents q = []"
  then show "mpmc_pop_batch b m q = Waits \<or> mpmc_pop_batch b m q = Returns (0, b, q)"
    using mpmc_pop_vacant mpmc_contents_Nil_iff
    by (cases "unat m") (simp_all add: mpmc_pop_batch_def)
next
  fix q
  assume "mpmc_inv q"
  then show "mpmc_inv (mpmc_shutdown q) \<and> mpmc_contents (mpmc_shutdown q) = mpmc_contents q"
    by (simp add: mpmc_inv_def mpmc_contents_def mpmc_shutdown_def cell_at_def)
qed (auto intro: mpmc_push_accepts mpmc_pop_takes)

text \<open>\<^verbatim>\<open>size\<close> is exact as long as \<^verbatim>\<open>tail\<close> has not wrapped around past \<^verbatim>\<open>head\<close>.\<close>

lemma mpmc_size_exact:
  assumes "mp_head q \<le> mp_tail q"
  shows "mpmc_size q = of_nat (length (mpmc_contents q))"
  using assms by (auto simp: mpmc_size_def Let_def)

end
