(* ===== verification/MPMC_Concurrent.thy ===== *)
theory MPMC_Concurrent
  imports MPMC_Queue "HOL-Library.Multiset"
begin

section \<open>Any number of producers and consumers, interleaved\<close>

text \<open>
  The steps of \<open>mpmc_thread_step\<close> taken by any number of threads in any order, with spurious
  failures of the compare-and-exchange at will. Auxiliary fields record the history:
  \<open>pushlog\<close> lists the tasks in the order in which their producers claimed a position (the
  linearisation point of \<^verbatim>\<open>push\<close>), \<open>returned\<close> the position and task of every finished \<^verbatim>\<open>pop\<close>.

  A compare-and-exchange on a 64-bit ticket cannot tell a ticket from the one \<open>2 ^ 64\<close>
  positions later, so the results hold for histories of fewer than \<open>mp_bound = 2 ^ 63 - 1024\<close>
  pushes (at a thousand million pushes a second, some 290 years). Under this bound all
  positions are read as naturals with \<open>unat\<close>.
\<close>

record mpmc_sys =
  mq :: MPMCTaskQueue
  locals :: "nat \<Rightarrow> mp_local"
  pushlog :: "InferenceTask list"
  returned :: "(size_t \<times> InferenceTask) list"

definition mpmc_init :: mpmc_sys where
  "mpmc_init = \<lparr>mq = mpmc_new, locals = (\<lambda>_. Idle), pushlog = [], returned = []\<rparr>"

fun claimed :: "mp_local \<Rightarrow> mp_local \<Rightarrow> InferenceTask list" where
  "claimed (PushCas task t) (PushWrite task' t') = [task]"
| "claimed _ _ = []"

fun taken :: "mp_local \<Rightarrow> (size_t \<times> InferenceTask) list" where
  "taken (PopPub h task) = [(h, task)]"
| "taken _ = []"

inductive mpmc_step :: "mpmc_sys \<Rightarrow> mpmc_sys \<Rightarrow> bool" where
  call_push: "locals s i = Idle \<Longrightarrow> mpmc_step s (s\<lparr>locals := (locals s)(i := PushStop task)\<rparr>)"
| call_pop: "locals s i = Idle \<Longrightarrow> mpmc_step s (s\<lparr>locals := (locals s)(i := PopHead)\<rparr>)"
| thread: "mpmc_thread_step weak (mq s) (locals s i) = (q', l') \<Longrightarrow>
     mpmc_step s (s\<lparr>mq := q', locals := (locals s)(i := l'),
                    pushlog := pushlog s @ claimed (locals s i) l',
                    returned := returned s @ taken (locals s i)\<rparr>)"
| return: "returned_local (locals s i) \<Longrightarrow> mpmc_step s (s\<lparr>locals := (locals s)(i := Idle)\<rparr>)"
| stop: "mpmc_step s (s\<lparr>mq := mpmc_shutdown (mq s)\<rparr>)"

inductive mpmc_reachable :: "mpmc_sys \<Rightarrow> bool" where
  init: "mpmc_reachable mpmc_init"
| step: "mpmc_reachable s \<Longrightarrow> mpmc_step s s' \<Longrightarrow> mpmc_reachable s'"

text \<open>The same system as a function on schedules, for runs on concrete inputs.\<close>

datatype mpmc_action =
  MCallPush nat InferenceTask | MCallPop nat | MStep nat bool | MReturn nat | MShutdown

fun mpmc_act :: "mpmc_action \<Rightarrow> mpmc_sys \<Rightarrow> mpmc_sys option" where
  "mpmc_act (MCallPush i task) s =
     (if locals s i = Idle then Some (s\<lparr>locals := (locals s)(i := PushStop task)\<rparr>) else None)"
| "mpmc_act (MCallPop i) s =
     (if locals s i = Idle then Some (s\<lparr>locals := (locals s)(i := PopHead)\<rparr>) else None)"
| "mpmc_act (MStep i weak) s =
     (case mpmc_thread_step weak (mq s) (locals s i) of (q', l') \<Rightarrow>
        Some (s\<lparr>mq := q', locals := (locals s)(i := l'),
                pushlog := pushlog s @ claimed (locals s i) l',
                returned := returned s @ taken (locals s i)\<rparr>))"
| "mpmc_act (MReturn i) s =
     (if returned_local (locals s i) then Some (s\<lparr>locals := (locals s)(i := Idle)\<rparr>) else None)"
| "mpmc_act MShutdown s = Some (s\<lparr>mq := mpmc_shutdown (mq s)\<rparr>)"

fun mpmc_exec :: "mpmc_action list \<Rightarrow> mpmc_sys \<Rightarrow> mpmc_sys option" where
  "mpmc_exec [] s = Some s"
| "mpmc_exec (a # as) s = (case mpmc_act a s of None \<Rightarrow> None | Some s' \<Rightarrow> mpmc_exec as s')"

definition mp_bound :: nat where
  "mp_bound = 9223372036854774784"


subsection \<open>Positions held by threads\<close>

fun writing :: "mp_local \<Rightarrow> nat option" where
  "writing (PushWrite x t) = Some (unat t)"
| "writing (PushPub x t) = Some (unat t)"
| "writing _ = None"

fun reading :: "mp_local \<Rightarrow> nat option" where
  "reading (PopRead h) = Some (unat h)"
| "reading (PopPub h x) = Some (unat h)"
| "reading _ = None"

fun data_access :: "mp_local \<Rightarrow> size_t option" where
  "data_access (PushWrite x t) = Some t"
| "data_access (PopRead h) = Some h"
| "data_access _ = None"

lemma data_access_held:
  assumes "data_access l = Some p"
  shows "writing l = Some (unat p) \<or> reading l = Some (unat p)"
  using assms by (cases l) auto

text \<open>The positions some thread holds by \<open>f\<close> (\<open>writing\<close> or \<open>reading\<close>), and that no two threads share one.\<close>

definition held :: "('l \<Rightarrow> nat option) \<Rightarrow> (nat \<Rightarrow> 'l) \<Rightarrow> nat set" where
  "held f lc = {p. \<exists>i. f (lc i) = Some p}"

definition exclusive :: "('l \<Rightarrow> nat option) \<Rightarrow> (nat \<Rightarrow> 'l) \<Rightarrow> bool" where
  "exclusive f lc \<longleftrightarrow> (\<forall>i j p. f (lc i) = Some p \<longrightarrow> f (lc j) = Some p \<longrightarrow> i = j)"

lemma held_same: "f l' = f (lc i) \<Longrightarrow> held f (lc(i := l')) = held f lc"
  by (auto simp: held_def)

lemma held_add: "f (lc i) = None \<Longrightarrow> f l' = Some p \<Longrightarrow> held f (lc(i := l')) = insert p (held f lc)"
  by (auto simp: held_def split: if_splits) (metis option.distinct(1))

lemma held_drop:
  "exclusive f lc \<Longrightarrow> f (lc i) = Some p \<Longrightarrow> f l' = None \<Longrightarrow> held f (lc(i := l')) = held f lc - {p}"
  by (auto simp: held_def exclusive_def split: if_splits) (metis option.inject)

lemma heldI: "f (lc i) = Some p \<Longrightarrow> p \<in> held f lc"
  by (auto simp: held_def)

lemma exclusive_same: "f l' = f (lc i) \<Longrightarrow> exclusive f lc \<Longrightarrow> exclusive f (lc(i := l'))"
  by (auto simp: exclusive_def)

lemma exclusive_add:
  "exclusive f lc \<Longrightarrow> f l' = Some p \<Longrightarrow> p \<notin> held f lc \<Longrightarrow> exclusive f (lc(i := l'))"
  by (auto simp: exclusive_def held_def)

lemma exclusive_drop: "exclusive f lc \<Longrightarrow> f l' = None \<Longrightarrow> exclusive f (lc(i := l'))"
  by (auto simp: exclusive_def)


subsection \<open>The invariant, over naturals\<close>

text \<open>
  \<open>T\<close> and \<open>H\<close> are the positions of \<^verbatim>\<open>tail\<close> and \<^verbatim>\<open>head\<close>, \<open>W\<close> and \<open>R\<close> the positions claimed by
  a push and not yet published, and claimed by a pop and not yet released. \<open>sq\<close> and \<open>dt\<close> give
  the sequence number and the data of each slot. The positions of the last lap,
  \<open>T - 1024 .. T - 1\<close>, determine every cell.
\<close>

definition window_ok :: "nat \<Rightarrow> nat \<Rightarrow> nat set \<Rightarrow> nat set \<Rightarrow> bool" where
  "window_ok T H W R \<longleftrightarrow>
     H \<le> T \<and> T \<le> H + 1024 \<and> (\<forall>p \<in> W. H \<le> p \<and> p < T) \<and> (\<forall>p \<in> R. p < H \<and> T \<le> p + 1024)"

definition expected_seq :: "nat \<Rightarrow> nat set \<Rightarrow> nat set \<Rightarrow> nat \<Rightarrow> nat" where
  "expected_seq H W R p = (if p \<in> W then p else if p < H \<and> p \<notin> R then p + 1024 else p + 1)"

definition cells_ok :: "nat \<Rightarrow> nat \<Rightarrow> nat set \<Rightarrow> nat set \<Rightarrow> (nat \<Rightarrow> nat) \<Rightarrow> bool" where
  "cells_ok T H W R sq \<longleftrightarrow>
     (\<forall>p. p < T \<longrightarrow> T \<le> p + 1024 \<longrightarrow> sq (p mod 1024) = expected_seq H W R p) \<and>
     (\<forall>i. T \<le> i \<longrightarrow> i < 1024 \<longrightarrow> sq i = i)"

definition data_ok :: "nat \<Rightarrow> nat \<Rightarrow> nat set \<Rightarrow> (nat \<Rightarrow> 'a) \<Rightarrow> 'a list \<Rightarrow> bool" where
  "data_ok T H W dt lg \<longleftrightarrow>
     length lg = T \<and> (\<forall>p. H \<le> p \<longrightarrow> p < T \<longrightarrow> p \<notin> W \<longrightarrow> dt (p mod 1024) = lg ! p)"

fun local_ok :: "nat \<Rightarrow> nat \<Rightarrow> (nat \<Rightarrow> nat) \<Rightarrow> (nat \<Rightarrow> InferenceTask) \<Rightarrow> InferenceTask list \<Rightarrow> mp_local \<Rightarrow> bool" where
  "local_ok T H sq dt lg (PushSeq x t) \<longleftrightarrow> unat t \<le> T"
| "local_ok T H sq dt lg (PushCas x t) \<longleftrightarrow> unat t \<le> T \<and> (unat t = T \<longrightarrow> sq (T mod 1024) = T)"
| "local_ok T H sq dt lg (PushWrite x t) \<longleftrightarrow> lg ! unat t = x"
| "local_ok T H sq dt lg (PushPub x t) \<longleftrightarrow> lg ! unat t = x \<and> dt (unat t mod 1024) = x"
| "local_ok T H sq dt lg (PopSeq h) \<longleftrightarrow> unat h \<le> H"
| "local_ok T H sq dt lg (PopCas h) \<longleftrightarrow> unat h \<le> H \<and> (unat h = H \<longrightarrow> sq (H mod 1024) = H + 1)"
| "local_ok T H sq dt lg (PopRead h) \<longleftrightarrow> dt (unat h mod 1024) = lg ! unat h"
| "local_ok T H sq dt lg (PopPub h x) \<longleftrightarrow> lg ! unat h = x"
| "local_ok T H sq dt lg _ \<longleftrightarrow> True"

definition returned_ok :: "nat \<Rightarrow> nat set \<Rightarrow> 'a list \<Rightarrow> (size_t \<times> 'a) list \<Rightarrow> bool" where
  "returned_ok H R lg ret \<longleftrightarrow>
     distinct (map (unat \<circ> fst) ret) \<and>
     (\<forall>(h, x) \<in> set ret. x = lg ! unat h) \<and>
     (unat \<circ> fst) ` set ret = {..<H} - R"

definition mp_ok ::
  "nat \<Rightarrow> nat \<Rightarrow> (nat \<Rightarrow> nat) \<Rightarrow> (nat \<Rightarrow> InferenceTask) \<Rightarrow> (nat \<Rightarrow> mp_local) \<Rightarrow>
   InferenceTask list \<Rightarrow> (size_t \<times> InferenceTask) list \<Rightarrow> bool" where
  "mp_ok T H sq dt lc lg ret \<longleftrightarrow>
     (let W = held writing lc; R = held reading lc
      in window_ok T H W R \<and> exclusive writing lc \<and> exclusive reading lc \<and>
         cells_ok T H W R sq \<and> data_ok T H W dt lg \<and> returned_ok H R lg ret \<and>
         (\<forall>i. local_ok T H sq dt lg (lc i)))"

lemma mp_okD:
  assumes "mp_ok T H sq dt lc lg ret"
  shows "window_ok T H (held writing lc) (held reading lc)" "exclusive writing lc" "exclusive reading lc"
    "cells_ok T H (held writing lc) (held reading lc) sq" "data_ok T H (held writing lc) dt lg"
    "returned_ok H (held reading lc) lg ret" "local_ok T H sq dt lg (lc i)"
  using assms by (auto simp: mp_ok_def Let_def)

lemma mp_okI:
  assumes "held writing lc = W" "held reading lc = R" "window_ok T H W R"
    "exclusive writing lc" "exclusive reading lc" "cells_ok T H W R sq"
    "data_ok T H W dt lg" "returned_ok H R lg ret" "\<And>i. local_ok T H sq dt lg (lc i)"
  shows "mp_ok T H sq dt lc lg ret"
  using assms by (simp add: mp_ok_def)

lemma held_writingD:
  assumes "mp_ok T H sq dt lc lg ret" "writing (lc i) = Some p"
  shows "H \<le> p" "p < T" "T \<le> p + 1024" "p \<in> held writing lc" "sq (p mod 1024) = p"
proof -
  show w: "p \<in> held writing lc"
    using assms(2) by (rule heldI)
  show h: "H \<le> p" "p < T"
    using mp_okD(1) [OF assms(1)] w by (auto simp: window_ok_def)
  show t: "T \<le> p + 1024"
    using mp_okD(1) [OF assms(1)] h by (auto simp: window_ok_def)
  show "sq (p mod 1024) = p"
    using mp_okD(4) [OF assms(1)] h t w by (auto simp: cells_ok_def expected_seq_def)
qed

lemma held_readingD:
  assumes "mp_ok T H sq dt lc lg ret" "reading (lc i) = Some p"
  shows "p < H" "p < T" "T \<le> p + 1024" "p \<in> held reading lc" "sq (p mod 1024) = p + 1"
proof -
  show r: "p \<in> held reading lc"
    using assms(2) by (rule heldI)
  show h: "p < H" "p < T" "T \<le> p + 1024"
    using mp_okD(1) [OF assms(1)] r by (auto simp: window_ok_def)
  then have "p \<notin> held writing lc"
    using mp_okD(1) [OF assms(1)] by (auto simp: window_ok_def)
  then show "sq (p mod 1024) = p + 1"
    using mp_okD(4) [OF assms(1)] h r by (auto simp: cells_ok_def expected_seq_def)
qed


subsection \<open>Every kind of step keeps the invariant\<close>

lemma mp_ok_local:
  assumes "mp_ok T H sq dt lc lg ret" "writing l' = writing (lc i)" "reading l' = reading (lc i)"
    "local_ok T H sq dt lg l'"
  shows "mp_ok T H sq dt (lc(i := l')) lg ret"
proof -
  have "held writing (lc(i := l')) = held writing lc" "held reading (lc(i := l')) = held reading lc"
    using assms(2,3) by (simp_all add: held_same)
  moreover have "exclusive writing (lc(i := l'))" "exclusive reading (lc(i := l'))"
    using assms(2,3) mp_okD(2,3) [OF assms(1)] by (simp_all add: exclusive_same)
  ultimately show ?thesis
    using mp_okD [OF assms(1)] assms(4) by (intro mp_okI) auto
qed

text \<open>A free cell at \<open>T\<close> means the position one lap earlier has been released.\<close>

lemma free_at_tail:
  assumes "mp_ok T H sq dt lc lg ret" "sq (T mod 1024) = T" "1024 \<le> T"
  shows "T - 1024 < H" "T - 1024 \<notin> held reading lc"
proof -
  have "(T - 1024) mod 1024 = T mod 1024"
    using assms(3) by (metis le_mod_geq)
  moreover have "sq ((T - 1024) mod 1024) = expected_seq H (held writing lc) (held reading lc) (T - 1024)"
    using mp_okD(4) [OF assms(1)] assms(3) by (simp add: cells_ok_def)
  ultimately have "expected_seq H (held writing lc) (held reading lc) (T - 1024) = T"
    using assms(2) by simp
  then show "T - 1024 < H" "T - 1024 \<notin> held reading lc"
    using assms(3) by (auto simp: expected_seq_def split: if_splits)
qed

text \<open>A free cell at the tail leaves room for one more position, and what was returned stays below it.\<close>

lemma claim_window:
  assumes ok: "mp_ok T H sq dt lc lg ret" and free: "sq (T mod 1024) = T"
  shows "window_ok (Suc T) H (insert T (held writing lc)) (held reading lc)"
proof (cases "1024 \<le> T")
  case True
  have "T \<noteq> p + 1024" if "p \<in> held reading lc" for p
    using free_at_tail(2) [OF ok free True] that by auto
  then show ?thesis
    using mp_okD(1) [OF ok] free_at_tail(1) [OF ok free True] by (fastforce simp: window_ok_def)
next
  case False
  then show ?thesis
    using mp_okD(1) [OF ok] by (auto simp: window_ok_def)
qed

lemma returned_append:
  assumes ok: "mp_ok T H sq dt lc lg ret"
  shows "returned_ok H (held reading lc) (lg @ [x]) ret"
proof -
  have len: "length lg = T"
    using mp_okD(5) [OF ok] by (simp add: data_ok_def)
  have "unat h < T" if "(h, y) \<in> set ret" for h y
  proof -
    have "unat h \<in> {..<H} - held reading lc"
      using mp_okD(6) [OF ok] that by (force simp: returned_ok_def)
    then show ?thesis
      using mp_okD(1) [OF ok] by (auto simp: window_ok_def)
  qed
  then show ?thesis
    using mp_okD(6) [OF ok] len by (auto simp: returned_ok_def nth_append)
qed

lemma claim_push_ok:
  assumes ok: "mp_ok T H sq dt lc lg ret" and l: "lc i = PushCas x t" "unat t = T"
  shows "mp_ok (Suc T) H sq dt (lc(i := PushWrite x t)) (lg @ [x]) ret"
proof -
  let ?W = "held writing lc" and ?R = "held reading lc"
  have free: "sq (T mod 1024) = T"
    using mp_okD(7) [OF ok, of i] l by simp
  have w: "window_ok T H ?W ?R" and len: "length lg = T"
    using mp_okD [OF ok] by (auto simp: data_ok_def)
  have notin: "T \<notin> ?W" "T \<notin> ?R"
    using w by (auto simp: window_ok_def)
  note window = claim_window [OF ok free]
  have cells: "cells_ok (Suc T) H (insert T ?W) ?R sq"
    using mp_okD(4) [OF ok] free by (auto simp: cells_ok_def expected_seq_def less_Suc_eq)
  have data: "data_ok (Suc T) H (insert T ?W) dt (lg @ [x])"
    using mp_okD(5) [OF ok] by (auto simp: data_ok_def nth_append)
  note ret = returned_append [OF ok]
  have locals: "local_ok (Suc T) H sq dt (lg @ [x]) ((lc(i := PushWrite x t)) j)" for j
  proof (cases "j = i")
    case True
    then show ?thesis using l(2) len by (simp add: nth_append)
  next
    case False
    have r: "p < T" if "reading (lc j) = Some p" for p
      using held_readingD [OF ok that] by simp
    have w': "p < T" if "writing (lc j) = Some p" for p
      using held_writingD [OF ok that] by simp
    show ?thesis
      using mp_okD(7) [OF ok, of j] False r w' len by (cases "lc j") (auto simp: nth_append)
  qed
  show ?thesis
    by (rule mp_okI [OF held_add held_same window exclusive_add exclusive_same cells data ret locals])
      (use l notin mp_okD(2,3) [OF ok] in auto)
qed


text \<open>Slots of two positions of the current lap are equal only for equal positions.\<close>

lemma lap_slot:
  "p mod 1024 = q mod (1024 :: nat) \<Longrightarrow> p < T \<Longrightarrow> q < T \<Longrightarrow> T \<le> p + 1024 \<Longrightarrow> T \<le> q + 1024 \<Longrightarrow> p = q"
  by (rule mod_ring_inj) auto

lemma cells_ok_update:
  assumes "cells_ok T H W R sq" "p < T" "T \<le> p + 1024" "expected_seq H W' R' p = v"
    "\<And>q. q \<noteq> p \<Longrightarrow> expected_seq H W' R' q = expected_seq H W R q"
  shows "cells_ok T H W' R' (sq(p mod 1024 := v))"
  unfolding cells_ok_def
proof (intro conjI allI impI)
  fix q assume "q < T" "T \<le> q + 1024"
  then show "(sq(p mod 1024 := v)) (q mod 1024) = expected_seq H W' R' q"
    using assms lap_slot [of q p T] by (cases "q = p") (auto simp: cells_ok_def)
next
  fix i :: nat assume "T \<le> i" "i < 1024"
  then show "(sq(p mod 1024 := v)) i = i"
    using assms(1,2) by (auto simp: cells_ok_def)
qed

lemma write_ok:
  assumes ok: "mp_ok T H sq dt lc lg ret" and l: "lc i = PushWrite x t"
  shows "mp_ok T H sq (dt(unat t mod 1024 := x)) (lc(i := PushPub x t)) lg ret"
proof -
  let ?p = "unat t"
  have p: "H \<le> ?p" "?p < T" "T \<le> ?p + 1024" "?p \<in> held writing lc"
    using held_writingD [OF ok, of i ?p] l by auto
  have same: "writing (PushPub x t) = writing (lc i)" "reading (PushPub x t) = reading (lc i)"
    using l by auto
  have data: "data_ok T H (held writing lc) (dt(?p mod 1024 := x)) lg"
    using mp_okD(1,5) [OF ok] p lap_slot [of _ ?p T] by (fastforce simp: data_ok_def window_ok_def)
  have locals: "local_ok T H sq (dt(?p mod 1024 := x)) lg ((lc(i := PushPub x t)) j)" for j
  proof (cases "j = i")
    case True
    then show ?thesis using mp_okD(7) [OF ok, of i] l by simp
  next
    case False
    have r: "q mod 1024 \<noteq> ?p mod 1024" if "reading (lc j) = Some q" for q
      using held_readingD [OF ok that] p lap_slot [of q ?p T] by auto
    have w: "q mod 1024 \<noteq> ?p mod 1024" if "writing (lc j) = Some q" for q
    proof
      assume "q mod 1024 = ?p mod 1024"
      then have "q = ?p"
        using held_writingD [OF ok that] p lap_slot [of q ?p T] by auto
      then show False
        using mp_okD(2) [OF ok] that l False by (force simp: exclusive_def)
    qed
    show ?thesis
      using mp_okD(7) [OF ok, of j] False r w by (cases "lc j") auto
  qed
  show ?thesis
    by (rule mp_okI [OF held_same held_same _ exclusive_same exclusive_same _ data _ locals])
      (use same mp_okD(1-6) [OF ok] in auto)
qed

lemma publish_ok:
  assumes ok: "mp_ok T H sq dt lc lg ret" and l: "lc i = PushPub x t"
  shows "mp_ok T H (sq(unat t mod 1024 := unat t + 1)) dt (lc(i := PushRet True)) lg ret"
proof -
  let ?p = "unat t" and ?W = "held writing lc" and ?R = "held reading lc"
  have p: "H \<le> ?p" "?p < T" "T \<le> ?p + 1024" "?p \<in> ?W" "sq (?p mod 1024) = ?p"
    using held_writingD [OF ok, of i ?p] l by auto
  have window: "window_ok T H (?W - {?p}) ?R"
    using mp_okD(1) [OF ok] by (auto simp: window_ok_def)
  have cells: "cells_ok T H (?W - {?p}) ?R (sq(?p mod 1024 := ?p + 1))"
    by (rule cells_ok_update [OF mp_okD(4) [OF ok] p(2,3)]) (use p in \<open>auto simp: expected_seq_def\<close>)
  have data: "data_ok T H (?W - {?p}) dt lg"
    using mp_okD(5) [OF ok] mp_okD(7) [OF ok, of i] l by (auto simp: data_ok_def)
  have locals: "local_ok T H (sq(?p mod 1024 := ?p + 1)) dt lg ((lc(i := PushRet True)) j)" for j
  proof (cases "j = i")
    case False
    have "sq (T mod 1024) \<noteq> T" if "T mod 1024 = ?p mod 1024"
      using p that by auto
    moreover have "sq (H mod 1024) \<noteq> H + 1" if "H mod 1024 = ?p mod 1024"
    proof -
      have "H = ?p"
        using mp_okD(1) [OF ok] p mod_ring_inj [OF that] by (auto simp: window_ok_def)
      then show ?thesis
        using p by auto
    qed
    ultimately show ?thesis
      using mp_okD(7) [OF ok, of j] False by (cases "lc j") auto
  qed simp
  show ?thesis
    by (rule mp_okI [OF held_drop held_same window exclusive_drop exclusive_same cells data _ locals])
      (use l mp_okD(1-6) [OF ok] in auto)
qed


text \<open>A full cell at the head holds a position that was pushed and that nobody is working on.\<close>

lemma full_at_head:
  assumes ok: "mp_ok T H sq dt lc lg ret" and full: "sq (H mod 1024) = H + 1"
  shows "H < T" "H \<notin> held writing lc" "H \<notin> held reading lc"
proof -
  let ?W = "held writing lc" and ?R = "held reading lc"
  note w = mp_okD(1) [OF ok]
  show HT: "H < T"
  proof (rule ccontr)
    assume "\<not> H < T"
    then have T: "T = H"
      using w by (auto simp: window_ok_def)
    show False
    proof (cases "1024 \<le> T")
      case True
      have "(T - 1024) mod 1024 = T mod 1024"
        using True by (metis le_mod_geq)
      moreover have "sq ((T - 1024) mod 1024) = expected_seq H ?W ?R (T - 1024)"
        using mp_okD(4) [OF ok] True by (simp add: cells_ok_def)
      ultimately show False
        using full T True by (auto simp: expected_seq_def split: if_splits)
    next
      case False
      then show False
        using mp_okD(4) [OF ok] full T by (auto simp: cells_ok_def)
    qed
  qed
  then show "H \<notin> ?W" "H \<notin> ?R"
    using mp_okD(4) [OF ok] full w by (auto simp: cells_ok_def expected_seq_def window_ok_def)
qed

lemma claim_pop_ok:
  assumes ok: "mp_ok T H sq dt lc lg ret" and l: "lc i = PopCas h" "unat h = H"
  shows "mp_ok T (Suc H) sq dt (lc(i := PopRead h)) lg ret" "H < T"
proof -
  let ?W = "held writing lc" and ?R = "held reading lc"
  have full: "sq (H mod 1024) = H + 1"
    using mp_okD(7) [OF ok, of i] l by simp
  note w = mp_okD(1) [OF ok]
  show HT: "H < T"
    using full_at_head(1) [OF ok full] .
  note HW = full_at_head(2) [OF ok full] and HR = full_at_head(3) [OF ok full]
  have window: "window_ok T (Suc H) ?W (insert H ?R)"
    using w HW HT by (auto simp: window_ok_def Suc_le_eq less_le intro: le_SucI)
  have cells: "cells_ok T (Suc H) ?W (insert H ?R) sq"
    using mp_okD(4) [OF ok] HW HR by (auto simp: cells_ok_def expected_seq_def less_Suc_eq)
  have data: "data_ok T (Suc H) ?W dt lg"
    using mp_okD(5) [OF ok] by (auto simp: data_ok_def)
  have ret: "returned_ok (Suc H) (insert H ?R) lg ret"
    using mp_okD(6) [OF ok] by (auto simp: returned_ok_def lessThan_Suc)
  have locals: "local_ok T (Suc H) sq dt lg ((lc(i := PopRead h)) j)" for j
  proof (cases "j = i")
    case True
    then show ?thesis
      using mp_okD(5) [OF ok] l(2) HT HW by (simp add: data_ok_def)
  next
    case False
    then show ?thesis
      using mp_okD(7) [OF ok, of j] by (cases "lc j") auto
  qed
  show "mp_ok T (Suc H) sq dt (lc(i := PopRead h)) lg ret"
    by (rule mp_okI [OF held_same held_add window exclusive_same exclusive_add cells data ret locals])
      (use l HR mp_okD(2,3) [OF ok] in auto)
qed

lemma read_ok:
  assumes ok: "mp_ok T H sq dt lc lg ret" and l: "lc i = PopRead h"
  shows "mp_ok T H sq (dt(unat h mod 1024 := y)) (lc(i := PopPub h (dt (unat h mod 1024)))) lg ret"
proof -
  let ?p = "unat h"
  have p: "?p < H" "?p < T" "T \<le> ?p + 1024" "?p \<in> held reading lc"
    using held_readingD [OF ok, of i ?p] l by auto
  have data: "data_ok T H (held writing lc) (dt(?p mod 1024 := y)) lg"
    using mp_okD(1,5) [OF ok] p lap_slot [of _ ?p T] by (fastforce simp: data_ok_def window_ok_def)
  have locals: "local_ok T H sq (dt(?p mod 1024 := y)) lg ((lc(i := PopPub h (dt (?p mod 1024)))) j)" for j
  proof (cases "j = i")
    case True
    then show ?thesis using mp_okD(7) [OF ok, of i] l by simp
  next
    case False
    have w: "q mod 1024 \<noteq> ?p mod 1024" if "writing (lc j) = Some q" for q
      using held_writingD [OF ok that] p lap_slot [of q ?p T] by auto
    have r: "q mod 1024 \<noteq> ?p mod 1024" if "reading (lc j) = Some q" for q
    proof
      assume "q mod 1024 = ?p mod 1024"
      then have "q = ?p"
        using held_readingD [OF ok that] p lap_slot [of q ?p T] by auto
      then show False
        using mp_okD(3) [OF ok] that l False by (force simp: exclusive_def)
    qed
    show ?thesis
      using mp_okD(7) [OF ok, of j] False r w by (cases "lc j") auto
  qed
  show ?thesis
    by (rule mp_okI [OF held_same held_same _ exclusive_same exclusive_same _ data _ locals])
      (use l mp_okD(1-6) [OF ok] in auto)
qed

lemma release_ok:
  assumes ok: "mp_ok T H sq dt lc lg ret" and l: "lc i = PopPub h x"
  shows "mp_ok T H (sq(unat h mod 1024 := unat h + 1024)) dt (lc(i := PopRet (Some x))) lg (ret @ [(h, x)])"
proof -
  let ?p = "unat h" and ?W = "held writing lc" and ?R = "held reading lc"
  have p: "?p < H" "?p < T" "T \<le> ?p + 1024" "?p \<in> ?R" "sq (?p mod 1024) = ?p + 1"
    using held_readingD [OF ok, of i ?p] l by auto
  have pW: "?p \<notin> ?W"
    using mp_okD(1) [OF ok] p(1) by (fastforce simp: window_ok_def)
  have window: "window_ok T H ?W (?R - {?p})"
    using mp_okD(1) [OF ok] by (auto simp: window_ok_def)
  have cells: "cells_ok T H ?W (?R - {?p}) (sq(?p mod 1024 := ?p + 1024))"
    by (rule cells_ok_update [OF mp_okD(4) [OF ok] p(2,3)]) (use p pW in \<open>auto simp: expected_seq_def\<close>)
  have ret: "returned_ok H (?R - {?p}) lg (ret @ [(h, x)])"
    using mp_okD(6) [OF ok] mp_okD(7) [OF ok, of i] l p by (auto simp: returned_ok_def)
  have locals: "local_ok T H (sq(?p mod 1024 := ?p + 1024)) dt lg ((lc(i := PopRet (Some x))) j)" for j
  proof (cases "j = i")
    case False
    have "sq (T mod 1024) \<noteq> T" if "T mod 1024 = ?p mod 1024"
    proof
      assume "sq (T mod 1024) = T"
      then have "T = ?p + 1"
        using that p by simp
      then show False
        using that by (simp add: mod_Suc split: if_splits)
    qed
    moreover have "sq (H mod 1024) \<noteq> H + 1" if "H mod 1024 = ?p mod 1024"
      using p that by auto
    ultimately show ?thesis
      using mp_okD(7) [OF ok, of j] False by (cases "lc j") auto
  qed simp
  show ?thesis
    by (rule mp_okI [OF held_same held_drop window exclusive_same exclusive_drop cells _ ret locals])
      (use l mp_okD(1-6) [OF ok] in auto)
qed


subsection \<open>The invariant of the 64-bit system\<close>

definition seqs :: "MPMCTaskQueue \<Rightarrow> nat \<Rightarrow> nat" where
  "seqs q i = unat (sequence (mp_buffer q ! i))"

definition datas :: "MPMCTaskQueue \<Rightarrow> nat \<Rightarrow> InferenceTask" where
  "datas q i = cell_data (mp_buffer q ! i)"

definition mp_sys_inv :: "mpmc_sys \<Rightarrow> bool" where
  "mp_sys_inv s \<longleftrightarrow>
     length (mp_buffer (mq s)) = 1024 \<and>
     mp_ok (unat (mp_tail (mq s))) (unat (mp_head (mq s))) (seqs (mq s)) (datas (mq s))
       (locals s) (pushlog s) (returned s)"

lemma seqs_set_cell:
  "length (mp_buffer q) = 1024 \<Longrightarrow> seqs (set_cell p c q) = (seqs q)(unat p mod 1024 := unat (sequence c))"
  by (auto simp: seqs_def set_cell_def fun_eq_iff slot_mod nth_list_update)

lemma datas_set_cell:
  "length (mp_buffer q) = 1024 \<Longrightarrow> datas (set_cell p c q) = (datas q)(unat p mod 1024 := cell_data c)"
  by (auto simp: datas_def set_cell_def fun_eq_iff slot_mod nth_list_update)

lemma seqs_datas_simps [simp]:
  "seqs (q\<lparr>mp_tail := t\<rparr>) = seqs q" "seqs (q\<lparr>mp_head := h\<rparr>) = seqs q" "seqs (q\<lparr>mp_stop := b\<rparr>) = seqs q"
  "datas (q\<lparr>mp_tail := t\<rparr>) = datas q" "datas (q\<lparr>mp_head := h\<rparr>) = datas q" "datas (q\<lparr>mp_stop := b\<rparr>) = datas q"
  by (auto simp: seqs_def datas_def)

lemma sequence_cell_at: "unat (sequence (cell_at q p)) = seqs q (unat p mod 1024)"
  by (simp add: seqs_def cell_at_def slot_mod)

lemma data_cell_at: "cell_data (cell_at q p) = datas q (unat p mod 1024)"
  by (simp add: datas_def cell_at_def slot_mod)

lemma mp_sys_inv_init: "mp_sys_inv mpmc_init"
proof -
  have "seqs mpmc_new i = i" if "i < 1024" for i
    using that by (simp add: seqs_def mpmc_new_def Capacity_def unat_of_nat_size_t del: upt_conv_Cons)
  moreover have "held f (\<lambda>_. Idle) = {}" "exclusive f (\<lambda>_. Idle)" if "f Idle = None" for f
    using that by (auto simp: held_def exclusive_def)
  ultimately show ?thesis
    by (simp add: mp_sys_inv_def mpmc_init_def mp_ok_def window_ok_def cells_ok_def data_ok_def returned_ok_def)
      (simp add: mpmc_new_def Capacity_def)
qed

lemma mp_sys_inv_tail:
  "mp_sys_inv s \<Longrightarrow> unat (mp_tail (mq s)) = length (pushlog s)"
  by (auto simp: mp_sys_inv_def mp_ok_def data_ok_def Let_def)

text \<open>What a step starts from: the invariant, positions that do not wrap, and steps that change one thread only.\<close>

lemma thread_facts:
  assumes inv: "mp_sys_inv s" and bound: "length (pushlog s @ xs) < mp_bound"
  shows "length (mp_buffer (mq s)) = 1024"
    and "mp_ok (unat (mp_tail (mq s))) (unat (mp_head (mq s))) (seqs (mq s)) (datas (mq s)) (locals s) (pushlog s) (returned s)"
    and "unat (mp_head (mq s)) \<le> unat (mp_tail (mq s))"
    and "unat p \<le> unat (mp_tail (mq s)) \<Longrightarrow> unat (p + 1) = unat p + 1"
    and "unat p \<le> unat (mp_tail (mq s)) \<Longrightarrow> unat (p + Capacity) = unat p + 1024"
    and "writing l = writing (locals s i) \<Longrightarrow> reading l = reading (locals s i) \<Longrightarrow>
      local_ok (unat (mp_tail (mq s))) (unat (mp_head (mq s))) (seqs (mq s)) (datas (mq s)) (pushlog s) l \<Longrightarrow>
      mp_sys_inv (s\<lparr>locals := (locals s)(i := l)\<rparr>)"
proof -
  show len: "length (mp_buffer (mq s)) = 1024"
    and ok: "mp_ok (unat (mp_tail (mq s))) (unat (mp_head (mq s))) (seqs (mq s)) (datas (mq s)) (locals s) (pushlog s) (returned s)"
    using inv by (auto simp: mp_sys_inv_def)
  have T: "unat (mp_tail (mq s)) < mp_bound"
    using bound mp_sys_inv_tail [OF inv] by simp
  show "unat (mp_head (mq s)) \<le> unat (mp_tail (mq s))"
    using mp_okD(1) [OF ok] by (simp add: window_ok_def)
  show "unat (p + 1) = unat p + 1" "unat (p + Capacity) = unat p + 1024" if "unat p \<le> unat (mp_tail (mq s))"
    using that T by (simp_all add: Capacity_def mp_bound_def unat_word_ariths)
  show "mp_sys_inv (s\<lparr>locals := (locals s)(i := l)\<rparr>)"
    if "writing l = writing (locals s i)" "reading l = reading (locals s i)"
       "local_ok (unat (mp_tail (mq s))) (unat (mp_head (mq s))) (seqs (mq s)) (datas (mq s)) (pushlog s) l"
    using mp_ok_local [OF ok that] len by (simp add: mp_sys_inv_def)
qed

lemma push_thread_inv:
  assumes inv: "mp_sys_inv s" and step: "mpmc_thread_step weak (mq s) (locals s i) = (q', l')"
    and bound: "length (pushlog s @ claimed (locals s i) l') < mp_bound"
    and at: "locals s i \<in> {PushSeq x t, PushCas x t, PushWrite x t, PushPub x t}"
  shows "mp_sys_inv (s\<lparr>mq := q', locals := (locals s)(i := l'),
     pushlog := pushlog s @ claimed (locals s i) l', returned := returned s @ taken (locals s i)\<rparr>)"
proof -
  let ?q = "mq s" and ?T = "unat (mp_tail (mq s))" and ?H = "unat (mp_head (mq s))"
  note facts = thread_facts [OF inv bound]
  note len = facts(1) and ok = facts(2) and H = facts(3) and up = facts(4,5) and keep = facts(6) [of _ i]
  note local = mp_okD(7) [OF ok, of i]
  show ?thesis
  proof (cases "locals s i")
    case (PushSeq x t)
    have "seqs ?q (?T mod 1024) = ?T" if "sequence (cell_at ?q t) = t" "unat t = ?T"
      using sequence_cell_at [of ?q t] that by metis
    then show ?thesis
      using PushSeq step local keep by (auto simp: Let_def split: if_splits)
  next
    case (PushCas x t)
    then show ?thesis
      using step local keep claim_push_ok [OF ok PushCas] up(1) [of t] len
      by (auto simp: mp_sys_inv_def split: if_splits)
  next
    case (PushWrite x t)
    then show ?thesis
      using step write_ok [OF ok PushWrite] len sequence_cell_at [of ?q t]
      by (auto simp: mp_sys_inv_def seqs_set_cell datas_set_cell)
  next
    case (PushPub x t)
    have "unat t \<le> ?T"
      using held_writingD(2) [OF ok, of i] PushPub by simp
    then show ?thesis
      using PushPub step publish_ok [OF ok PushPub] len data_cell_at [of ?q t] up(1) [of t]
      by (auto simp: mp_sys_inv_def seqs_set_cell datas_set_cell)
  qed (use at in auto)
qed

lemma pop_thread_inv:
  assumes inv: "mp_sys_inv s" and step: "mpmc_thread_step weak (mq s) (locals s i) = (q', l')"
    and bound: "length (pushlog s @ claimed (locals s i) l') < mp_bound"
    and at: "locals s i \<in> {PopSeq h, PopCas h, PopRead h, PopPub h x}"
  shows "mp_sys_inv (s\<lparr>mq := q', locals := (locals s)(i := l'),
     pushlog := pushlog s @ claimed (locals s i) l', returned := returned s @ taken (locals s i)\<rparr>)"
proof -
  let ?q = "mq s" and ?T = "unat (mp_tail (mq s))" and ?H = "unat (mp_head (mq s))"
  note facts = thread_facts [OF inv bound]
  note len = facts(1) and ok = facts(2) and H = facts(3) and up = facts(4,5) and keep = facts(6) [of _ i]
  note local = mp_okD(7) [OF ok, of i]
  show ?thesis
  proof (cases "locals s i")
    case (PopSeq h)
    have "seqs ?q (?H mod 1024) = Suc ?H" if "sequence (cell_at ?q h) = h + 1" "unat h = ?H"
      using sequence_cell_at [of ?q h] that up(1) [of h] H by (metis Suc_eq_plus1)
    then show ?thesis
      using PopSeq step local keep by (auto simp: Let_def split: if_splits)
  next
    case (PopCas h)
    then show ?thesis
      using step local keep claim_pop_ok(1) [OF ok PopCas] up(1) [of h] len H
      by (auto simp: mp_sys_inv_def split: if_splits)
  next
    case (PopRead h)
    then show ?thesis
      using step read_ok [OF ok PopRead] len sequence_cell_at [of ?q h] data_cell_at [of ?q h]
      by (auto simp: mp_sys_inv_def seqs_set_cell datas_set_cell)
  next
    case (PopPub h x)
    have "unat h \<le> ?T"
      using held_readingD(2) [OF ok, of i] PopPub by simp
    then show ?thesis
      using PopPub step release_ok [OF ok PopPub] len data_cell_at [of ?q h] up(2) [of h]
      by (auto simp: mp_sys_inv_def seqs_set_cell datas_set_cell)
  qed (use at in auto)
qed

lemma thread_step_inv:
  assumes inv: "mp_sys_inv s" and step: "mpmc_thread_step weak (mq s) (locals s i) = (q', l')"
    and bound: "length (pushlog s @ claimed (locals s i) l') < mp_bound"
  shows "mp_sys_inv (s\<lparr>mq := q', locals := (locals s)(i := l'),
     pushlog := pushlog s @ claimed (locals s i) l', returned := returned s @ taken (locals s i)\<rparr>)"
proof -
  note push = push_thread_inv [OF inv step bound] and pop = pop_thread_inv [OF inv step bound]
  note keep = thread_facts(6) [OF inv bound, of _ i]
  show ?thesis
  proof (cases "locals s i")
    case (PushSeq x t)
    then show ?thesis by (intro push) simp
  next
    case (PushCas x t)
    then show ?thesis by (intro push) simp
  next
    case (PushWrite x t)
    then show ?thesis by (intro push) simp
  next
    case (PushPub x t)
    then show ?thesis by (intro push) simp
  next
    case (PopSeq h)
    then show ?thesis by (intro pop) simp
  next
    case (PopCas h)
    then show ?thesis by (intro pop) simp
  next
    case (PopRead h)
    then show ?thesis by (intro pop) simp
  next
    case (PopPub h x)
    then show ?thesis by (intro pop) simp
  next
    case (PushRet b)
    then have "q' = mq s" "l' = PushRet b"
      using step by auto
    then show ?thesis
      using PushRet keep [of "PushRet b"] by simp
  next
    case (PopRet r)
    then have "q' = mq s" "l' = PopRet r"
      using step by auto
    then show ?thesis
      using PopRet keep [of "PopRet r"] by simp
  qed (use step keep in \<open>auto split: if_splits\<close>)
qed


lemma mpmc_step_pushlog: "mpmc_step s s' \<Longrightarrow> length (pushlog s) \<le> length (pushlog s')"
  by (induction rule: mpmc_step.induct) auto

lemma returned_local_holds_nothing:
  "returned_local l \<Longrightarrow> writing l = None \<and> reading l = None"
  by (cases l) auto

lemma mpmc_step_inv:
  "mpmc_step s s' \<Longrightarrow> mp_sys_inv s \<Longrightarrow> length (pushlog s') < mp_bound \<Longrightarrow> mp_sys_inv s'"
proof (induction rule: mpmc_step.induct)
  case (thread weak s i q' l')
  then show ?case
    using thread_step_inv by simp
next
  case (return s i)
  then show ?case
    using returned_local_holds_nothing [of "locals s i"] by (auto simp: mp_sys_inv_def intro: mp_ok_local)
next
  case (stop s)
  then show ?case
    by (auto simp: mp_sys_inv_def mpmc_shutdown_def)
qed (auto simp: mp_sys_inv_def intro: mp_ok_local)

lemma mpmc_reachable_inv:
  "mpmc_reachable s \<Longrightarrow> length (pushlog s) < mp_bound \<Longrightarrow> mp_sys_inv s"
proof (induction rule: mpmc_reachable.induct)
  case init
  show ?case by (rule mp_sys_inv_init)
next
  case (step s s')
  then have "mp_sys_inv s"
    using mpmc_step_pushlog by (meson le_less_trans)
  then show ?case
    using mpmc_step_inv step by blast
qed


lemma mpmc_act_step: "mpmc_act a s = Some s' \<Longrightarrow> mpmc_step s s'"
  by (cases a) (auto split: prod.splits if_splits intro: mpmc_step.intros)

lemma mpmc_exec_reachable: "mpmc_exec as s = Some s' \<Longrightarrow> mpmc_reachable s \<Longrightarrow> mpmc_reachable s'"
  by (induction as arbitrary: s)
    (auto split: option.splits dest: mpmc_reachable.step [OF _ mpmc_act_step])


subsection \<open>Concrete schedules\<close>

lemma length_mpmc_new [simp]: "length (mp_buffer mpmc_new) = 1024"
  by (simp add: mpmc_new_def Capacity_def)

lemma cell_at_mpmc_new: "cell_at mpmc_new p = \<lparr>sequence = of_nat (slot p), cell_data = default_task\<rparr>"
  by (simp add: cell_at_def mpmc_new_def Capacity_def del: upt_conv_Cons)

lemma cell_at_counters [simp]:
  "cell_at (q\<lparr>mp_tail := t\<rparr>) p = cell_at q p" "cell_at (q\<lparr>mp_head := t\<rparr>) p = cell_at q p"
  by (simp_all add: cell_at_def)

lemma mpmc_new_fields [simp]:
  "mp_head mpmc_new = 0" "mp_tail mpmc_new = 0" "\<not> mp_stop mpmc_new"
  by (simp_all add: mpmc_new_def)

lemma slot_small [simp]: "slot 0 = 0" "slot 1 = 1"
  by (simp_all add: slot_mod)

definition task_a :: InferenceTask where "task_a = new_task 7 [1, 2, 3] None None None"
definition task_b :: InferenceTask where "task_b = new_task 8 [4] None None None"

text \<open>Thread 0 pushes two tasks and is about to write the second; thread 1 is about to read the first.\<close>

definition mpmc_contended :: "mpmc_action list" where
  "mpmc_contended =
     MCallPush 0 task_a # replicate 6 (MStep 0 False) @ [MReturn 0, MCallPush 0 task_b] @
     replicate 4 (MStep 0 False) @ [MCallPop 1, MStep 1 False, MStep 1 True, MStep 1 False]"

lemma mpmc_contended_runs:
  "\<exists>s. mpmc_exec mpmc_contended mpmc_init = Some s \<and> locals s 0 = PushWrite task_b 1 \<and>
       locals s 1 = PopRead 0 \<and> pushlog s = [task_a, task_b] \<and> returned s = []"
  by (simp add: mpmc_contended_def numeral_eq_Suc mpmc_init_def cell_at_mpmc_new cell_at_set_cell Let_def)


text \<open>The two tasks pushed one after the other by thread 0 and both popped by thread 1.\<close>

definition mpmc_roundtrip :: "mpmc_action list" where
  "mpmc_roundtrip =
     MCallPush 0 task_a # replicate 6 (MStep 0 False) @ [MReturn 0, MCallPush 0 task_b] @
     replicate 6 (MStep 0 False) @ [MReturn 0, MCallPop 1] @ replicate 5 (MStep 1 False) @
     [MReturn 1, MCallPop 1] @ replicate 5 (MStep 1 False) @ [MReturn 1]"

lemma mpmc_roundtrip_runs:
  "\<exists>s. mpmc_exec mpmc_roundtrip mpmc_init = Some s \<and> (\<forall>i. locals s i = Idle) \<and>
       mp_head (mq s) = 2 \<and> mp_tail (mq s) = 2 \<and> pushlog s = [task_a, task_b]"
  by (simp add: mpmc_roundtrip_def numeral_eq_Suc mpmc_init_def cell_at_mpmc_new cell_at_set_cell Let_def)


subsection \<open>What a thread learns from a sequence number\<close>

text \<open>Every slot below \<open>T\<close> belongs to one position of the last lap.\<close>

lemma last_lap_position:
  assumes "k < (1024 :: nat)" "k < T"
  shows "\<exists>p. p < T \<and> T \<le> p + 1024 \<and> p mod 1024 = k"
proof -
  define n where "n = T - 1 - k"
  have T: "T = k + n + 1"
    using assms(2) by (simp add: n_def)
  have n: "n = 1024 * (n div 1024) + n mod 1024" "n mod 1024 < 1024"
    by simp_all
  have "k + 1024 * (n div 1024) < T" "T \<le> k + 1024 * (n div 1024) + 1024"
    using T n by linarith+
  moreover have "(k + 1024 * (n div 1024)) mod 1024 = k"
    using assms(1) by simp
  ultimately show ?thesis
    by blast
qed

lemma last_lap_ge:
  assumes "p < T" "T \<le> p + 1024" "p mod 1024 = t mod (1024 :: nat)" "t < T"
  shows "t \<le> p"
  using assms lap_slot [of t p T] by (cases "T \<le> t + 1024") auto

lemma expected_seq_bounds: "p \<le> expected_seq H W R p" "expected_seq H W R p \<le> p + 1024"
  by (auto simp: expected_seq_def)

lemma seq_bound:
  assumes "mp_ok T H sq dt lc lg ret" "k < 1024"
  shows "sq k < T + 1024"
proof (cases "k < T")
  case True
  then obtain p where p: "p < T" "T \<le> p + 1024" "p mod 1024 = k"
    using last_lap_position assms(2) by blast
  then have "sq k = expected_seq H (held writing lc) (held reading lc) p"
    using mp_okD(4) [OF assms(1)] by (auto simp: cells_ok_def)
  then show ?thesis
    using expected_seq_bounds(2) p(1) by (metis add_less_mono1 le_less_trans)
next
  case False
  then show ?thesis
    using mp_okD(4) [OF assms(1)] assms(2) by (auto simp: cells_ok_def)
qed

text \<open>A number below the producer's ticket: the ticket is current and the cell is not yet released.\<close>

lemma seq_below_ticket:
  assumes ok: "mp_ok T H sq dt lc lg ret" and t: "t \<le> T" and low: "sq (t mod 1024) < t"
  shows "T = H + 1024 \<or> (1024 \<le> T \<and> T - 1024 \<in> held reading lc)"
proof -
  let ?e = "expected_seq H (held writing lc) (held reading lc)"
  have cells: "\<And>p. p < T \<Longrightarrow> T \<le> p + 1024 \<Longrightarrow> sq (p mod 1024) = ?e p" "\<And>i. T \<le> i \<Longrightarrow> i < 1024 \<Longrightarrow> sq i = i"
    using mp_okD(4) [OF ok] by (auto simp: cells_ok_def)
  have "t = T"
  proof (rule ccontr)
    assume "t \<noteq> T"
    then have "t < T" "t mod 1024 < T"
      using t by (auto intro: le_less_trans [OF mod_less_eq_dividend])
    then obtain p where p: "p < T" "T \<le> p + 1024" "p mod 1024 = t mod 1024"
      using last_lap_position [of "t mod 1024" T] by auto
    then show False
      using low cells(1) [of p] last_lap_ge [OF p \<open>t < T\<close>] expected_seq_bounds(1) [of p] by (metis leD le_trans)
  qed
  have big: "1024 \<le> T"
    using low cells(2) [of T] \<open>t = T\<close> by (cases "T < 1024") auto
  have "(T - 1024) mod 1024 = T mod 1024"
    using big by (metis le_mod_geq)
  then have "?e (T - 1024) < T"
    using cells(1) [of "T - 1024"] low big \<open>t = T\<close> by simp
  then have "T - 1024 \<in> held writing lc \<or> H \<le> T - 1024 \<or> T - 1024 \<in> held reading lc"
    using big by (auto simp: expected_seq_def split: if_splits)
  then show ?thesis
    using mp_okD(1) [OF ok] big by (fastforce simp: window_ok_def)
qed

text \<open>A number below the consumer's: the ticket is current, and nothing is published there yet.\<close>

lemma seq_below_consumer:
  assumes ok: "mp_ok T H sq dt lc lg ret" and h: "h \<le> H" and low: "sq (h mod 1024) < h + 1"
  shows "T = H \<or> H \<in> held writing lc"
proof -
  let ?e = "expected_seq H (held writing lc) (held reading lc)"
  have cells: "\<And>p. p < T \<Longrightarrow> T \<le> p + 1024 \<Longrightarrow> sq (p mod 1024) = ?e p"
    using mp_okD(4) [OF ok] by (auto simp: cells_ok_def)
  have win: "H \<le> T" "T \<le> H + 1024" "\<And>p. p \<in> held writing lc \<Longrightarrow> H \<le> p"
    using mp_okD(1) [OF ok] by (auto simp: window_ok_def)
  have "h = H"
  proof (rule ccontr)
    assume "h \<noteq> H"
    then have "h < H" "h < T" "h mod 1024 < T"
      using h win(1) by (auto intro: le_less_trans [OF mod_less_eq_dividend])
    then obtain p where p: "p < T" "T \<le> p + 1024" "p mod 1024 = h mod 1024"
      using last_lap_position [of "h mod 1024" T] by auto
    have "h \<le> p"
      using last_lap_ge [OF p \<open>h < T\<close>] .
    then have "h + 1 \<le> ?e p"
      using \<open>h < H\<close> win(3) [of p] expected_seq_bounds(1) [of p]
      by (cases "h = p") (auto simp: expected_seq_def)
    then show False
      using low cells(1) [OF p(1,2)] p(3) by simp
  qed
  then show ?thesis
    using cells [of H] low win by (cases "H < T") (auto simp: expected_seq_def split: if_splits)
qed

lemma seq_at_tail:
  assumes ok: "mp_ok T H sq dt lc lg ret"
  shows "sq (T mod 1024) \<le> T"
proof (cases "1024 \<le> T")
  case True
  have "(T - 1024) mod 1024 = T mod 1024"
    using True by (metis le_mod_geq)
  moreover have "sq ((T - 1024) mod 1024) = expected_seq H (held writing lc) (held reading lc) (T - 1024)"
    using mp_okD(4) [OF ok] True by (simp add: cells_ok_def)
  ultimately have "sq (T mod 1024) = expected_seq H (held writing lc) (held reading lc) (T - 1024)"
    by simp
  then show ?thesis
    using expected_seq_bounds(2) [of _ _ _ "T - 1024"] True by (metis le_add_diff_inverse2)
next
  case False
  then show ?thesis
    using mp_okD(4) [OF ok] by (auto simp: cells_ok_def)
qed

lemma seq_at_head:
  assumes ok: "mp_ok T H sq dt lc lg ret"
  shows "sq (H mod 1024) \<le> H + 1"
proof (cases "H < T")
  case True
  moreover have "T \<le> H + 1024"
    using mp_okD(1) [OF ok] by (simp add: window_ok_def)
  ultimately show ?thesis
    using mp_okD(4) [OF ok] by (auto simp: cells_ok_def expected_seq_def)
next
  case False
  then have "T = H"
    using mp_okD(1) [OF ok] by (simp add: window_ok_def)
  then show ?thesis
    using seq_at_tail [OF ok] by simp
qed


subsection \<open>A thread that runs alone returns\<close>

lemma mpmc_run_returned: "returned_local l \<Longrightarrow> mpmc_run n q l = Returns (q, l)"
  by (cases l) auto

lemma mpmc_run_more: "mpmc_run n q l = Returns r \<Longrightarrow> mpmc_run (n + k) q l = Returns r"
proof (induction n arbitrary: q l)
  case 0
  then have "returned_local l"
    by (cases l) auto
  then show ?case
    using 0 by (simp add: mpmc_run_returned)
next
  case (Suc n)
  show ?case
  proof (cases "returned_local l")
    case True
    then show ?thesis
      using Suc.prems by (simp add: mpmc_run_returned)
  next
    case False
    then show ?thesis
      using Suc by (simp add: mpmc_run_step split: prod.splits)
  qed
qed

lemma mpmc_run_mono:
  assumes "mpmc_run n q l = Returns r" "n \<le> m"
  shows "mpmc_run m q l = Returns r"
  using mpmc_run_more [OF assms(1), of "m - n"] assms(2) by simp

text \<open>A fresh ticket needs four steps: compare, claim, move the task, store the sequence number.\<close>

lemma run_fresh_push:
  assumes "seqs q (unat (mp_tail q) mod 1024) \<le> unat (mp_tail q)" "unat (mp_tail q) < 9223372036854775808"
  shows "\<exists>r. mpmc_run 4 q (PushSeq x (mp_tail q)) = Returns r"
proof -
  have "signed_diff (sequence (cell_at q (mp_tail q))) (mp_tail q) \<le> 0"
    using assms signed_diff_unat [of "sequence (cell_at q (mp_tail q))" "mp_tail q"]
      sequence_cell_at [of q "mp_tail q"] by linarith
  then show ?thesis
    by (auto simp: mpmc_run_step Let_def)
qed

lemma run_fresh_pop:
  assumes "seqs q (unat (mp_head q) mod 1024) \<le> unat (mp_head q) + 1" "unat (mp_head q) + 1 < 9223372036854775808"
  shows "\<exists>r. mpmc_run 4 q (PopSeq (mp_head q)) = Returns r"
proof -
  have h: "unat (mp_head q + 1) = unat (mp_head q) + 1"
    using assms(2) by (intro unat_Suc_size_t) simp
  have "signed_diff (sequence (cell_at q (mp_head q))) (mp_head q + 1) \<le> 0"
    using assms signed_diff_unat [of "sequence (cell_at q (mp_head q))" "mp_head q + 1"]
      sequence_cell_at [of q "mp_head q"] h by linarith
  then show ?thesis
    by (auto simp: mpmc_run_step Let_def)
qed

lemma run_alone:
  assumes push: "\<And>x. \<exists>r. mpmc_run 4 q (PushSeq x (mp_tail q)) = Returns r"
    and pop: "\<exists>r. mpmc_run 4 q (PopSeq (mp_head q)) = Returns r" and "l \<noteq> Idle"
  shows "\<exists>r. mpmc_run 6 q l = Returns r"
proof -
  have push5: "\<exists>r. mpmc_run 5 q (PushSeq x (mp_tail q)) = Returns r" for x
    using push [of x] mpmc_run_mono [of 4 _ _ _ 5] by force
  have pop5: "\<exists>r. mpmc_run 5 q (PopSeq (mp_head q)) = Returns r"
    using pop mpmc_run_mono [of 4 _ _ _ 5] by force
  show ?thesis
    using push pop push5 pop5 assms(3) by (cases l) (auto simp: mpmc_run_step Let_def)
qed


subsection \<open>Filling the ring\<close>

lemma push_once_reachable:
  assumes "mpmc_reachable s" "\<forall>i. locals s i = Idle" "mpmc_inv (mq s)" "\<not> mp_stop (mq s)" "mp_used (mq s) < 1024"
  shows "\<exists>s'. mpmc_reachable s' \<and> (\<forall>i. locals s' i = Idle) \<and> Returns (True, mq s') = mpmc_push x (mq s) \<and>
              pushlog s' = pushlog s @ [x]"
proof -
  note seq = tail_cell [OF assms(3,5)]
  have len: "length (mp_buffer (mq s)) = 1024"
    using mpmc_invD(1) [OF assms(3)] .
  have "\<exists>s'. mpmc_exec [MCallPush 0 x, MStep 0 False, MStep 0 False, MStep 0 False, MStep 0 False,
        MStep 0 False, MStep 0 False, MReturn 0] s = Some s' \<and>
      (\<forall>i. locals s' i = Idle) \<and> Returns (True, mq s') = mpmc_push x (mq s) \<and> pushlog s' = pushlog s @ [x]"
    using assms(2,4) seq len
    by (simp add: mpmc_push_free [OF assms(3,4,5)] Let_def cell_at_set_cell)
      (simp add: set_cell_def cell_at_def)
  then show ?thesis
    using mpmc_exec_reachable [OF _ assms(1)] by blast
qed

lemma ring_can_fill:
  "n \<le> 1024 \<Longrightarrow> \<exists>s. mpmc_reachable s \<and> (\<forall>i. locals s i = Idle) \<and> mpmc_inv (mq s) \<and> \<not> mp_stop (mq s) \<and>
     mp_used (mq s) = n \<and> mp_head (mq s) = 0 \<and> length (pushlog s) = n"
proof (induction n)
  case 0
  then show ?case
    using mpmc_reachable.init mpmc_new_inv by (intro exI [of _ mpmc_init]) (simp add: mpmc_init_def)
next
  case (Suc n)
  then obtain s where s: "mpmc_reachable s" "\<forall>i. locals s i = Idle" "mpmc_inv (mq s)" "\<not> mp_stop (mq s)"
      "mp_used (mq s) = n" "mp_head (mq s) = 0" "length (pushlog s) = n"
    by auto
  then obtain s' where s': "mpmc_reachable s'" "\<forall>i. locals s' i = Idle"
      "Returns (True, mq s') = mpmc_push task_a (mq s)" "pushlog s' = pushlog s @ [task_a]"
    using push_once_reachable [of s task_a] Suc.prems by auto
  have "mpmc_accepts (mq s)"
    using s Suc.prems by (simp add: mpmc_accepts_def)
  then have "mpmc_inv (mq s')" "mpmc_contents (mq s') = mpmc_contents (mq s) @ [task_a]"
    using mpmc_push_accepts [OF s(3), of task_a] s'(3) by auto
  moreover from this(2) have "mp_used (mq s') = Suc n"
    using length_mpmc_contents [of "mq s'"] length_mpmc_contents [of "mq s"] s(5)
    by (simp del: length_mpmc_contents)
  moreover have "mp_head (mq s') = mp_head (mq s)" "\<not> mp_stop (mq s')"
    using s'(3) mpmc_push_free [OF s(3,4)] s(4,5) Suc.prems by auto
  ultimately show ?case
    using s s' by (intro exI [of _ s']) simp
qed


subsection \<open>Properties\<close>

text \<open>
  In every reachable state of any number of producers and consumers, the finished pops have
  taken pairwise different positions, and the pop of position \<open>p\<close> returned the task of the
  \<open>p\<close>-th push in the order of the claims: no task is delivered twice or altered.
\<close>

theorem mpmc_at_most_once:
  assumes "mpmc_reachable s" "length (pushlog s) < mp_bound"
  shows "distinct (map (unat \<circ> fst) (returned s)) \<and>
         (\<forall>(h, x) \<in> set (returned s). unat h < length (pushlog s) \<and> x = pushlog s ! unat h)"
proof -
  have inv: "mp_sys_inv s"
    using assms by (rule mpmc_reachable_inv)
  then have ok: "mp_ok (length (pushlog s)) (unat (mp_head (mq s))) (seqs (mq s)) (datas (mq s))
      (locals s) (pushlog s) (returned s)"
    using mp_sys_inv_tail by (auto simp: mp_sys_inv_def)
  have "unat h < length (pushlog s)" if "(h, x) \<in> set (returned s)" for h x
  proof -
    have "unat h \<in> {..<unat (mp_head (mq s))}"
      using mp_okD(6) [OF ok] that by (force simp: returned_ok_def)
    then show ?thesis
      using mp_okD(1) [OF ok] by (auto simp: window_ok_def)
  qed
  then show ?thesis
    using mp_okD(6) [OF ok] by (auto simp: returned_ok_def)
qed

theorem mpmc_at_most_once_witness:
  "\<exists>s. mpmc_reachable s \<and> pushlog s = [task_a, task_b] \<and> distinct (map (unat \<circ> fst) (returned s))"
proof -
  obtain s where s: "mpmc_exec mpmc_roundtrip mpmc_init = Some s" "pushlog s = [task_a, task_b]"
    using mpmc_roundtrip_runs by blast
  then have "mpmc_reachable s"
    by (blast intro: mpmc_exec_reachable mpmc_reachable.init)
  then show ?thesis
    using s(2) mpmc_at_most_once [of s] by (auto simp: mp_bound_def)
qed

text \<open>
  C2: Once no thread is inside a method, the tasks handed out are, as a multiset, exactly the first
  \<^verbatim>\<open>head\<close> tasks of the push order, and the cells hold the remaining ones in order: nothing
  that was accepted is ever dropped (what \<^verbatim>\<open>tests/fuzz_concurrency.cpp\<close> samples).
  Holds for histories of fewer than \<^const>\<open>mp_bound\<close>, about \<open>2^63\<close>, pushes.
\<close>

theorem mpmc_exactly_once:
  assumes "mpmc_reachable s" "length (pushlog s) < mp_bound" "\<forall>i. locals s i = Idle"
  shows "mset (map snd (returned s)) = mset (take (unat (mp_head (mq s))) (pushlog s)) \<and>
         map (\<lambda>p. cell_data (mp_buffer (mq s) ! (p mod 1024))) [unat (mp_head (mq s))..<unat (mp_tail (mq s))] =
           drop (unat (mp_head (mq s))) (pushlog s)"
proof -
  let ?H = "unat (mp_head (mq s))" and ?lg = "pushlog s"
  have inv: "mp_sys_inv s"
    using assms(1,2) by (rule mpmc_reachable_inv)
  note T = mp_sys_inv_tail [OF inv]
  have ok: "mp_ok (length ?lg) ?H (seqs (mq s)) (datas (mq s)) (locals s) ?lg (returned s)"
    using inv T by (auto simp: mp_sys_inv_def)
  have none: "held reading (locals s) = {}" "held writing (locals s) = {}"
    using assms(3) by (auto simp: held_def)
  have H: "?H \<le> length ?lg"
    using mp_okD(1) [OF ok] by (simp add: window_ok_def)
  have ret: "distinct (map (unat \<circ> fst) (returned s))" "(unat \<circ> fst) ` set (returned s) = {..<?H}"
      "\<forall>(h, x) \<in> set (returned s). x = ?lg ! unat h"
    using mp_okD(6) [OF ok] none by (auto simp: returned_ok_def)
  have "map snd (returned s) = map (\<lambda>p. ?lg ! p) (map (unat \<circ> fst) (returned s))"
    using ret(3) by auto
  moreover have "mset (map (unat \<circ> fst) (returned s)) = mset [0..<?H]"
    using ret(1,2) by (intro set_eq_iff_mset_eq_distinct [THEN iffD1]) (auto simp: atLeast0LessThan)
  ultimately have "mset (map snd (returned s)) = mset (map (\<lambda>p. ?lg ! p) [0..<?H])"
    by (metis mset_map)
  also have "map (\<lambda>p. ?lg ! p) [0..<?H] = take ?H ?lg"
    using H by (intro nth_equalityI) auto
  finally show ?thesis
    using mp_okD(5) [OF ok] none T
    by (auto simp: data_ok_def datas_def intro!: nth_equalityI)
qed


theorem mpmc_exactly_once_witness:
  "\<exists>s. mpmc_reachable s \<and> (\<forall>i. locals s i = Idle) \<and> mset (map snd (returned s)) = {#task_a, task_b#}"
proof -
  obtain s where s: "mpmc_exec mpmc_roundtrip mpmc_init = Some s" "pushlog s = [task_a, task_b]"
      "\<forall>i. locals s i = Idle" "mp_head (mq s) = 2"
    using mpmc_roundtrip_runs by blast
  then have "mpmc_reachable s"
    by (blast intro: mpmc_exec_reachable mpmc_reachable.init)
  then show ?thesis
    using s mpmc_exactly_once [of s] by (auto simp: mp_bound_def)
qed

text \<open>
  C20: Two different threads that are about to access the data of a cell (a producer writing it, a
  consumer moving it out) access different cells: the non-atomic accesses are free of data races.
  Holds for histories of fewer than \<^const>\<open>mp_bound\<close>, about \<open>2^63\<close>, pushes.
\<close>

theorem mpmc_race_free:
  assumes "mpmc_reachable s" "length (pushlog s) < mp_bound" "i \<noteq> j"
    "data_access (locals s i) = Some p" "data_access (locals s j) = Some p'"
  shows "slot p \<noteq> slot p'"
proof
  assume eq: "slot p = slot p'"
  let ?lc = "locals s" and ?T = "unat (mp_tail (mq s))" and ?H = "unat (mp_head (mq s))"
  have ok: "mp_ok ?T ?H (seqs (mq s)) (datas (mq s)) ?lc (pushlog s) (returned s)"
    using mpmc_reachable_inv [OF assms(1,2)] by (simp add: mp_sys_inv_def)
  note w = held_writingD [OF ok] and r = held_readingD [OF ok]
  note acc = data_access_held [OF assms(4)] data_access_held [OF assms(5)]
  have "unat p < ?T" "?T \<le> unat p + 1024" "unat p' < ?T" "?T \<le> unat p' + 1024"
    using acc w(2,3) r(2,3) by blast+
  then have same: "unat p = unat p'"
    using eq lap_slot by (simp add: slot_mod)
  then show False
    using acc w(1) [of i "unat p"] w(1) [of j "unat p"] r(1) [of i "unat p"] r(1) [of j "unat p"]
      mp_okD(2,3) [OF ok] assms(3) by (auto simp: exclusive_def)
qed

theorem mpmc_race_free_witness:
  "\<exists>s. mpmc_reachable s \<and> data_access (locals s 0) = Some 1 \<and> data_access (locals s 1) = Some 0 \<and>
       slot 1 \<noteq> slot 0"
proof -
  obtain s where s: "mpmc_exec mpmc_contended mpmc_init = Some s" "pushlog s = [task_a, task_b]"
      "locals s 0 = PushWrite task_b 1" "locals s 1 = PopRead 0"
    using mpmc_contended_runs by blast
  then have "mpmc_reachable s"
    by (blast intro: mpmc_exec_reachable mpmc_reachable.init)
  then show ?thesis
    using s mpmc_race_free [of s 0 1 1 0] by (auto simp: mp_bound_def)
qed


text \<open>
  C22: A push gives up only when, at the moment it reads the sequence number, the ring is full: all
  1024 positions are in use, or the one it needs is claimed by a pop that has not yet released
  its cell. A refusal is never caused by a stale ticket.
  Holds for histories of fewer than \<^const>\<open>mp_bound\<close>, about \<open>2^63\<close>, pushes.
\<close>

theorem mpmc_push_refused_only_when_full:
  assumes "mpmc_reachable s" "length (pushlog s) < mp_bound" "locals s i = PushSeq x t"
    "mpmc_thread_step weak (mq s) (PushSeq x t) = (q', PushRet False)"
  shows "unat (mp_tail (mq s)) = unat (mp_head (mq s)) + 1024 \<or>
         (\<exists>j. reading (locals s j) = Some (unat (mp_tail (mq s)) - 1024))"
proof -
  let ?q = "mq s" and ?T = "unat (mp_tail (mq s))"
  have inv: "mp_sys_inv s"
    using assms(1,2) by (rule mpmc_reachable_inv)
  have ok: "mp_ok ?T (unat (mp_head ?q)) (seqs ?q) (datas ?q) (locals s) (pushlog s) (returned s)"
    using inv by (simp add: mp_sys_inv_def)
  have T: "?T < mp_bound" and t: "unat t \<le> ?T"
    using mp_sys_inv_tail [OF inv] assms(2) mp_okD(7) [OF ok, of i] assms(3) by simp_all
  have seq: "unat (sequence (cell_at ?q t)) = seqs ?q (unat t mod 1024)"
    by (rule sequence_cell_at)
  have "seqs ?q (unat t mod 1024) < ?T + 1024"
    by (rule seq_bound [OF ok]) simp
  then have "signed_diff (sequence (cell_at ?q t)) t = int (seqs ?q (unat t mod 1024)) - int (unat t)"
    using T t seq signed_diff_unat [of "sequence (cell_at ?q t)" t] by (simp add: mp_bound_def)
  moreover have "signed_diff (sequence (cell_at ?q t)) t < 0"
    using assms(4) by (auto simp: Let_def split: if_splits)
  ultimately have "seqs ?q (unat t mod 1024) < unat t"
    by linarith
  then show ?thesis
    using seq_below_ticket [OF ok t] by (auto simp: held_def)
qed

theorem mpmc_push_refused_only_when_full_witness:
  "\<exists>s. mpmc_reachable s \<and> locals s 0 = PushSeq task_b (mp_tail (mq s)) \<and>
       mpmc_thread_step False (mq s) (PushSeq task_b (mp_tail (mq s))) = (mq s, PushRet False) \<and>
       (unat (mp_tail (mq s)) = unat (mp_head (mq s)) + 1024 \<or>
        (\<exists>j. reading (locals s j) = Some (unat (mp_tail (mq s)) - 1024)))"
proof -
  obtain s where s: "mpmc_reachable s" "\<forall>i. locals s i = Idle" "mpmc_inv (mq s)" "\<not> mp_stop (mq s)"
      "mp_used (mq s) = 1024" "length (pushlog s) = 1024"
    using ring_can_fill [of 1024] by auto
  let ?s = "s\<lparr>locals := (locals s)(0 := PushSeq task_b (mp_tail (mq s)))\<rparr>"
  have "mpmc_exec [MCallPush 0 task_b, MStep 0 False, MStep 0 False] s = Some ?s"
    using s by simp
  then have r: "mpmc_reachable ?s"
    using s(1) by (rule mpmc_exec_reachable)
  have step: "mpmc_thread_step False (mq ?s) (PushSeq task_b (mp_tail (mq s))) = (mq ?s, PushRet False)"
    using tail_cell_full [OF s(3,5)] by (simp add: signed_diff_def Let_def)
  show ?thesis
    using mpmc_push_refused_only_when_full [OF r _ _ step, of 0] r step s(6)
    by (intro exI [of _ ?s]) (simp add: mp_bound_def)
qed

text \<open>
  C23: A pop reports an empty queue only when, at the moment it reads the sequence number, every
  claimed position has been popped, or the next one is claimed by a push that has not yet
  published it.
  Holds for histories of fewer than \<^const>\<open>mp_bound\<close>, about \<open>2^63\<close>, pushes.
\<close>

theorem mpmc_pop_none_only_when_empty:
  assumes "mpmc_reachable s" "length (pushlog s) < mp_bound" "locals s i = PopSeq h"
    "mpmc_thread_step weak (mq s) (PopSeq h) = (q', PopRet None)"
  shows "mp_tail (mq s) = mp_head (mq s) \<or>
         (\<exists>j. writing (locals s j) = Some (unat (mp_head (mq s))))"
proof -
  let ?q = "mq s" and ?T = "unat (mp_tail (mq s))" and ?H = "unat (mp_head (mq s))"
  have inv: "mp_sys_inv s"
    using assms(1,2) by (rule mpmc_reachable_inv)
  have ok: "mp_ok ?T ?H (seqs ?q) (datas ?q) (locals s) (pushlog s) (returned s)"
    using inv by (simp add: mp_sys_inv_def)
  have T: "?T < mp_bound" and h: "unat h \<le> ?H" and HT: "?H \<le> ?T"
    using mp_sys_inv_tail [OF inv] assms(2) mp_okD(7) [OF ok, of i] assms(3) mp_okD(1) [OF ok]
    by (simp_all add: window_ok_def)
  have h1: "unat (h + 1) = unat h + 1"
    using T h HT by (intro unat_Suc_size_t) (simp add: mp_bound_def)
  have seq: "unat (sequence (cell_at ?q h)) = seqs ?q (unat h mod 1024)"
    by (rule sequence_cell_at)
  have "seqs ?q (unat h mod 1024) < ?T + 1024"
    by (rule seq_bound [OF ok]) simp
  then have "signed_diff (sequence (cell_at ?q h)) (h + 1) = int (seqs ?q (unat h mod 1024)) - int (unat h + 1)"
    using T h HT seq h1 signed_diff_unat [of "sequence (cell_at ?q h)" "h + 1"] by (simp add: mp_bound_def)
  moreover have "signed_diff (sequence (cell_at ?q h)) (h + 1) < 0"
    using assms(4) by (auto simp: Let_def split: if_splits)
  ultimately have "seqs ?q (unat h mod 1024) < unat h + 1"
    by linarith
  then show ?thesis
    using seq_below_consumer [OF ok h] by (auto simp: held_def word_unat_eq_iff)
qed

theorem mpmc_pop_none_only_when_empty_witness:
  "\<exists>s. mpmc_reachable s \<and> locals s 3 = PopSeq 0 \<and>
       mpmc_thread_step False (mq s) (PopSeq 0) = (mq s, PopRet None) \<and> mp_tail (mq s) = mp_head (mq s)"
proof -
  let ?s = "mpmc_init\<lparr>locals := (locals mpmc_init)(3 := PopSeq 0)\<rparr>"
  have "mpmc_exec [MCallPop 3, MStep 3 False] mpmc_init = Some ?s"
    by (simp add: mpmc_init_def)
  then have r: "mpmc_reachable ?s"
    using mpmc_reachable.init by (rule mpmc_exec_reachable)
  have step: "mpmc_thread_step False (mq ?s) (PopSeq 0) = (mq ?s, PopRet None)"
    by (simp add: mpmc_init_def cell_at_mpmc_new signed_diff_def Let_def)
  have none: "writing (locals ?s j) = None" for j
    by (simp add: mpmc_init_def)
  have "length (pushlog ?s) < mp_bound" "locals ?s 3 = PopSeq 0"
    by (simp_all add: mpmc_init_def mp_bound_def)
  then have "mp_tail (mq ?s) = mp_head (mq ?s)"
    using mpmc_pop_none_only_when_empty [OF r _ _ step] none by (metis option.distinct(1))
  then show ?thesis
    using r step by (intro exI [of _ ?s]) simp
qed

text \<open>
  C24: Obstruction freedom: in every reachable state, a thread that is inside a \<^verbatim>\<open>push\<close> or a \<^verbatim>\<open>pop\<close> and
  runs without interference (and without spurious failures) returns within six steps, whatever
  the other threads have left half done.
  Holds for histories of fewer than \<^const>\<open>mp_bound\<close>, about \<open>2^63\<close>, pushes.
\<close>

theorem mpmc_runs_alone_to_completion:
  assumes "mpmc_reachable s" "length (pushlog s) < mp_bound" "locals s i \<noteq> Idle"
  shows "\<exists>q' l'. mpmc_run 6 (mq s) (locals s i) = Returns (q', l')"
proof -
  let ?q = "mq s"
  have inv: "mp_sys_inv s"
    using assms(1,2) by (rule mpmc_reachable_inv)
  have ok: "mp_ok (unat (mp_tail ?q)) (unat (mp_head ?q)) (seqs ?q) (datas ?q) (locals s) (pushlog s) (returned s)"
    using inv by (simp add: mp_sys_inv_def)
  have "unat (mp_tail ?q) < mp_bound" "unat (mp_head ?q) \<le> unat (mp_tail ?q)"
    using mp_sys_inv_tail [OF inv] assms(2) mp_okD(1) [OF ok] by (simp_all add: window_ok_def)
  then have "\<exists>r. mpmc_run 6 ?q (locals s i) = Returns r"
    using seq_at_tail [OF ok] seq_at_head [OF ok] assms(3)
    by (intro run_alone run_fresh_push run_fresh_pop) (simp_all add: mp_bound_def)
  then show ?thesis
    by auto
qed

theorem mpmc_runs_alone_to_completion_witness:
  "\<exists>s. mpmc_reachable s \<and> locals s 0 = PushWrite task_b 1 \<and>
       (\<exists>q' l'. mpmc_run 6 (mq s) (locals s 1) = Returns (q', l'))"
proof -
  obtain s where s: "mpmc_exec mpmc_contended mpmc_init = Some s" "pushlog s = [task_a, task_b]"
      "locals s 0 = PushWrite task_b 1" "locals s 1 = PopRead 0"
    using mpmc_contended_runs by blast
  then have r: "mpmc_reachable s"
    by (blast intro: mpmc_exec_reachable mpmc_reachable.init)
  show ?thesis
    using mpmc_runs_alone_to_completion [OF r, of 1] r s by (auto simp: mp_bound_def)
qed

end
