(* ===== verification/Server.thy ===== *)
theory Server
  imports Naive_Queue
begin

unbundle bit_operations_syntax

section \<open>The TCP server\<close>

text \<open>
  \<^verbatim>\<open>src/TCPServer.cpp\<close>: one thread that accepts connections, reads requests (a four-byte
  big-endian length and that many bytes), queues them as tasks, and writes the responses the
  workers leave in the result queue. The operating system is an argument of each operation:
  what \<^verbatim>\<open>accept\<close>, \<^verbatim>\<open>recv\<close>, \<^verbatim>\<open>send\<close> and \<^verbatim>\<open>poll\<close> return and what the clock reads. A
  \<^verbatim>\<open>recv\<close> is given the number of bytes asked for; on Linux it returns at most \<open>0x7ffff000\<close>
  bytes, so the conversion of its result to \<^verbatim>\<open>int\<close> is exact. The bytes of a \<^verbatim>\<open>std::string\<close> are
  its characters. Running out of memory in \<^verbatim>\<open>resize\<close> is an
  exception that leaves \<^verbatim>\<open>run\<close>; \<^verbatim>\<open>Signals\<close> follows it into \<^verbatim>\<open>main\<close>.
\<close>

subsection \<open>State\<close>

datatype session_state =
    HEADER_PENDING
  | BODY_PENDING
  | READY_FOR_INFERENCE
  | INFERENCE_PENDING
  | RESPONSE_SENDING

record ClientSession =
  state :: session_state
  expected_size :: uint32
  bytes_received :: size_t
  body_buffer :: "byte list"
  header_buffer :: "byte list"
  header_bytes_received :: size_t
  response_buffer :: string
  bytes_sent :: size_t

text \<open>The header buffer is not initialised; it is written before it is read.\<close>

definition new_session :: ClientSession where
  "new_session =
     \<lparr>state = HEADER_PENDING, expected_size = 0, bytes_received = 0, body_buffer = [],
      header_buffer = [0, 0, 0, 0], header_bytes_received = 0, response_buffer = '''',
      bytes_sent = 0\<rparr>"

definition session_reset :: "ClientSession \<Rightarrow> ClientSession" where
  "session_reset s =
     s\<lparr>body_buffer := [], bytes_received := 0, expected_size := 0, header_bytes_received := 0,
       state := HEADER_PENDING\<rparr>"

type_synonym poll_mask = "16 word"

definition POLLIN :: poll_mask where
  "POLLIN = 1"

definition POLLOUT :: poll_mask where
  "POLLOUT = 4"

record pollfd =
  pfd_fd :: int
  pfd_events :: poll_mask
  pfd_revents :: poll_mask

record 'q TCPServer =
  sockfd :: int
  pollfds :: "pollfd list"
  srv_pre :: "pre_processor option"
  srv_post :: "post_processor option"
  srv_tasks :: 'q
  srv_results :: NaiveResultQueue
  sessions :: "int \<rightharpoonup> ClientSession"
  trace_id_gen :: uint32
  captured :: "InferenceTrace list"
  closed_fds :: "int list"
  wire :: "(int \<times> string) list"

text \<open>
  \<open>captured\<close> holds the traces handed to the telemetry manager, \<open>closed_fds\<close> the descriptors
  closed so far, and \<open>wire\<close> the bytes the kernel took from each successful \<^verbatim>\<open>send\<close> with the
  descriptor they went to, all three in order. \<open>trace_id_gen\<close> is the static counter of
  \<^verbatim>\<open>finalize_request\<close>.
\<close>

datatype recv_result = Received "byte list" | PeerClosed | RecvFailed bool

text \<open>The flag of a failure says whether \<^verbatim>\<open>errno\<close> is \<^verbatim>\<open>EAGAIN\<close> (or \<^verbatim>\<open>EWOULDBLOCK\<close>).\<close>

record net =
  accept_ret :: int
  recv_ret :: "int \<Rightarrow> nat \<Rightarrow> recv_result"
  send_ret :: "int \<Rightarrow> nat \<Rightarrow> int \<times> bool"
  poll_count :: int
  poll_revents :: "int \<Rightarrow> poll_mask"
  stale_revents :: poll_mask
  now :: time_point

text \<open>What the manual pages promise of a receive and a send.\<close>

definition recv_contract :: "nat \<Rightarrow> recv_result \<Rightarrow> bool" where
  "recv_contract len r \<longleftrightarrow> (case r of Received d \<Rightarrow> 0 < length d \<and> length d \<le> len \<and> length d \<le> 2147479552 | _ \<Rightarrow> True)"

definition send_contract :: "nat \<Rightarrow> int \<times> bool \<Rightarrow> bool" where
  "send_contract len r \<longleftrightarrow> fst r \<le> int len"


subsection \<open>Construction\<close>

text \<open>
  A candidate address of \<^verbatim>\<open>getaddrinfo\<close>: the descriptor \<^verbatim>\<open>socket\<close> gives for it, or -1, and
  whether making it non-blocking and binding it succeed.
\<close>

record candidate =
  cand_socket :: int
  cand_nonblock :: bool
  cand_bind :: bool

datatype server_error = GetAddrInfo | FailedToBind | ListenFailed

fun bind_first :: "candidate list \<Rightarrow> int list \<times> int option" where
  "bind_first [] = ([], None)"
| "bind_first (c # cs) =
     (if cand_socket c = -1 then bind_first cs
      else if \<not> cand_nonblock c \<or> \<not> cand_bind c
      then (case bind_first cs of (cl, r) \<Rightarrow> (cand_socket c # cl, r))
      else ([], Some (cand_socket c)))"

definition server_new ::
  "candidate list option \<Rightarrow> bool \<Rightarrow> poll_mask \<Rightarrow> 'q \<Rightarrow> NaiveResultQueue \<Rightarrow> pre_processor option \<Rightarrow>
   post_processor option \<Rightarrow> int list \<times> (server_error + 'q TCPServer)" where
  "server_new addrs listens stale tq rq pr po =
     (case addrs of
        None \<Rightarrow> ([], Inl GetAddrInfo)
      | Some cs \<Rightarrow>
          (case bind_first cs of
             (cl, None) \<Rightarrow> (cl, Inl FailedToBind)
           | (cl, Some fd) \<Rightarrow>
               if \<not> listens then (cl @ [fd], Inl ListenFailed)
               else (cl, Inr \<lparr>sockfd = fd, pollfds = [\<lparr>pfd_fd = fd, pfd_events = POLLIN, pfd_revents = stale\<rparr>],
                              srv_pre = pr, srv_post = po, srv_tasks = tq, srv_results = rq,
                              sessions = Map.empty, trace_id_gen = 0, captured = [], closed_fds = cl, wire = []\<rparr>)))"

definition server_destroy :: "'q TCPServer \<Rightarrow> int list" where
  "server_destroy srv = filter (\<lambda>fd. fd \<ge> 0) (map pfd_fd (pollfds srv))"


subsection \<open>Connections\<close>

text \<open>\<^verbatim>\<open>sessions[fd]\<close>: the session of a descriptor, made on first use.\<close>

definition session_of :: "'q TCPServer \<Rightarrow> int \<Rightarrow> ClientSession" where
  "session_of srv fd = (case sessions srv fd of Some s \<Rightarrow> s | None \<Rightarrow> new_session)"

definition put_session :: "int \<Rightarrow> ClientSession \<Rightarrow> 'q TCPServer \<Rightarrow> 'q TCPServer" where
  "put_session fd s srv = srv\<lparr>sessions := (sessions srv)(fd \<mapsto> s)\<rparr>"

text \<open>The new entry's \<^verbatim>\<open>revents\<close> is not initialised: it holds whatever was there.\<close>

definition handle_new_connection :: "net \<Rightarrow> 'q TCPServer \<Rightarrow> 'q TCPServer" where
  "handle_new_connection net srv =
     (let new_fd = accept_ret net
      in if new_fd = -1 then srv
         else put_session new_fd new_session
                (srv\<lparr>pollfds := pollfds srv @
                       [\<lparr>pfd_fd = new_fd, pfd_events = POLLIN, pfd_revents = stale_revents net\<rparr>]\<rparr>))"

definition close_connection :: "int \<Rightarrow> nat \<Rightarrow> 'q TCPServer \<Rightarrow> 'q TCPServer" where
  "close_connection fd poll_idx srv =
     srv\<lparr>closed_fds := closed_fds srv @ [pfd_fd (pollfds srv ! poll_idx)],
         pollfds := butlast ((pollfds srv)[poll_idx := last (pollfds srv)]),
         sessions := (sessions srv)(fd := None)\<rparr>"


subsection \<open>Requests\<close>

definition write_at :: "nat \<Rightarrow> 'a list \<Rightarrow> 'a list \<Rightarrow> 'a list" where
  "write_at k d buf = take k buf @ d @ drop (k + length d) buf"

text \<open>\<^verbatim>\<open>memcpy\<close> into a \<^verbatim>\<open>uint32_t\<close> of a little-endian machine, and the swap of \<^verbatim>\<open>ntohl\<close>.\<close>

definition load_uint32 :: "byte list \<Rightarrow> uint32" where
  "load_uint32 b =
     ucast (b ! 0) OR push_bit 8 (ucast (b ! 1)) OR push_bit 16 (ucast (b ! 2)) OR push_bit 24 (ucast (b ! 3))"

definition ntohl :: "uint32 \<Rightarrow> uint32" where
  "ntohl x =
     push_bit 24 (x AND 0xFF) OR push_bit 8 (x AND 0xFF00) OR
     drop_bit 8 (x AND 0xFF0000) OR drop_bit 24 (x AND 0xFF000000)"

definition resize :: "nat \<Rightarrow> byte list \<Rightarrow> byte list" where
  "resize n b = take n b @ replicate (n - length b) 0"

definition process_header :: "net \<Rightarrow> int \<Rightarrow> 'q TCPServer \<Rightarrow> int \<times> 'q TCPServer" where
  "process_header net fd srv =
     (let s = session_of srv fd
      in case recv_ret net fd (unat (4 - header_bytes_received s)) of
           PeerClosed \<Rightarrow> (0, srv)
         | RecvFailed again \<Rightarrow> (-1, srv)
         | Received d \<Rightarrow>
             (let s1 = s\<lparr>header_buffer := write_at (unat (header_bytes_received s)) d (header_buffer s),
                         header_bytes_received := header_bytes_received s + of_nat (length d)\<rparr>
              in if header_bytes_received s1 = 4
                 then let n = ntohl (load_uint32 (header_buffer s1))
                      in (1, put_session fd
                               (s1\<lparr>state := BODY_PENDING, expected_size := n,
                                   body_buffer := resize (unat n) (body_buffer s1)\<rparr>) srv)
                 else (int (length d), put_session fd s1 srv)))"

text \<open>The result of \<^verbatim>\<open>push\<close> is not looked at. A queue of the interface never lets a push wait.\<close>

definition push_task :: "(InferenceTask \<Rightarrow> 'q \<Rightarrow> (bool \<times> 'q) call) \<Rightarrow> InferenceTask \<Rightarrow> 'q \<Rightarrow> 'q" where
  "push_task push t q = (case push t q of Returns (ok, q') \<Rightarrow> q' | Waits \<Rightarrow> q)"

definition finalize_request ::
  "(InferenceTask \<Rightarrow> 'q \<Rightarrow> (bool \<times> 'q) call) \<Rightarrow> net \<Rightarrow> int \<Rightarrow> 'q TCPServer \<Rightarrow> int \<times> 'q TCPServer" where
  "finalize_request push net fd srv =
     (let s = session_of srv fd;
          trace = new_trace (trace_id_gen srv) (now net);
          task = new_task fd (body_buffer s) (srv_pre srv) (srv_post srv) (Some trace)
      in (1, put_session fd (s\<lparr>body_buffer := [], state := INFERENCE_PENDING\<rparr>)
               (srv\<lparr>trace_id_gen := trace_id_gen srv + 1, srv_tasks := push_task push task (srv_tasks srv)\<rparr>)))"

definition process_body ::
  "(InferenceTask \<Rightarrow> 'q \<Rightarrow> (bool \<times> 'q) call) \<Rightarrow> net \<Rightarrow> int \<Rightarrow> 'q TCPServer \<Rightarrow> int \<times> 'q TCPServer" where
  "process_body push net fd srv =
     (let s = session_of srv fd
      in if body_buffer s = [] then (-1, srv)
         else case recv_ret net fd (unat (ucast (expected_size s) - bytes_received s)) of
                RecvFailed again \<Rightarrow> (if again then 1 else -1, srv)
              | PeerClosed \<Rightarrow> (0, srv)
              | Received d \<Rightarrow>
                  (let s1 = s\<lparr>body_buffer := write_at (unat (bytes_received s)) d (body_buffer s),
                              bytes_received := bytes_received s + of_nat (length d)\<rparr>
                   in if bytes_received s1 = ucast (expected_size s1)
                      then (1, snd (finalize_request push net fd
                                      (put_session fd (s1\<lparr>state := READY_FOR_INFERENCE\<rparr>) srv)))
                      else (int (length d), put_session fd s1 srv)))"

definition handle_client_data ::
  "(InferenceTask \<Rightarrow> 'q \<Rightarrow> (bool \<times> 'q) call) \<Rightarrow> net \<Rightarrow> int \<Rightarrow> 'q TCPServer \<Rightarrow> int \<times> 'q TCPServer" where
  "handle_client_data push net fd srv =
     (let srv1 = put_session fd (session_of srv fd) srv
      in case state (session_of srv1 fd) of
           HEADER_PENDING \<Rightarrow> process_header net fd srv1
         | BODY_PENDING \<Rightarrow> process_body push net fd srv1
         | READY_FOR_INFERENCE \<Rightarrow> finalize_request push net fd srv1
         | _ \<Rightarrow> (1, srv1))"


subsection \<open>Responses\<close>

definition deliver :: "time_point \<Rightarrow> InferenceResult \<Rightarrow> 'q TCPServer \<Rightarrow> 'q TCPServer" where
  "deliver t res srv =
     (case sessions srv (res_client_fd res) of
        None \<Rightarrow> srv
      | Some s \<Rightarrow>
          (let srv1 = put_session (res_client_fd res)
                        (s\<lparr>response_buffer := response res, state := RESPONSE_SENDING, bytes_sent := 0\<rparr>) srv
           in case res_trace res of
                None \<Rightarrow> srv1
              | Some tr \<Rightarrow> srv1\<lparr>captured := captured srv1 @ [tr\<lparr>total_e2e_ms := get_elapsed_ms t tr\<rparr>]\<rparr>))"

lemma deliver_results [simp]: "srv_results (deliver t res srv) = srv_results srv"
  by (simp add: deliver_def put_session_def Let_def split: option.splits)

text \<open>The loop ends because each turn takes one result off the queue.\<close>

function handle_responses :: "net \<Rightarrow> 'q TCPServer \<Rightarrow> 'q TCPServer" where
  "handle_responses net srv =
     (case rq_pop_immediate (srv_results srv) of
        (None, q) \<Rightarrow> srv\<lparr>srv_results := q\<rparr>
      | (Some res, q) \<Rightarrow> handle_responses net (deliver (now net) res (srv\<lparr>srv_results := q\<rparr>)))"
  by pat_completeness auto
termination
  by (relation "measure (\<lambda>(net, srv). length (rq_data (srv_results srv)))")
    (auto simp: rq_pop_immediate_def split: list.splits)

text \<open>
  \<^verbatim>\<open>send\<close> is given the response from \<^verbatim>\<open>bytes_sent\<close> on and the number of bytes left, and takes
  the first \<open>sent\<close> of them; the flag is \<^verbatim>\<open>errno == EAGAIN\<close>.
\<close>

definition send_response :: "net \<Rightarrow> int \<Rightarrow> 'q TCPServer \<Rightarrow> bool \<times> 'q TCPServer" where
  "send_response net fd srv =
     (let s = session_of srv fd;
          data = drop (unat (bytes_sent s)) (response_buffer s);
          (sent, again) = send_ret net fd (unat (of_nat (length (response_buffer s)) - bytes_sent s))
      in if sent > 0
         then let s1 = s\<lparr>bytes_sent := bytes_sent s + of_int sent\<rparr>;
                  srv1 = srv\<lparr>wire := wire srv @ [(fd, take (nat sent) data)]\<rparr>
              in (False, put_session fd
                           (if bytes_sent s1 = of_nat (length (response_buffer s1)) then session_reset s1 else s1) srv1)
         else (sent < 0 \<and> \<not> again, put_session fd s srv))"


subsection \<open>The event loop\<close>

definition wanted_events :: "session_state \<Rightarrow> poll_mask" where
  "wanted_events st =
     (case st of RESPONSE_SENDING \<Rightarrow> POLLOUT | INFERENCE_PENDING \<Rightarrow> 0 | _ \<Rightarrow> POLLIN)"

fun update_events :: "nat \<Rightarrow> nat \<Rightarrow> 'q TCPServer \<Rightarrow> 'q TCPServer" where
  "update_events i 0 srv = srv"
| "update_events i (Suc n) srv =
     (let p = pollfds srv ! i;
          srv1 = put_session (pfd_fd p) (session_of srv (pfd_fd p)) srv
      in update_events (Suc i) n
           (srv1\<lparr>pollfds := (pollfds srv1)
                   [i := p\<lparr>pfd_events := wanted_events (state (session_of srv1 (pfd_fd p)))\<rparr>]\<rparr>))"

definition do_poll :: "net \<Rightarrow> 'q TCPServer \<Rightarrow> 'q TCPServer" where
  "do_poll net srv =
     srv\<lparr>pollfds := map (\<lambda>p. p\<lparr>pfd_revents := poll_revents net (pfd_fd p)\<rparr>) (pollfds srv)\<rparr>"

text \<open>One entry of the poll set: whether its connection is closed, and the server after it.\<close>

definition service_entry ::
  "(InferenceTask \<Rightarrow> 'q \<Rightarrow> (bool \<times> 'q) call) \<Rightarrow> net \<Rightarrow> nat \<Rightarrow> 'q TCPServer \<Rightarrow> bool \<times> 'q TCPServer" where
  "service_entry push net i srv =
     (let p = pollfds srv ! i
      in if pfd_revents p AND POLLIN \<noteq> 0
         then (if pfd_fd p = sockfd srv then (False, handle_new_connection net srv)
               else case handle_client_data push net (pfd_fd p) srv of
                      (r, srv1) \<Rightarrow>
                        if r \<le> 0 then (True, close_connection (pfd_fd (pollfds srv1 ! i)) i srv1)
                        else (False, srv1))
         else if pfd_revents p AND POLLOUT \<noteq> 0
         then (case send_response net (pfd_fd p) srv of
                 (fails, srv1) \<Rightarrow>
                   if fails then (True, close_connection (pfd_fd p) i srv1) else (False, srv1))
         else (False, srv))"

text \<open>
  The loop over the poll set. After a close the last entry has moved to position \<open>i\<close>, which is
  looked at again, and one entry fewer remains; \<open>left\<close> is \<^verbatim>\<open>current_size - i\<close>.
\<close>

fun service_loop ::
  "(InferenceTask \<Rightarrow> 'q \<Rightarrow> (bool \<times> 'q) call) \<Rightarrow> net \<Rightarrow> nat \<Rightarrow> nat \<Rightarrow> 'q TCPServer \<Rightarrow> 'q TCPServer" where
  "service_loop push net i 0 srv = srv"
| "service_loop push net i (Suc left) srv =
     (case service_entry push net i srv of
        (gone, srv1) \<Rightarrow> service_loop push net (if gone then i else Suc i) left srv1)"

definition server_iteration ::
  "(InferenceTask \<Rightarrow> 'q \<Rightarrow> (bool \<times> 'q) call) \<Rightarrow> net \<Rightarrow> 'q TCPServer \<Rightarrow> 'q TCPServer" where
  "server_iteration push net srv =
     (let srv1 = handle_responses net srv;
          srv2 = update_events 1 (length (pollfds srv1) - 1) srv1
      in if poll_count net \<le> 0 then srv2
         else let srv3 = do_poll net srv2
              in service_loop push net 0 (length (pollfds srv3)) srv3)"

text \<open>The loop over the successive readings of \<^verbatim>\<open>g_running\<close>; the result says whether it returned.\<close>

fun server_run ::
  "(InferenceTask \<Rightarrow> 'q \<Rightarrow> (bool \<times> 'q) call) \<Rightarrow> (bool \<times> net) list \<Rightarrow> 'q TCPServer \<Rightarrow> bool \<times> 'q TCPServer" where
  "server_run push [] srv = (False, srv)"
| "server_run push ((running, net) # rest) srv =
     (if running then server_run push rest (server_iteration push net srv) else (True, srv))"

end
