(* ===== verification/Server_Requests.thy ===== *)
theory Server_Requests
  imports Server
begin

unbundle bit_operations_syntax

section \<open>Reading requests\<close>

text \<open>
  The request protocol: the byte order of the header, the invariant that keeps every receive
  inside its buffer, and the framing theorem, which says that a request arrives intact however
  the network cuts it into pieces.
\<close>

subsection \<open>The length header\<close>

text \<open>What a client sends: the length, most significant byte first.\<close>

definition be32 :: "uint32 \<Rightarrow> byte list" where
  "be32 n = [ucast (drop_bit 24 n), ucast (drop_bit 16 n), ucast (drop_bit 8 n), ucast n]"

lemma bit_0xFF: "bit (0xFF :: uint32) i \<longleftrightarrow> i < 8"
  using bit_mask_iff [of 8 i, where ?'a = "32 word"] by (auto simp: mask_eq_exp_minus_1)

lemma bit_0xFF00: "bit (0xFF00 :: uint32) i \<longleftrightarrow> 8 \<le> i \<and> i < 16"
proof -
  have eq: "(0xFF00 :: uint32) = push_bit 8 (mask 8)" by (simp add: mask_eq_exp_minus_1 push_bit_eq_mult)
  show ?thesis unfolding eq by (auto simp: bit_push_bit_iff bit_mask_iff)
qed

lemma bit_0xFF0000: "bit (0xFF0000 :: uint32) i \<longleftrightarrow> 16 \<le> i \<and> i < 24"
proof -
  have eq: "(0xFF0000 :: uint32) = push_bit 16 (mask 8)" by (simp add: mask_eq_exp_minus_1 push_bit_eq_mult)
  show ?thesis unfolding eq by (auto simp: bit_push_bit_iff bit_mask_iff)
qed

lemma bit_0xFF000000: "bit (0xFF000000 :: uint32) i \<longleftrightarrow> 24 \<le> i \<and> i < 32"
proof -
  have eq: "(0xFF000000 :: uint32) = push_bit 24 (mask 8)" by (simp add: mask_eq_exp_minus_1 push_bit_eq_mult)
  show ?thesis unfolding eq by (auto simp: bit_push_bit_iff bit_mask_iff)
qed

lemmas byte_masks = bit_0xFF bit_0xFF00 bit_0xFF0000 bit_0xFF000000

lemma bit_ntohl:
  "i < 8 \<Longrightarrow> bit (ntohl x) i = bit x (i + 24)"
  "8 \<le> i \<Longrightarrow> i < 16 \<Longrightarrow> bit (ntohl x) i = bit x (i + 8)"
  "16 \<le> i \<Longrightarrow> i < 24 \<Longrightarrow> bit (ntohl x) i = bit x (i - 8)"
  "24 \<le> i \<Longrightarrow> i < 32 \<Longrightarrow> bit (ntohl x) i = bit x (i - 24)"
  unfolding ntohl_def bit_or_iff bit_and_iff bit_push_bit_iff bit_drop_bit_eq comp_apply byte_masks
  by (auto simp: add.commute dest: bit_imp_le_length)

lemma bit_load:
  "i < 8 \<Longrightarrow> bit (load_uint32 b) i = bit (b ! 0) i"
  "8 \<le> i \<Longrightarrow> i < 16 \<Longrightarrow> bit (load_uint32 b) i = bit (b ! 1) (i - 8)"
  "16 \<le> i \<Longrightarrow> i < 24 \<Longrightarrow> bit (load_uint32 b) i = bit (b ! 2) (i - 16)"
  "24 \<le> i \<Longrightarrow> i < 32 \<Longrightarrow> bit (load_uint32 b) i = bit (b ! 3) (i - 24)"
  by (auto simp add: load_uint32_def bit_or_iff bit_push_bit_iff bit_ucast_iff dest: bit_imp_le_length)

lemma ntohl_be32: "ntohl (load_uint32 (be32 n)) = n"
proof (rule bit_word_eqI)
  fix i assume "i < LENGTH(32)"
  then have "i < 32" by simp
  then consider "i < 8" | "8 \<le> i" "i < 16" | "16 \<le> i" "i < 24" | "24 \<le> i" "i < 32" by linarith
  then show "bit (ntohl (load_uint32 (be32 n))) i \<longleftrightarrow> bit n i"
    by cases (auto simp: bit_ntohl bit_load be32_def bit_ucast_iff bit_drop_bit_eq)
qed

lemma length_be32 [simp]: "length (be32 n) = 4"
  by (simp add: be32_def)


subsection \<open>Sessions and their buffers\<close>

lemma session_of_put [simp]:
  "session_of (put_session fd s srv) fd = s"
  "fd' \<noteq> fd \<Longrightarrow> session_of (put_session fd s srv) fd' = session_of srv fd'"
  by (simp_all add: session_of_def put_session_def)

lemma put_session_put [simp]: "put_session fd s (put_session fd s' srv) = put_session fd s srv"
  by (simp add: put_session_def)

lemma put_session_fields [simp]:
  "sockfd (put_session fd s srv) = sockfd srv" "pollfds (put_session fd s srv) = pollfds srv"
  "srv_tasks (put_session fd s srv) = srv_tasks srv" "srv_results (put_session fd s srv) = srv_results srv"
  "srv_pre (put_session fd s srv) = srv_pre srv" "srv_post (put_session fd s srv) = srv_post srv"
  "trace_id_gen (put_session fd s srv) = trace_id_gen srv" "captured (put_session fd s srv) = captured srv"
  "closed_fds (put_session fd s srv) = closed_fds srv"
  "sessions (put_session fd s srv) = (sessions srv)(fd \<mapsto> s)"
  by (simp_all add: put_session_def)

lemma length_write_at [simp]: "k + length d \<le> length buf \<Longrightarrow> length (write_at k d buf) = length buf"
  by (simp add: write_at_def)

lemma take_write_at:
  "k + length d \<le> length buf \<Longrightarrow> take (k + length d) (write_at k d buf) = take k buf @ d"
  by (simp add: write_at_def)

lemma length_resize [simp]: "length (resize n b) = n"
  by (auto simp: resize_def)

text \<open>
  The invariant of a session: what is received so far lies inside the buffer it is received
  into, and what is sent so far inside the response, which is sent completely outside of
  \<^verbatim>\<open>RESPONSE_SENDING\<close>. Between two events a session is never \<^verbatim>\<open>READY_FOR_INFERENCE\<close>.
\<close>

definition session_ok :: "ClientSession \<Rightarrow> bool" where
  "session_ok s \<longleftrightarrow>
     length (header_buffer s) = 4 \<and> state s \<noteq> READY_FOR_INFERENCE \<and>
     (state s = HEADER_PENDING \<longrightarrow>
        unat (header_bytes_received s) < 4 \<and> bytes_received s = 0 \<and> body_buffer s = []) \<and>
     (state s = BODY_PENDING \<longrightarrow>
        length (body_buffer s) = unat (expected_size s) \<and>
        (unat (bytes_received s) < unat (expected_size s) \<or> expected_size s = 0)) \<and>
     (state s = INFERENCE_PENDING \<longrightarrow> body_buffer s = []) \<and>
     length (response_buffer s) < 18446744073709551616 \<and>
     unat (bytes_sent s) \<le> length (response_buffer s) \<and>
     (state s \<noteq> RESPONSE_SENDING \<longrightarrow> unat (bytes_sent s) = length (response_buffer s))"

lemma new_session_ok [simp]: "session_ok new_session"
  by (simp add: session_ok_def new_session_def)

definition net_ok :: "net \<Rightarrow> bool" where
  "net_ok net \<longleftrightarrow>
     (\<forall>fd len. recv_contract len (recv_ret net fd len)) \<and> (\<forall>fd len. send_contract len (send_ret net fd len))"

lemma net_ok_recv:
  "net_ok net \<Longrightarrow> recv_ret net fd len = Received d \<Longrightarrow> 0 < length d \<and> length d \<le> len"
proof -
  assume "net_ok net" and r: "recv_ret net fd len = Received d"
  from this(1) have "recv_contract len (recv_ret net fd len)"
    by (simp add: net_ok_def)
  then show ?thesis
    by (simp add: r recv_contract_def)
qed

lemma unat_less_2p32: "unat (n :: uint32) < 4294967296"
  using unsigned_less [of n, where ?'a = nat] by simp

lemma unat_ucast_uint32 [simp]: "unat (ucast (n :: uint32) :: size_t) = unat n"
  using unat_less_2p32 [of n] by (simp add: unsigned_ucast_eq take_bit_nat_eq_self_iff)

lemma unat_diff_size_t: "unat b \<le> unat a \<Longrightarrow> unat (a - b :: size_t) = unat a - unat b"
  by (simp add: unat_sub word_le_nat_alt)

lemma unat_add_length:
  assumes "unat a + length d \<le> n" "n < 18446744073709551616"
  shows "unat (a + of_nat (length d) :: size_t) = unat a + length d"
  using assms by (subst unat_add_size_t) (simp_all add: unat_of_nat_size_t)



subsection \<open>Every event keeps the invariant\<close>

definition server_ok :: "'q TCPServer \<Rightarrow> bool" where
  "server_ok srv \<longleftrightarrow>
     (\<forall>fd s. sessions srv fd = Some s \<longrightarrow> session_ok s) \<and>
     (\<forall>r \<in> set (rq_data (srv_results srv)). length (response r) < 18446744073709551616)"

lemma server_ok_session: "server_ok srv \<Longrightarrow> session_ok (session_of srv fd)"
  by (auto simp: server_ok_def session_of_def split: option.splits)

lemma server_ok_put: "server_ok srv \<Longrightarrow> session_ok s \<Longrightarrow> server_ok (put_session fd s srv)"
  by (auto simp: server_ok_def)

lemma server_ok_cong:
  "sessions srv' = sessions srv \<Longrightarrow> srv_results srv' = srv_results srv \<Longrightarrow> server_ok srv' = server_ok srv"
  by (simp add: server_ok_def)

text \<open>The session after a successful receive: while the header is incomplete, and in the body.\<close>

definition header_step :: "byte list \<Rightarrow> ClientSession \<Rightarrow> ClientSession" where
  "header_step d s =
     (let s1 = s\<lparr>header_buffer := write_at (unat (header_bytes_received s)) d (header_buffer s),
                 header_bytes_received := header_bytes_received s + of_nat (length d)\<rparr>;
          n = ntohl (load_uint32 (header_buffer s1))
      in if header_bytes_received s1 = 4
         then s1\<lparr>state := BODY_PENDING, expected_size := n, body_buffer := resize (unat n) (body_buffer s1)\<rparr>
         else s1)"

definition body_step :: "byte list \<Rightarrow> ClientSession \<Rightarrow> ClientSession" where
  "body_step d s =
     s\<lparr>body_buffer := write_at (unat (bytes_received s)) d (body_buffer s),
       bytes_received := bytes_received s + of_nat (length d)\<rparr>"

lemma process_header_Received:
  "recv_ret net fd (unat (4 - header_bytes_received (session_of srv fd))) = Received d \<Longrightarrow>
     snd (process_header net fd srv) = put_session fd (header_step d (session_of srv fd)) srv"
  by (simp add: process_header_def header_step_def Let_def)

lemma header_count:
  assumes "session_ok s" "state s = HEADER_PENDING" "length d \<le> unat (4 - header_bytes_received s)"
  shows "unat (header_bytes_received s + of_nat (length d)) = unat (header_bytes_received s) + length d"
    "unat (header_bytes_received s) + length d \<le> 4" "length (header_buffer s) = 4"
proof -
  have h: "unat (header_bytes_received s) < 4" "length (header_buffer s) = 4"
    using assms by (simp_all add: session_ok_def)
  have "unat (4 - header_bytes_received s) = 4 - unat (header_bytes_received s)"
    using h(1) by (subst unat_diff_size_t) simp_all
  then show le: "unat (header_bytes_received s) + length d \<le> 4"
    using assms(3) h(1) by linarith
  show "unat (header_bytes_received s + of_nat (length d)) = unat (header_bytes_received s) + length d"
    using unat_add_length [OF le] by simp
  show "length (header_buffer s) = 4"
    by (rule h(2))
qed

lemma eq_4_iff: "(x :: size_t) = 4 \<longleftrightarrow> unat x = 4"
  by (simp add: word_unat_eq_iff)

lemma header_step_ok:
  assumes "session_ok s" "state s = HEADER_PENDING" "length d \<le> unat (4 - header_bytes_received s)"
  shows "session_ok (header_step d s)"
  using assms header_count [OF assms]
  by (simp add: header_step_def Let_def session_ok_def eq_4_iff unat_gt_0)

lemma body_count:
  assumes "session_ok s" "state s = BODY_PENDING" "body_buffer s \<noteq> []"
    "length d \<le> unat (ucast (expected_size s) - bytes_received s)"
  shows "unat (bytes_received s + of_nat (length d)) = unat (bytes_received s) + length d"
    "unat (bytes_received s) + length d \<le> unat (expected_size s)"
    "length (body_buffer s) = unat (expected_size s)"
proof -
  have b: "length (body_buffer s) = unat (expected_size s)" "unat (bytes_received s) < unat (expected_size s)"
    using assms by (auto simp: session_ok_def)
  have "unat (ucast (expected_size s) - bytes_received s) = unat (expected_size s) - unat (bytes_received s)"
    using b(2) by (subst unat_diff_size_t) simp_all
  then show le: "unat (bytes_received s) + length d \<le> unat (expected_size s)"
    using assms(4) b(2) by linarith
  show "unat (bytes_received s + of_nat (length d)) = unat (bytes_received s) + length d"
    using unat_add_length [OF le] unat_less_2p32 [of "expected_size s"] by simp
  show "length (body_buffer s) = unat (expected_size s)"
    by (rule b(1))
qed

lemma eq_ucast_iff: "(x :: size_t) = ucast (n :: uint32) \<longleftrightarrow> unat x = unat n"
  by (simp add: word_unat_eq_iff)

lemma body_step_ok:
  assumes "session_ok s" "state s = BODY_PENDING" "body_buffer s \<noteq> []"
    "length d \<le> unat (ucast (expected_size s) - bytes_received s)"
    "bytes_received (body_step d s) \<noteq> ucast (expected_size s)"
  shows "session_ok (body_step d s)"
  using assms body_count [OF assms(1-4)]
  by (auto simp: body_step_def session_ok_def eq_ucast_iff)

lemma server_ok_process_header:
  assumes "server_ok srv" "net_ok net" "state (session_of srv fd) = HEADER_PENDING"
  shows "server_ok (snd (process_header net fd srv))"
proof (cases "recv_ret net fd (unat (4 - header_bytes_received (session_of srv fd)))")
  case (Received d)
  then show ?thesis
    using net_ok_recv [OF assms(2) Received] header_step_ok [OF server_ok_session [OF assms(1)] assms(3)] assms(1)
    by (simp add: process_header_Received server_ok_put)
qed (use assms(1) in \<open>simp_all add: process_header_def Let_def\<close>)

lemma finalize_put:
  "finalize_request push net fd (put_session fd s srv) =
     (1, put_session fd (s\<lparr>body_buffer := [], state := INFERENCE_PENDING\<rparr>)
           (srv\<lparr>trace_id_gen := trace_id_gen srv + 1,
                srv_tasks := push_task push (new_task fd (body_buffer s) (srv_pre srv) (srv_post srv)
                  (Some (new_trace (trace_id_gen srv) (now net)))) (srv_tasks srv)\<rparr>))"
  by (simp add: finalize_request_def Let_def put_session_def session_of_def)

lemma process_body_Received:
  assumes "body_buffer (session_of srv fd) \<noteq> []"
    "recv_ret net fd (unat (ucast (expected_size (session_of srv fd)) - bytes_received (session_of srv fd))) = Received d"
  shows "snd (process_body push net fd srv) =
    (let s1 = body_step d (session_of srv fd)
     in if bytes_received s1 = ucast (expected_size s1)
        then snd (finalize_request push net fd (put_session fd (s1\<lparr>state := READY_FOR_INFERENCE\<rparr>) srv))
        else put_session fd s1 srv)"
  using assms by (simp add: process_body_def body_step_def Let_def)

lemma server_ok_process_body:
  assumes "server_ok srv" "net_ok net" "state (session_of srv fd) = BODY_PENDING"
  shows "server_ok (snd (process_body push net fd srv))"
proof (cases "body_buffer (session_of srv fd) = []")
  case False
  let ?s = "session_of srv fd"
  note sok = server_ok_session [OF assms(1), of fd]
  show ?thesis
  proof (cases "recv_ret net fd (unat (ucast (expected_size ?s) - bytes_received ?s))")
    case (Received d)
    note d = net_ok_recv [OF assms(2) Received]
    show ?thesis
    proof (cases "bytes_received (body_step d ?s) = ucast (expected_size ?s)")
      case True
      let ?t = "(body_step d ?s)\<lparr>body_buffer := [], state := INFERENCE_PENDING\<rparr>"
      have "session_ok ?t"
        using sok assms(3) by (simp add: session_ok_def body_step_def)
      then show ?thesis
        using assms(1) True
        by (simp add: process_body_Received [OF False Received] Let_def body_step_def finalize_put server_ok_def)
    next
      case neq: False
      then show ?thesis
        using body_step_ok [OF sok assms(3) False _ neq] d assms(1)
        by (simp add: process_body_Received [OF False Received] Let_def body_step_def server_ok_put)
    qed
  qed (use assms(1) False in \<open>simp_all add: process_body_def Let_def\<close>)
qed (use assms(1) in \<open>simp add: process_body_def Let_def\<close>)

lemma server_ok_client_data:
  assumes "server_ok srv" "net_ok net"
  shows "server_ok (snd (handle_client_data push net fd srv))"
proof -
  let ?srv = "put_session fd (session_of srv fd) srv"
  have ok: "server_ok ?srv"
    using assms(1) server_ok_session server_ok_put by blast
  have "state (session_of srv fd) \<noteq> READY_FOR_INFERENCE"
    using server_ok_session [OF assms(1), of fd] by (simp add: session_ok_def)
  then show ?thesis
    using server_ok_process_header [OF ok assms(2), of fd] server_ok_process_body [OF ok assms(2), of fd] ok
    by (simp add: handle_client_data_def Let_def split: session_state.splits)
qed


lemma server_ok_deliver:
  assumes "server_ok srv" "length (response res) < 18446744073709551616"
  shows "server_ok (deliver t res srv)"
  using assms by (auto simp: deliver_def server_ok_def session_ok_def Let_def split: option.splits)


lemma handle_responses_empty:
  "rq_data (srv_results srv) = [] \<Longrightarrow> handle_responses net srv = srv"
  by (simp add: rq_pop_immediate_def)

lemma handle_responses_Cons:
  "rq_data (srv_results srv) = r # rs \<Longrightarrow>
     handle_responses net srv =
       handle_responses net (deliver (now net) r (srv\<lparr>srv_results := (srv_results srv)\<lparr>rq_data := rs\<rparr>\<rparr>))"
  by (subst handle_responses.simps) (simp add: rq_pop_immediate_def)

declare handle_responses.simps [simp del]

text \<open>Induction over the responses that are delivered.\<close>

lemma handle_responses_invariant:
  assumes "P srv"
    and step: "\<And>srv r rs. P srv \<Longrightarrow> rq_data (srv_results srv) = r # rs \<Longrightarrow>
      P (deliver (now net) r (srv\<lparr>srv_results := (srv_results srv)\<lparr>rq_data := rs\<rparr>\<rparr>))"
  shows "P (handle_responses net srv) \<and> rq_data (srv_results (handle_responses net srv)) = []"
  using assms(1)
proof (induction "rq_data (srv_results srv)" arbitrary: srv)
  case Nil
  then show ?case
    by (simp add: handle_responses_empty)
next
  case (Cons r rs)
  then show ?case
    using handle_responses_Cons [of srv r rs net] step [of srv r rs] by simp
qed

lemma server_ok_responses: "server_ok srv \<Longrightarrow> server_ok (handle_responses net srv)"
proof -
  assume "server_ok srv"
  then have "server_ok (handle_responses net srv) \<and> rq_data (srv_results (handle_responses net srv)) = []"
  proof (rule handle_responses_invariant)
    fix srv :: "'a TCPServer" and r rs
    assume "server_ok srv" "rq_data (srv_results srv) = r # rs"
    then show "server_ok (deliver (now net) r (srv\<lparr>srv_results := (srv_results srv)\<lparr>rq_data := rs\<rparr>\<rparr>))"
      by (intro server_ok_deliver) (auto simp: server_ok_def)
  qed
  then show ?thesis by simp
qed

lemma unat_of_int_size_t: "0 \<le> i \<Longrightarrow> i < 18446744073709551616 \<Longrightarrow> unat (of_int i :: size_t) = nat i"
  by (metis int_nat_eq nat_less_iff of_int_of_nat_eq of_nat_numeral unat_of_nat_size_t zero_le_numeral)

lemma sent_count:
  assumes "session_ok s" "0 < sent" "sent \<le> int (unat (of_nat (length (response_buffer s)) - bytes_sent s))"
  shows "unat (bytes_sent s + of_int sent) = unat (bytes_sent s) + nat sent"
    "unat (bytes_sent s) + nat sent \<le> length (response_buffer s)" "state s = RESPONSE_SENDING"
proof -
  have r: "length (response_buffer s) < 18446744073709551616" "unat (bytes_sent s) \<le> length (response_buffer s)"
      "state s \<noteq> RESPONSE_SENDING \<Longrightarrow> unat (bytes_sent s) = length (response_buffer s)"
    using assms(1) by (simp_all add: session_ok_def)
  have len: "unat (of_nat (length (response_buffer s)) - bytes_sent s) = length (response_buffer s) - unat (bytes_sent s)"
    using r by (subst unat_diff_size_t) (simp_all add: unat_of_nat_size_t)
  then show le: "unat (bytes_sent s) + nat sent \<le> length (response_buffer s)"
    using assms(2,3) r(2) by linarith
  then have "unat (of_int sent :: size_t) = nat sent"
    using assms(2) r(1) by (intro unat_of_int_size_t) linarith+
  then show "unat (bytes_sent s + of_int sent) = unat (bytes_sent s) + nat sent"
    using le r(1) by (subst unat_add_size_t) linarith+
  show "state s = RESPONSE_SENDING"
    using assms(2,3) len r(3) by force
qed

definition send_step :: "int \<Rightarrow> ClientSession \<Rightarrow> ClientSession" where
  "send_step sent s =
     (let s1 = s\<lparr>bytes_sent := bytes_sent s + of_int sent\<rparr>
      in if bytes_sent s1 = of_nat (length (response_buffer s1)) then session_reset s1 else s1)"

lemma eq_of_nat_iff:
  "n < 18446744073709551616 \<Longrightarrow> (x :: size_t) = of_nat n \<longleftrightarrow> unat x = n"
  by (auto simp: word_unat_eq_iff unat_of_nat_size_t)

lemma send_step_ok:
  assumes "session_ok s" "0 < sent" "sent \<le> int (unat (of_nat (length (response_buffer s)) - bytes_sent s))"
  shows "session_ok (send_step sent s)"
proof -
  have "length (response_buffer s) < 18446744073709551616"
    using assms(1) by (simp add: session_ok_def)
  then show ?thesis
    using assms(1) sent_count [OF assms]
    by (auto simp: send_step_def Let_def session_ok_def session_reset_def eq_of_nat_iff)
qed

text \<open>What a successful send put on the wire.\<close>

definition put_on_wire :: "int \<Rightarrow> string \<Rightarrow> 'q TCPServer \<Rightarrow> 'q TCPServer" where
  "put_on_wire fd bytes srv = srv\<lparr>wire := wire srv @ [(fd, bytes)]\<rparr>"

lemma put_on_wire_simps [simp]:
  "sockfd (put_on_wire fd b srv) = sockfd srv" "pollfds (put_on_wire fd b srv) = pollfds srv"
  "srv_pre (put_on_wire fd b srv) = srv_pre srv" "srv_post (put_on_wire fd b srv) = srv_post srv"
  "srv_tasks (put_on_wire fd b srv) = srv_tasks srv" "srv_results (put_on_wire fd b srv) = srv_results srv"
  "sessions (put_on_wire fd b srv) = sessions srv" "trace_id_gen (put_on_wire fd b srv) = trace_id_gen srv"
  "captured (put_on_wire fd b srv) = captured srv" "closed_fds (put_on_wire fd b srv) = closed_fds srv"
  "wire (put_on_wire fd b srv) = wire srv @ [(fd, b)]" "session_of (put_on_wire fd b srv) x = session_of srv x"
  by (simp_all add: put_on_wire_def session_of_def)

lemma server_ok_put_on_wire [simp]: "server_ok (put_on_wire fd b srv) = server_ok srv"
  by (simp add: server_ok_def)

lemma send_response_eq:
  "send_response net fd srv =
     (case send_ret net fd (unat (of_nat (length (response_buffer (session_of srv fd))) - bytes_sent (session_of srv fd))) of
        (sent, again) \<Rightarrow>
          if sent > 0
          then (False, put_session fd (send_step sent (session_of srv fd))
                  (put_on_wire fd (take (nat sent) (drop (unat (bytes_sent (session_of srv fd))) (response_buffer (session_of srv fd)))) srv))
          else (sent < 0 \<and> \<not> again, put_session fd (session_of srv fd) srv))"
  by (simp add: send_response_def send_step_def put_on_wire_def Let_def split: prod.splits)

lemma net_ok_send:
  assumes "net_ok net" "send_ret net fd len = (sent, again)"
  shows "sent \<le> int len"
proof -
  have "send_contract len (send_ret net fd len)"
    using assms(1) by (simp add: net_ok_def)
  then show ?thesis
    by (simp add: send_contract_def assms(2))
qed

lemma server_ok_send:
  assumes "server_ok srv" "net_ok net"
  shows "server_ok (snd (send_response net fd srv))"
proof -
  let ?s = "session_of srv fd"
  let ?len = "unat (of_nat (length (response_buffer ?s)) - bytes_sent ?s)"
  obtain sent again where send: "send_ret net fd ?len = (sent, again)"
    by fastforce
  have sok: "session_ok ?s"
    by (rule server_ok_session [OF assms(1)])
  have "session_ok (send_step sent ?s)" if "0 < sent"
    by (rule send_step_ok [OF sok that net_ok_send [OF assms(2) send]])
  then show ?thesis
    using assms(1) sok by (simp add: send_response_eq send server_ok_put)
qed

lemma server_ok_update_events: "server_ok srv \<Longrightarrow> server_ok (update_events i n srv)"
proof (induction n arbitrary: i srv)
  case (Suc n)
  have "server_ok (put_session fd (session_of srv fd) srv)" for fd
    using Suc.prems server_ok_put server_ok_session by blast
  then show ?case
    unfolding update_events.simps Let_def by (intro Suc.IH) (simp add: server_ok_def)
qed simp

lemma server_ok_close: "server_ok srv \<Longrightarrow> server_ok (close_connection fd i srv)"
  by (auto simp: server_ok_def close_connection_def)

lemma server_ok_new_connection: "server_ok srv \<Longrightarrow> server_ok (handle_new_connection net srv)"
  by (auto simp: server_ok_def handle_new_connection_def Let_def)

lemma service_entry_cases:
  obtains "pfd_fd (pollfds srv ! i) = sockfd srv" "service_entry push net i srv = (False, handle_new_connection net srv)"
  | fd r srv1 where "fd = pfd_fd (pollfds srv ! i)" "fd \<noteq> sockfd srv"
      "handle_client_data push net fd srv = (r, srv1)"
      "service_entry push net i srv =
         (if r \<le> 0 then (True, close_connection (pfd_fd (pollfds srv1 ! i)) i srv1) else (False, srv1))"
  | fd fails srv1 where "fd = pfd_fd (pollfds srv ! i)" "send_response net fd srv = (fails, srv1)"
      "service_entry push net i srv = (if fails then (True, close_connection fd i srv1) else (False, srv1))"
  | "service_entry push net i srv = (False, srv)"
proof -
  let ?p = "pollfds srv ! i"
  obtain r srv1 where h: "handle_client_data push net (pfd_fd ?p) srv = (r, srv1)"
    by fastforce
  obtain f srv2 where sd: "send_response net (pfd_fd ?p) srv = (f, srv2)"
    by fastforce
  consider "pfd_revents ?p AND POLLIN \<noteq> 0" "pfd_fd ?p = sockfd srv"
    | "pfd_revents ?p AND POLLIN \<noteq> 0" "pfd_fd ?p \<noteq> sockfd srv"
    | "pfd_revents ?p AND POLLIN = 0" "pfd_revents ?p AND POLLOUT \<noteq> 0"
    | "pfd_revents ?p AND POLLIN = 0" "pfd_revents ?p AND POLLOUT = 0"
    by blast
  then show thesis
  proof cases
    case 1
    then show thesis
      by (intro that(1)) (simp_all add: service_entry_def)
  next
    case 2
    then show thesis
      by (intro that(2) [OF refl _ h]) (simp_all add: service_entry_def h)
  next
    case 3
    then show thesis
      by (intro that(3) [OF refl sd]) (simp add: service_entry_def sd)
  next
    case 4
    then show thesis
      by (intro that(4)) (simp add: service_entry_def)
  qed
qed

lemma server_ok_service_entry:
  assumes "server_ok srv" "net_ok net"
  shows "server_ok (snd (service_entry push net i srv))"
proof (cases rule: service_entry_cases [of srv i push net])
  case 1
  then show ?thesis
    using assms(1) by (simp add: server_ok_new_connection)
next
  case (2 fd r srv1)
  then have "server_ok srv1"
    using server_ok_client_data [OF assms, of push fd] by simp
  then show ?thesis
    using 2(4) by (simp add: server_ok_close)
next
  case (3 fd fails srv1)
  then have "server_ok srv1"
    using server_ok_send [OF assms, of fd] by simp
  then show ?thesis
    using 3(3) by (simp add: server_ok_close)
next
  case 4
  then show ?thesis
    using assms(1) by simp
qed

lemma server_ok_service_loop:
  assumes "net_ok net"
  shows "server_ok srv \<Longrightarrow> server_ok (service_loop push net i n srv)"
proof (induction n arbitrary: i srv)
  case (Suc n)
  obtain gone srv1 where e: "service_entry push net i srv = (gone, srv1)"
    by fastforce
  then show ?case
    using server_ok_service_entry [OF Suc.prems assms, of push i] Suc.IH by simp
qed simp

lemma server_ok_poll: "server_ok srv \<Longrightarrow> server_ok (do_poll net srv)"
  by (simp add: server_ok_def do_poll_def)

lemma server_ok_iteration:
  assumes "server_ok srv" "net_ok net"
  shows "server_ok (server_iteration push net srv)"
proof -
  have "server_ok (update_events i n (handle_responses net srv))" for i n
    by (intro server_ok_update_events server_ok_responses assms(1))
  then show ?thesis
    unfolding server_iteration_def Let_def
    by (simp add: server_ok_poll server_ok_service_loop [OF assms(2)])
qed

lemma server_ok_run:
  "server_ok srv \<Longrightarrow> (\<forall>(g, net) \<in> set nets. net_ok net) \<Longrightarrow> server_ok (snd (server_run push nets srv))"
proof (induction nets arbitrary: srv)
  case (Cons gn nets)
  then show ?case
    by (cases gn) (auto simp: server_ok_iteration)
qed simp



subsection \<open>Framing\<close>

text \<open>
  A client's stream is delivered in pieces: \<open>feed\<close> runs the handler of readable data while the
  request is incomplete, each time with at most \<open>k + 1\<close> further bytes of the stream, and gives
  back what is left of the stream.
\<close>

definition wanted :: "ClientSession \<Rightarrow> nat" where
  "wanted s =
     (case state s of
        HEADER_PENDING \<Rightarrow> unat (4 - header_bytes_received s)
      | BODY_PENDING \<Rightarrow> unat (ucast (expected_size s) - bytes_received s)
      | _ \<Rightarrow> 0)"

fun feed ::
  "(InferenceTask \<Rightarrow> 'q \<Rightarrow> (bool \<times> 'q) call) \<Rightarrow> net \<Rightarrow> int \<Rightarrow> nat list \<Rightarrow> byte list \<times> 'q TCPServer \<Rightarrow>
   byte list \<times> 'q TCPServer" where
  "feed push net fd [] (stream, srv) = (stream, srv)"
| "feed push net fd (k # ks) (stream, srv) =
     (let s = session_of srv fd; len = min (Suc k) (wanted s)
      in if len = 0 \<or> stream = [] then (stream, srv)
         else feed push net fd ks
                (drop len stream,
                 snd (handle_client_data push
                   (net\<lparr>recv_ret := (\<lambda>fd n. Received (take (min (Suc k) n) stream))\<rparr>) fd srv)))"

text \<open>A session that has read \<open>c\<close> bytes of a request with the given body, and nothing else.\<close>

definition has_read :: "byte list \<Rightarrow> nat \<Rightarrow> ClientSession \<Rightarrow> bool" where
  "has_read body c s \<longleftrightarrow>
     session_ok s \<and>
     (if c < 4
      then state s = HEADER_PENDING \<and> unat (header_bytes_received s) = c \<and>
           take c (header_buffer s) = take c (be32 (of_nat (length body)))
      else state s = BODY_PENDING \<and> unat (expected_size s) = length body \<and>
           unat (bytes_received s) = c - 4 \<and> take (c - 4) (body_buffer s) = take (c - 4) body)"

lemma has_read_wanted:
  assumes "has_read body c s" "c < 4 + length body"
  shows "wanted s = (if c < 4 then 4 - c else 4 + length body - c)"
proof (cases "c < 4")
  case True
  then have "state s = HEADER_PENDING" "unat (header_bytes_received s) = c"
    using assms(1) by (simp_all add: has_read_def)
  then show ?thesis
    using True by (simp add: wanted_def unat_diff_size_t)
next
  case False
  then have "state s = BODY_PENDING" "unat (expected_size s) = length body" "unat (bytes_received s) = c - 4"
    using assms(1) by (simp_all add: has_read_def)
  then show ?thesis
    using False assms(2) by (simp add: wanted_def unat_diff_size_t)
qed

lemma take_more: "take (c + j) xs = take c xs @ take j (drop c xs)"
  by (simp add: take_add)

lemma header_step_reads:
  assumes rd: "has_read body c s" and n: "0 < length body" "length body < 4294967296"
    and d: "0 < length d" "c + length d \<le> 4"
      "take c (be32 (of_nat (length body))) @ d = take (c + length d) (be32 (of_nat (length body)))"
  shows "has_read body (c + length d) (header_step d s)"
proof -
  let ?h = "be32 (of_nat (length body))"
  have c: "c < 4"
    using d(1,2) by linarith
  then have s: "session_ok s" "state s = HEADER_PENDING" "unat (header_bytes_received s) = c"
      "take c (header_buffer s) = take c ?h" "body_buffer s = []" "bytes_received s = 0"
    using rd by (simp_all add: has_read_def session_ok_def)
  have le: "length d \<le> unat (4 - header_bytes_received s)"
    using s(3) d(2) c by (subst unat_diff_size_t) simp_all
  note cnt = header_count [OF s(1,2) le]
  have ok: "session_ok (header_step d s)"
    by (rule header_step_ok [OF s(1,2) le])
  let ?buf = "write_at (unat (header_bytes_received s)) d (header_buffer s)"
  have buf: "take (c + length d) ?buf = take (c + length d) ?h"
    using take_write_at [of c d "header_buffer s"] cnt(2,3) s(3,4) d(3) by simp
  show ?thesis
  proof (cases "c + length d = 4")
    case True
    then have "?buf = ?h"
      using buf cnt(2,3) by simp
    moreover have "unat (of_nat (length body) :: uint32) = length body"
      using n(2) by (simp add: unat_of_nat take_bit_nat_eq_self)
    moreover have four: "header_bytes_received s + of_nat (length d) = 4"
      using cnt(1) True s(3) by (simp add: eq_4_iff)
    ultimately have "header_step d s =
        s\<lparr>header_buffer := ?h, header_bytes_received := 4, state := BODY_PENDING,
          expected_size := of_nat (length body), body_buffer := resize (length body) []\<rparr>"
      using s(5) by (simp add: header_step_def Let_def ntohl_be32)
    then show ?thesis
      using ok True s(6) \<open>unat (of_nat (length body) :: uint32) = length body\<close> by (simp add: has_read_def)
  next
    case False
    then have "header_bytes_received s + of_nat (length d) \<noteq> 4"
      using cnt(1) s(3) by (simp add: eq_4_iff)
    then have "header_step d s =
        s\<lparr>header_buffer := ?buf, header_bytes_received := header_bytes_received s + of_nat (length d)\<rparr>"
      by (simp add: header_step_def Let_def)
    then show ?thesis
      using ok buf cnt(1) s(2,3) d(2) False by (simp add: has_read_def)
  qed
qed

lemma body_step_reads:
  assumes rd: "has_read body (4 + c) s" and n: "0 < length body"
    and d: "0 < length d" "c + length d \<le> length body" "take c body @ d = take (c + length d) body"
  shows "unat (bytes_received (body_step d s)) = c + length d"
    "take (c + length d) (body_buffer (body_step d s)) = take (c + length d) body"
    "length (body_buffer (body_step d s)) = length body"
    "c + length d < length body \<Longrightarrow> has_read body (4 + (c + length d)) (body_step d s)"
proof -
  have s: "session_ok s" "state s = BODY_PENDING" "unat (expected_size s) = length body"
      "unat (bytes_received s) = c" "take c (body_buffer s) = take c body"
    using rd by (simp_all add: has_read_def)
  have b: "length (body_buffer s) = length body"
    using s(1-3) by (simp add: session_ok_def)
  then have ne: "body_buffer s \<noteq> []"
    using n by auto
  have le: "length d \<le> unat (ucast (expected_size s) - bytes_received s)"
    using s(3,4) d by (subst unat_diff_size_t) simp_all
  note cnt = body_count [OF s(1,2) ne le]
  show 1: "unat (bytes_received (body_step d s)) = c + length d"
    using cnt(1) s(4) by (simp add: body_step_def)
  show 2: "take (c + length d) (body_buffer (body_step d s)) = take (c + length d) body"
    using take_write_at [of c d "body_buffer s"] b s(4,5) d(2,3) by (simp add: body_step_def)
  show "length (body_buffer (body_step d s)) = length body"
    using b d(2) s(4) by (simp add: body_step_def)
  show "has_read body (4 + (c + length d)) (body_step d s)" if "c + length d < length body"
  proof -
    have "bytes_received (body_step d s) \<noteq> ucast (expected_size s)"
      using 1 that s(3) by (simp add: eq_ucast_iff)
    then have "session_ok (body_step d s)"
      by (rule body_step_ok [OF s(1,2) ne le])
    then show ?thesis
      using 1 2 s(2,3) by (simp add: has_read_def) (simp add: body_step_def)
  qed
qed

lemma client_data_header:
  assumes "state (session_of srv fd) = HEADER_PENDING" "recv_ret net fd (wanted (session_of srv fd)) = Received d"
  shows "snd (handle_client_data push net fd srv) = put_session fd (header_step d (session_of srv fd)) srv"
proof -
  have "recv_ret net fd (unat (4 - header_bytes_received (session_of srv fd))) = Received d"
    using assms by (simp add: wanted_def)
  then show ?thesis
    using assms(1) by (simp add: handle_client_data_def Let_def process_header_Received)
qed

lemma client_data_body:
  assumes "state (session_of srv fd) = BODY_PENDING" "body_buffer (session_of srv fd) \<noteq> []"
    "recv_ret net fd (wanted (session_of srv fd)) = Received d"
  shows "snd (handle_client_data push net fd srv) =
    (let s1 = body_step d (session_of srv fd)
     in if bytes_received s1 = ucast (expected_size s1)
        then put_session fd (s1\<lparr>body_buffer := [], state := INFERENCE_PENDING\<rparr>)
               (srv\<lparr>trace_id_gen := trace_id_gen srv + 1,
                    srv_tasks := push_task push (new_task fd (body_buffer s1) (srv_pre srv) (srv_post srv)
                      (Some (new_trace (trace_id_gen srv) (now net)))) (srv_tasks srv)\<rparr>)
        else put_session fd s1 srv)"
proof -
  have r: "recv_ret net fd (unat (ucast (expected_size (session_of srv fd)) - bytes_received (session_of srv fd))) = Received d"
    using assms by (simp add: wanted_def)
  have "put_session fd (s :: ClientSession) (put_session fd (session_of srv fd) srv) = put_session fd s srv" for s
    by simp
  then show ?thesis
    using assms(1,2) r
    by (simp add: handle_client_data_def process_body_Received Let_def finalize_put)
qed

text \<open>What the end of a request does to the server: the task is offered, the session waits.\<close>

definition request_read :: "(InferenceTask \<Rightarrow> 'q \<Rightarrow> (bool \<times> 'q) call) \<Rightarrow> net \<Rightarrow> int \<Rightarrow> byte list \<Rightarrow>
    'q TCPServer \<Rightarrow> 'q TCPServer \<Rightarrow> bool" where
  "request_read push net fd body srv srv' \<longleftrightarrow>
     (\<exists>s. state s = INFERENCE_PENDING \<and> body_buffer s = [] \<and>
        srv' = put_session fd s
          (srv\<lparr>trace_id_gen := trace_id_gen srv + 1,
               srv_tasks := push_task push (new_task fd body (srv_pre srv) (srv_post srv)
                 (Some (new_trace (trace_id_gen srv) (now net)))) (srv_tasks srv)\<rparr>))"

lemma request_read_after_put:
  "request_read push net fd body (put_session fd s srv) srv' \<Longrightarrow> request_read push net fd body srv srv'"
proof -
  assume "request_read push net fd body (put_session fd s srv) srv'"
  then obtain s' where s': "state s' = INFERENCE_PENDING" "body_buffer s' = []"
      "srv' = put_session fd s' ((put_session fd s srv)\<lparr>trace_id_gen := trace_id_gen srv + 1,
         srv_tasks := push_task push (new_task fd body (srv_pre srv) (srv_post srv)
           (Some (new_trace (trace_id_gen srv) (now net)))) (srv_tasks srv)\<rparr>)"
    by (auto simp: request_read_def)
  show ?thesis
    unfolding request_read_def
    by (intro exI [of _ s'] conjI s'(1,2)) (simp add: s'(3) put_session_def)
qed

lemma feed_idle: "wanted (session_of srv fd) = 0 \<Longrightarrow> feed push net fd ks (stream, srv) = (stream, srv)"
  by (cases ks) simp_all

text \<open>One delivery: either a longer prefix of the request has been read, or all of it.\<close>

text \<open>A chunk that arrives while the header, or the body, is being read.\<close>

lemma header_chunk:
  fixes body :: "byte list"
  assumes rd: "has_read body c (session_of srv fd)" and n: "0 < length body" "length body < 4294967296"
    and d: "c < 4" "0 < length d" "c + length d \<le> 4" "take c (be32 (of_nat (length body))) @ d = take (c + length d) (be32 (of_nat (length body)))"
    and recv: "recv_ret net fd (wanted (session_of srv fd)) = Received d"
  shows "\<exists>s1. snd (handle_client_data push net fd srv) = put_session fd s1 srv \<and> has_read body (c + length d) s1"
proof (intro exI conjI)
  have "state (session_of srv fd) = HEADER_PENDING"
    using rd d(1) by (simp add: has_read_def)
  then show "snd (handle_client_data push net fd srv) = put_session fd (header_step d (session_of srv fd)) srv"
    by (rule client_data_header [OF _ recv])
  show "has_read body (c + length d) (header_step d (session_of srv fd))"
    by (rule header_step_reads [OF rd n]) (use d in simp_all)
qed

lemma body_chunk:
  fixes body :: "byte list"
  assumes rd: "has_read body (4 + b) (session_of srv fd)" and n: "0 < length body"
    and d: "0 < length d" "b + length d \<le> length body" "take b body @ d = take (b + length d) body"
    and recv: "recv_ret (net\<lparr>recv_ret := rr\<rparr>) fd (wanted (session_of srv fd)) = Received d"
    and srv1_def: "srv1 = snd (handle_client_data push (net\<lparr>recv_ret := rr\<rparr>) fd srv)"
  shows "b + length d < length body \<and> (\<exists>s1. srv1 = put_session fd s1 srv \<and> has_read body (4 + b + length d) s1) \<or>
    b + length d = length body \<and> request_read push net fd body srv srv1"
proof -
  let ?s = "session_of srv fd"
  have st: "state ?s = BODY_PENDING" "unat (expected_size ?s) = length body"
    using rd by (simp_all add: has_read_def)
  then have ne: "body_buffer ?s \<noteq> []"
    using rd n by (auto simp: has_read_def session_ok_def)
  note reads = body_step_reads [OF rd n d]
  have full: "bytes_received (body_step d ?s) = ucast (expected_size ?s) \<longleftrightarrow> b + length d = length body"
    using reads(1) st(2) by (simp add: eq_ucast_iff)
  note data = client_data_body [OF st(1) ne recv, of push, unfolded Let_def, folded srv1_def]
  show ?thesis
  proof (cases "b + length d = length body")
    case True
    then have "body_buffer (body_step d ?s) = body"
      using reads(2,3) by simp
    then have "request_read push net fd body srv srv1"
      unfolding request_read_def data using True full
      by (intro exI [of _ "(body_step d ?s)\<lparr>body_buffer := [], state := INFERENCE_PENDING\<rparr>"])
        (simp add: body_step_def)
    then show ?thesis
      using True by blast
  next
    case False
    then show ?thesis
      using reads(4) d(2) data full by (auto simp: body_step_def add.assoc)
  qed
qed

lemma feed_step:
  fixes body :: "byte list"
  defines "msg \<equiv> be32 (of_nat (length body)) @ body"
  assumes rd: "has_read body c (session_of srv fd)" and c: "c < length msg"
    and n: "0 < length body" "length body < 4294967296"
  shows "\<exists>c' srv1. c < c' \<and> c' \<le> length msg \<and>
    feed push net fd (k # ks) (drop c msg @ rest, srv) = feed push net fd ks (drop c' msg @ rest, srv1) \<and>
    (c' < length msg \<and> (\<exists>s1. srv1 = put_session fd s1 srv \<and> has_read body c' s1) \<or>
     c' = length msg \<and> request_read push net fd body srv srv1)"
proof -
  let ?s = "session_of srv fd" and ?h = "be32 (of_nat (length body))"
  define len where "len = min (Suc k) (wanted ?s)"
  define d where "d = take len (drop c msg)"
  let ?net = "net\<lparr>recv_ret := (\<lambda>fd n. Received (take (min (Suc k) n) (drop c msg @ rest)))\<rparr>"
  have lm: "length msg = 4 + length body"
    by (simp add: msg_def)
  have w: "wanted ?s = (if c < 4 then 4 - c else 4 + length body - c)"
    using has_read_wanted [OF rd] c lm by simp
  have len: "0 < len" "len \<le> wanted ?s" "c + len \<le> length msg"
    using w c lm by (auto simp: len_def)
  have ld: "length d = len" and recv: "recv_ret ?net fd (wanted ?s) = Received d"
    using len(3) by (simp_all add: d_def len_def)
  have drops: "drop len (drop c msg @ rest) = drop (c + len) msg @ rest"
    using len(3) by (simp add: add.commute)
  have "\<not> (len = 0 \<or> drop c msg @ rest = [])"
    using c len(1) by simp
  then have step: "feed push net fd (k # ks) (drop c msg @ rest, srv) =
      feed push net fd ks (drop (c + len) msg @ rest, snd (handle_client_data push ?net fd srv))"
    unfolding feed.simps Let_def len_def [symmetric] drops by (rule if_not_P)
  have "c + len < length msg \<and> (\<exists>s1. snd (handle_client_data push ?net fd srv) = put_session fd s1 srv \<and> has_read body (c + len) s1) \<or>
      c + len = length msg \<and> request_read push net fd body srv (snd (handle_client_data push ?net fd srv))"
  proof (cases "c < 4")
    case True
    then have "c + length d \<le> 4" "take c ?h @ d = take (c + length d) ?h" "c + len < length msg"
      using ld len(2) w lm n(1) by (simp_all add: d_def msg_def take_add del: length_greater_0_conv)
    then show ?thesis
      using header_chunk [OF rd n True _ _ _ recv, of push] ld len(1) by auto
  next
    case False
    then obtain b where cb: "c = 4 + b"
      by (metis le_Suc_ex not_le)
    have "0 < length d" "b + length d \<le> length body" "take b body @ d = take (b + length d) body"
      using ld len lm cb by (simp_all add: d_def msg_def take_add)
    from body_chunk [OF rd [unfolded cb] n(1) this recv refl] show ?thesis
      using ld lm cb by (simp add: add.assoc)
  qed
  then show ?thesis
    using len(1,3) by (intro exI [of _ "c + len"] exI [of _ "snd (handle_client_data push ?net fd srv)"] conjI step) auto
qed


lemma feed_reads_request:
  fixes body :: "byte list"
  defines "msg \<equiv> be32 (of_nat (length body)) @ body"
  assumes n: "0 < length body" "length body < 4294967296"
  shows "has_read body c (session_of srv fd) \<Longrightarrow> c < length msg \<Longrightarrow> length msg - c \<le> length ks \<Longrightarrow>
    \<exists>srv'. feed push net fd ks (drop c msg @ rest, srv) = (rest, srv') \<and> request_read push net fd body srv srv'"
proof (induction ks arbitrary: c srv)
  case (Cons k ks)
  obtain c' srv1 where c': "c < c'" "c' \<le> length msg"
      "feed push net fd (k # ks) (drop c msg @ rest, srv) = feed push net fd ks (drop c' msg @ rest, srv1)"
      "c' < length msg \<and> (\<exists>s1. srv1 = put_session fd s1 srv \<and> has_read body c' s1) \<or>
       c' = length msg \<and> request_read push net fd body srv srv1"
    using feed_step [OF Cons.prems(1) Cons.prems(2) [unfolded msg_def] n, of push net k ks rest]
    unfolding msg_def by blast
  from c'(4) show ?case
  proof (elim disjE conjE exE)
    fix s1 assume s1: "c' < length msg" "srv1 = put_session fd s1 srv" "has_read body c' s1"
    have "length msg - c' \<le> length ks"
      using Cons.prems(3) c'(1) by simp
    then obtain srv' where "feed push net fd ks (drop c' msg @ rest, srv1) = (rest, srv')"
        "request_read push net fd body srv1 srv'"
      using Cons.IH [of c' srv1] s1 by auto
    then show ?thesis
      using c'(3) s1(2) request_read_after_put by auto
  next
    assume fin: "c' = length msg" "request_read push net fd body srv srv1"
    then have "wanted (session_of srv1 fd) = 0"
      by (auto simp: request_read_def wanted_def)
    then show ?thesis
      using c'(3) fin feed_idle [of srv1 fd push net ks rest] by auto
  qed
qed simp

text \<open>
  C6: Framing. A client sends a request, its length in four big-endian bytes and then a
  non-empty body of less than 2^32 bytes, followed by anything. However the network cuts the
  stream into pieces, once the handler of readable data has run often enough the server has
  taken exactly the request off the stream, and nothing of what follows; exactly one task has
  been offered to the queue, with the body as its data and the connection as its client; and
  the session waits for the answer. No other connection is affected.
\<close>

theorem request_framing:
  assumes "session_ok (session_of srv fd)" "state (session_of srv fd) = HEADER_PENDING"
    "header_bytes_received (session_of srv fd) = 0"
    and "0 < length body" "length body < 2 ^ 32" "4 + length body \<le> length ks"
  shows "\<exists>srv'. feed push net fd ks (be32 (of_nat (length body)) @ body @ rest, srv) = (rest, srv') \<and>
    state (session_of srv' fd) = INFERENCE_PENDING \<and>
    srv_tasks srv' = push_task push (new_task fd body (srv_pre srv) (srv_post srv)
      (Some (new_trace (trace_id_gen srv) (now net)))) (srv_tasks srv) \<and>
    (\<forall>fd'. fd' \<noteq> fd \<longrightarrow> sessions srv' fd' = sessions srv fd') \<and> pollfds srv' = pollfds srv"
proof -
  have "has_read body 0 (session_of srv fd)"
    using assms(1-3) by (simp add: has_read_def)
  then obtain srv' where f: "feed push net fd ks (drop 0 (be32 (of_nat (length body)) @ body) @ rest, srv) = (rest, srv')"
      "request_read push net fd body srv srv'"
    using feed_reads_request [of body 0 srv fd ks push net rest] assms(4-6) by auto
  from f(2) show ?thesis
    using f(1) by (intro exI [of _ srv']) (auto simp: request_read_def)
qed

definition sample_net :: net where
  "sample_net =
     \<lparr>accept_ret = -1, recv_ret = (\<lambda>fd n. RecvFailed True), send_ret = (\<lambda>fd n. (int n, False)), poll_count = 1,
      poll_revents = (\<lambda>fd. POLLIN), stale_revents = POLLIN, now = 0\<rparr>"

definition sample_server :: "InferenceTask list TCPServer" where
  "sample_server =
     \<lparr>sockfd = 3, pollfds = [\<lparr>pfd_fd = 3, pfd_events = POLLIN, pfd_revents = 0\<rparr>,
        \<lparr>pfd_fd = 7, pfd_events = POLLIN, pfd_revents = 0\<rparr>],
      srv_pre = None, srv_post = None, srv_tasks = [], srv_results = rq_new,
      sessions = [7 \<mapsto> new_session], trace_id_gen = 0, captured = [], closed_fds = [], wire = []\<rparr>"

definition list_push :: "InferenceTask \<Rightarrow> InferenceTask list \<Rightarrow> (bool \<times> InferenceTask list) call" where
  "list_push t q = Returns (True, q @ [t])"

theorem request_framing_witness:
  "\<exists>srv'. feed list_push sample_net 7 [1, 0, 7, 9, 0, 0] (be32 2 @ [65, 66] @ [0], sample_server) = ([0], srv') \<and>
    map task_data (srv_tasks srv') = [[65, 66]]"
proof -
  have "session_of sample_server 7 = new_session"
    by (simp add: sample_server_def session_of_def)
  then obtain srv' where "feed list_push sample_net 7 [1, 0, 7, 9, 0, 0] (be32 (of_nat (length [65, 66 :: byte])) @ [65, 66] @ [0], sample_server) = ([0], srv')"
    "srv_tasks srv' = push_task list_push (new_task 7 [65, 66] (srv_pre sample_server) (srv_post sample_server)
       (Some (new_trace (trace_id_gen sample_server) (now sample_net)))) (srv_tasks sample_server)"
    using request_framing [of sample_server 7 "[65, 66]" "[1, 0, 7, 9, 0, 0]" list_push sample_net "[0]"]
    by (auto simp: new_session_def session_ok_def)
  then show ?thesis
    by (intro exI [of _ srv']) (simp add: push_task_def list_push_def sample_server_def new_task_def)
qed

end
