(* ===== verification/Config.thy ===== *)
theory Config
  imports Lumen_Core
begin

section \<open>Configuration\<close>

text \<open>
  \<^verbatim>\<open>ConfigManager\<close> and the part of the vendored JSON library it calls: \<^verbatim>\<open>contains\<close>,
  \<^verbatim>\<open>value\<close> with a string default and the conversions to \<^verbatim>\<open>size_t\<close> and \<^verbatim>\<open>std::string\<close>, with
  the exceptions they throw. The parser and the printer of the library are parameters, and so
  is the conversion of a floating-point number to \<^verbatim>\<open>size_t\<close>. A statement that throws keeps the
  assignments made before it: a configuration step returns the configuration it leaves and
  the exception, if any.
\<close>

subsection \<open>JSON values\<close>

datatype json =
    JNull
  | JBool bool
  | JUnsigned size_t
  | JInteger size_t
  | JFloat double
  | JString string
  | JArray "json list"
  | JObject "(string \<times> json) list"

text \<open>\<open>JUnsigned\<close> and \<open>JInteger\<close> hold the 64 bits of an unsigned and a signed number.\<close>

datatype json_error =
    ParseError
  | NotANumber
  | NotAString
  | NotAnObject

fun json_find :: "json \<Rightarrow> string \<Rightarrow> json option" where
  "json_find (JObject kvs) k = map_of kvs k"
| "json_find _ k = None"

definition json_contains :: "json \<Rightarrow> string \<Rightarrow> bool" where
  "json_contains j k \<longleftrightarrow> json_find j k \<noteq> None"

fun json_get_size :: "(double \<Rightarrow> size_t) \<Rightarrow> json \<Rightarrow> json_error + size_t" where
  "json_get_size fc (JUnsigned n) = Inr n"
| "json_get_size fc (JInteger n) = Inr n"
| "json_get_size fc (JFloat d) = Inr (fc d)"
| "json_get_size fc _ = Inl NotANumber"

fun json_get_string :: "json \<Rightarrow> json_error + string" where
  "json_get_string (JString s) = Inr s"
| "json_get_string _ = Inl NotAString"

fun json_value :: "json \<Rightarrow> string \<Rightarrow> string \<Rightarrow> json_error + string" where
  "json_value (JObject kvs) k d =
     (case map_of kvs k of Some v \<Rightarrow> json_get_string v | None \<Rightarrow> Inr d)"
| "json_value _ k d = Inl NotAnObject"


subsection \<open>The configuration\<close>

datatype QueueType = NAIVE_MUTEX | BATCHED | SPSC | MPMC
datatype AllocatorType = STANDARD | LUMEN_ARENA
datatype ProcessorType = IMAGENET | RAW_TENSOR | OBJECT_DETECTION

record ConfigManager =
  m_queue_type :: QueueType
  m_alloc_type :: AllocatorType
  m_proc_type :: ProcessorType
  m_telemetry_path :: string
  m_model_path :: string
  m_metadata :: json
  m_thread_count :: size_t
  m_batch_size :: size_t

definition config_defaults :: ConfigManager where
  "config_defaults =
     \<lparr>m_queue_type = NAIVE_MUTEX, m_alloc_type = STANDARD, m_proc_type = IMAGENET,
      m_telemetry_path = ''../results/lumen_baseline.csv'',
      m_model_path = ''../models/squeezenet1.1-7.onnx'',
      m_metadata = JObject [(''label_path'', JString ''../models/labels.txt'')],
      m_thread_count = 0, m_batch_size = 1\<rparr>"

definition get_metadata_extra :: "string \<Rightarrow> ConfigManager \<Rightarrow> json_error + string" where
  "get_metadata_extra key c =
     (case json_find (m_metadata c) key of
        Some v \<Rightarrow> json_get_string v
      | None \<Rightarrow> Inr '''')"

definition set_queue_type :: "QueueType \<Rightarrow> ConfigManager \<Rightarrow> ConfigManager" where
  "set_queue_type t c = c\<lparr>m_queue_type := t\<rparr>"

definition set_alloc_type :: "AllocatorType \<Rightarrow> ConfigManager \<Rightarrow> ConfigManager" where
  "set_alloc_type t c = c\<lparr>m_alloc_type := t\<rparr>"

definition set_telemetry_path :: "string \<Rightarrow> ConfigManager \<Rightarrow> ConfigManager" where
  "set_telemetry_path p c = c\<lparr>m_telemetry_path := p\<rparr>"

definition set_model_path :: "string \<Rightarrow> ConfigManager \<Rightarrow> ConfigManager" where
  "set_model_path p c = c\<lparr>m_model_path := p\<rparr>"

definition set_thread_count :: "size_t \<Rightarrow> ConfigManager \<Rightarrow> ConfigManager" where
  "set_thread_count n c = c\<lparr>m_thread_count := n\<rparr>"

definition set_batch_size :: "size_t \<Rightarrow> ConfigManager \<Rightarrow> ConfigManager" where
  "set_batch_size n c = c\<lparr>m_batch_size := n\<rparr>"


subsection \<open>Loading a file\<close>

type_synonym config_step = "ConfigManager \<Rightarrow> ConfigManager \<times> json_error option"

definition then_step :: "config_step \<Rightarrow> config_step \<Rightarrow> config_step" where
  "then_step f g c = (case f c of (c', None) \<Rightarrow> g c' | (c', Some e) \<Rightarrow> (c', Some e))"

definition skip_step :: config_step where
  "skip_step c = (c, None)"

text \<open>\<^verbatim>\<open>if (eng.contains(k)) m_x = eng[k];\<close> for a member of type \<^verbatim>\<open>size_t\<close>.\<close>

definition assign_size ::
  "(double \<Rightarrow> size_t) \<Rightarrow> json \<Rightarrow> string \<Rightarrow> (size_t \<Rightarrow> ConfigManager \<Rightarrow> ConfigManager) \<Rightarrow> config_step" where
  "assign_size fc j k write c =
     (case json_find j k of
        None \<Rightarrow> (c, None)
      | Some v \<Rightarrow> (case json_get_size fc v of Inl e \<Rightarrow> (c, Some e) | Inr n \<Rightarrow> (write n c, None)))"

text \<open>\<^verbatim>\<open>std::string s = j.value(k, d);\<close> followed by the assignments that depend on \<open>s\<close>.\<close>

definition with_value ::
  "json \<Rightarrow> string \<Rightarrow> string \<Rightarrow> (string \<Rightarrow> ConfigManager \<Rightarrow> ConfigManager) \<Rightarrow> config_step" where
  "with_value j k d write c =
     (case json_value j k d of Inl e \<Rightarrow> (c, Some e) | Inr s \<Rightarrow> (write s c, None))"

definition choose_queue :: "string \<Rightarrow> ConfigManager \<Rightarrow> ConfigManager" where
  "choose_queue q_type c =
     (if q_type = ''spsc'' then c\<lparr>m_queue_type := SPSC, m_thread_count := 1\<rparr>
      else if q_type = ''mpmc'' then c\<lparr>m_queue_type := MPMC\<rparr>
      else if m_batch_size c > 1 then c\<lparr>m_queue_type := BATCHED\<rparr>
      else c\<lparr>m_queue_type := NAIVE_MUTEX\<rparr>)"

definition choose_allocator :: "string \<Rightarrow> ConfigManager \<Rightarrow> ConfigManager" where
  "choose_allocator a_type c =
     c\<lparr>m_alloc_type := (if a_type = ''lumen_arena'' then LUMEN_ARENA else STANDARD)\<rparr>"

definition choose_processor :: "string \<Rightarrow> ConfigManager \<Rightarrow> ConfigManager" where
  "choose_processor p_type c =
     c\<lparr>m_proc_type := (if p_type = ''raw'' then RAW_TENSOR
                        else if p_type = ''detection'' then OBJECT_DETECTION
                        else IMAGENET)\<rparr>"

definition load_engine :: "(double \<Rightarrow> size_t) \<Rightarrow> json \<Rightarrow> config_step" where
  "load_engine fc eng =
     then_step (assign_size fc eng ''thread_count'' set_thread_count)
    (then_step (assign_size fc eng ''batch_size'' set_batch_size)
    (then_step (with_value eng ''queue_type'' ''naive_mutex'' choose_queue)
    (then_step (with_value eng ''allocator_type'' ''standard'' choose_allocator)
               (with_value eng ''telemetry_csv_path'' ''lumen_baseline.csv'' set_telemetry_path))))"

definition load_metadata :: "json \<Rightarrow> config_step" where
  "load_metadata md c =
     (case json_find md ''metadata'' of None \<Rightarrow> (c, None) | Some v \<Rightarrow> (c\<lparr>m_metadata := v\<rparr>, None))"

definition load_model :: "json \<Rightarrow> config_step" where
  "load_model md =
     then_step (with_value md ''path'' '''' set_model_path)
    (then_step (with_value md ''processor_type'' ''imagenet'' choose_processor)
               (load_metadata md))"

definition load_json :: "(double \<Rightarrow> size_t) \<Rightarrow> json \<Rightarrow> config_step" where
  "load_json fc j =
     then_step (case json_find j ''engine'' of None \<Rightarrow> skip_step | Some eng \<Rightarrow> load_engine fc eng)
               (case json_find j ''model'' of None \<Rightarrow> skip_step | Some md \<Rightarrow> load_model md)"

text \<open>
  What \<^verbatim>\<open>load_from_file\<close> prints at the end is its outcome: the file was not found, it was
  loaded, or an exception was caught.
\<close>

datatype load_outcome = NotFound | Loaded | ErrorCaught json_error

definition load_from_file ::
  "(double \<Rightarrow> size_t) \<Rightarrow> (string \<Rightarrow> json option) \<Rightarrow> string option \<Rightarrow> ConfigManager \<Rightarrow>
   ConfigManager \<times> load_outcome" where
  "load_from_file fc parse file c =
     (case file of
        None \<Rightarrow> (c, NotFound)
      | Some txt \<Rightarrow>
          (case parse txt of
             None \<Rightarrow> (c, ErrorCaught ParseError)
           | Some j \<Rightarrow>
               (case load_json fc j c of
                  (c', None) \<Rightarrow> (c', Loaded)
                | (c', Some e) \<Rightarrow> (c', ErrorCaught e))))"

definition template_json :: json where
  "template_json =
     JObject
       [(''engine'',
         JObject
           [(''queue_type'', JString ''naive_mutex''),
            (''allocator_type'', JString ''standard''),
            (''thread_count'', JInteger 0),
            (''batch_size'', JInteger 1),
            (''telemetry_csv_path'', JString ''lumen_baseline.csv'')]),
        (''model'',
         JObject
           [(''path'', JString ''models/squeezenet1.1.onnx''),
            (''processor_type'', JString ''imagenet''),
            (''metadata'',
             JObject
               [(''type'', JString ''classification''),
                (''label_path'', JString ''models/synset_words.txt'')])])]"

definition save_template :: "(json \<Rightarrow> string) \<Rightarrow> bool \<Rightarrow> string option" where
  "save_template dump is_open = (if is_open then Some (dump template_json) else None)"


subsection \<open>Facts about loading\<close>

lemma then_step_simps [simp]:
  "f c = (c', None) \<Longrightarrow> then_step f g c = g c'"
  "f c = (c', Some e) \<Longrightarrow> then_step f g c = (c', Some e)"
  by (simp_all add: then_step_def)

lemmas load_defs =
  load_json_def load_engine_def load_model_def load_metadata_def assign_size_def with_value_def
  choose_queue_def choose_allocator_def choose_processor_def set_thread_count_def
  set_batch_size_def set_telemetry_path_def set_model_path_def then_step_def skip_step_def

text \<open>A pool whose queue is the single-consumer ring has one worker.\<close>

definition spsc_single :: "ConfigManager \<Rightarrow> bool" where
  "spsc_single c \<longleftrightarrow> (m_queue_type c = SPSC \<longrightarrow> m_thread_count c = 1)"

text \<open>A step that keeps a property of configurations on every path, thrown or not.\<close>

definition keeps :: "(ConfigManager \<Rightarrow> bool) \<Rightarrow> config_step \<Rightarrow> bool" where
  "keeps P f \<longleftrightarrow> (\<forall>c. P c \<longrightarrow> P (fst (f c)))"

lemma keeps_then [intro]: "keeps P f \<Longrightarrow> keeps P g \<Longrightarrow> keeps P (then_step f g)"
  by (fastforce simp: keeps_def then_step_def split: prod.splits option.splits)

lemma keeps_skip [intro]: "keeps P skip_step"
  by (simp add: keeps_def skip_step_def)

lemma keeps_value [intro]: "(\<And>s c. P c \<Longrightarrow> P (w s c)) \<Longrightarrow> keeps P (with_value j k d w)"
  by (auto simp: keeps_def with_value_def split: sum.splits)

lemma keeps_size [intro]: "(\<And>n c. P c \<Longrightarrow> P (w n c)) \<Longrightarrow> keeps P (assign_size fc j k w)"
  by (auto simp: keeps_def assign_size_def split: sum.splits option.splits)


text \<open>Loading reads the same assignments from the file again, so a second load changes nothing.\<close>

lemma fst_then_step:
  "fst (then_step f g c) = (if snd (f c) = None then fst (g (fst (f c))) else fst (f c))"
  "snd (then_step f g c) = (if snd (f c) = None then snd (g (fst (f c))) else snd (f c))"
  by (auto simp: then_step_def split: prod.splits option.splits)

lemma assign_size_cases:
  obtains "assign_size fc j k w = (\<lambda>c. (c, None))"
    | e where "assign_size fc j k w = (\<lambda>c. (c, Some e))"
    | n where "assign_size fc j k w = (\<lambda>c. (w n c, None))"
  by (cases "json_find j k"; cases "json_get_size fc (the (json_find j k))")
    (auto simp: assign_size_def fun_eq_iff)

lemma with_value_cases:
  obtains e where "with_value j k d w = (\<lambda>c. (c, Some e))"
    | s where "with_value j k d w = (\<lambda>c. (w s c, None))"
  by (cases "json_value j k d") (auto simp: with_value_def fun_eq_iff)

lemma load_metadata_cases:
  obtains "load_metadata md = (\<lambda>c. (c, None))"
    | v where "load_metadata md = (\<lambda>c. (c\<lparr>m_metadata := v\<rparr>, None))"
  by (cases "json_find md ''metadata''") (auto simp: load_metadata_def fun_eq_iff)

lemma choose_queue_again:
  "choose_queue q (set_batch_size b (set_thread_count n (choose_queue q (set_batch_size b (set_thread_count n c))))) =
     choose_queue q (set_batch_size b (set_thread_count n c))"
  "choose_queue q (set_thread_count n (choose_queue q (set_thread_count n c))) = choose_queue q (set_thread_count n c)"
  "choose_queue q (set_batch_size b (choose_queue q (set_batch_size b c))) = choose_queue q (set_batch_size b c)"
  "choose_queue q (choose_queue q c) = choose_queue q c"
  by (simp_all add: choose_queue_def set_batch_size_def set_thread_count_def)

text \<open>The allocator, the telemetry path and the model are fields of their own.\<close>

lemma later_fields_commute:
  "choose_queue q (choose_allocator a c) = choose_allocator a (choose_queue q c)"
  "choose_queue q (set_telemetry_path t c) = set_telemetry_path t (choose_queue q c)"
  "set_batch_size b (choose_allocator a c) = choose_allocator a (set_batch_size b c)"
  "set_batch_size b (set_telemetry_path t c) = set_telemetry_path t (set_batch_size b c)"
  "set_thread_count n (choose_allocator a c) = choose_allocator a (set_thread_count n c)"
  "set_thread_count n (set_telemetry_path t c) = set_telemetry_path t (set_thread_count n c)"
  "choose_allocator a (set_telemetry_path t c) = set_telemetry_path t (choose_allocator a c)"
  "choose_allocator a (choose_allocator a' c) = choose_allocator a c"
  "set_telemetry_path t (set_telemetry_path t' c) = set_telemetry_path t c"
  by (simp_all add: choose_queue_def choose_allocator_def set_telemetry_path_def set_batch_size_def
      set_thread_count_def)

lemma repeated_sizes:
  "set_batch_size b (set_thread_count n (set_batch_size b (set_thread_count n c))) = set_batch_size b (set_thread_count n c)"
  "set_thread_count n (set_batch_size b (set_thread_count n c)) = set_batch_size b (set_thread_count n c)"
  "set_thread_count n (set_thread_count n' c) = set_thread_count n c"
  "set_batch_size n (set_batch_size n' c) = set_batch_size n c"
  by (simp_all add: set_batch_size_def set_thread_count_def)

lemmas again_simps = choose_queue_again later_fields_commute repeated_sizes

lemma load_engine_again: "load_engine fc e (fst (load_engine fc e c)) = load_engine fc e c"
  unfolding load_engine_def
  by (cases rule: assign_size_cases [of fc e "''thread_count''" set_thread_count];
      cases rule: assign_size_cases [of fc e "''batch_size''" set_batch_size];
      cases rule: with_value_cases [of e "''queue_type''" "''naive_mutex''" choose_queue];
      cases rule: with_value_cases [of e "''allocator_type''" "''standard''" choose_allocator];
      cases rule: with_value_cases [of e "''telemetry_csv_path''" "''lumen_baseline.csv''" set_telemetry_path])
    (simp_all add: then_step_def again_simps)

lemma load_model_again: "load_model md (fst (load_model md c)) = load_model md c"
  unfolding load_model_def
  by (cases rule: with_value_cases [of md "''path''" "''''" set_model_path];
      cases rule: with_value_cases [of md "''processor_type''" "''imagenet''" choose_processor];
      cases rule: load_metadata_cases [of md])
    (simp_all add: then_step_def set_model_path_def choose_processor_def)

text \<open>The two sections of the file write different members.\<close>

definition model_write :: "string \<Rightarrow> ProcessorType \<Rightarrow> json \<Rightarrow> ConfigManager \<Rightarrow> ConfigManager" where
  "model_write p t v c = c\<lparr>m_model_path := p, m_proc_type := t, m_metadata := v\<rparr>"

lemma model_write_parts:
  "c = model_write (m_model_path c) (m_proc_type c) (m_metadata c) c"
  "c\<lparr>m_model_path := p\<rparr> = model_write p (m_proc_type c) (m_metadata c) c"
  "c\<lparr>m_model_path := p, m_proc_type := t\<rparr> = model_write p t (m_metadata c) c"
  "c\<lparr>m_model_path := p, m_metadata := v\<rparr> = model_write p (m_proc_type c) v c"
  "c\<lparr>m_model_path := p, m_proc_type := t, m_metadata := v\<rparr> = model_write p t v c"
  by (simp_all add: model_write_def)

lemma load_model_write: "\<exists>p t v. fst (load_model md c) = model_write p t v c"
  unfolding load_model_def
  by (cases rule: with_value_cases [of md "''path''" "''''" set_model_path];
      cases rule: with_value_cases [of md "''processor_type''" "''imagenet''" choose_processor];
      cases rule: load_metadata_cases [of md])
    (simp_all add: then_step_def set_model_path_def choose_processor_def, (metis model_write_parts)+)

lemma model_write_commute:
  "set_thread_count n (model_write p t v c) = model_write p t v (set_thread_count n c)"
  "set_batch_size b (model_write p t v c) = model_write p t v (set_batch_size b c)"
  "choose_queue q (model_write p t v c) = model_write p t v (choose_queue q c)"
  "choose_allocator a (model_write p t v c) = model_write p t v (choose_allocator a c)"
  "set_telemetry_path x (model_write p t v c) = model_write p t v (set_telemetry_path x c)"
  by (simp_all add: model_write_def choose_queue_def choose_allocator_def set_telemetry_path_def
      set_batch_size_def set_thread_count_def)

lemma load_engine_model_write:
  "load_engine fc e (model_write p t v c) =
     (model_write p t v (fst (load_engine fc e c)), snd (load_engine fc e c))"
  unfolding load_engine_def
  by (cases rule: assign_size_cases [of fc e "''thread_count''" set_thread_count];
      cases rule: assign_size_cases [of fc e "''batch_size''" set_batch_size];
      cases rule: with_value_cases [of e "''queue_type''" "''naive_mutex''" choose_queue];
      cases rule: with_value_cases [of e "''allocator_type''" "''standard''" choose_allocator];
      cases rule: with_value_cases [of e "''telemetry_csv_path''" "''lumen_baseline.csv''" set_telemetry_path])
    (simp_all add: then_step_def model_write_commute)


lemma load_json_again: "load_json fc j (fst (load_json fc j c)) = load_json fc j c"
proof -
  define E where "E = (case json_find j ''engine'' of None \<Rightarrow> skip_step | Some e \<Rightarrow> load_engine fc e)"
  define M where "M = (case json_find j ''model'' of None \<Rightarrow> skip_step | Some md \<Rightarrow> load_model md)"
  have json: "load_json fc j = then_step E M"
    by (simp add: load_json_def E_def M_def)
  have E: "E (fst (E c)) = E c" and M: "M (fst (M c)) = M c" for c
    by (simp_all add: E_def M_def skip_step_def load_engine_again load_model_again split: option.splits)
  have "\<exists>p t v. fst (M c) = model_write p t v c" for c
    using load_model_write model_write_parts(1)
    by (cases "json_find j ''model''") (force simp: M_def skip_step_def)+
  moreover have "E (model_write p t v c) = (model_write p t v (fst (E c)), snd (E c))" for p t v c
    by (simp add: E_def skip_step_def load_engine_model_write split: option.splits)
  ultimately have EM: "E (fst (M (fst (E c)))) = (fst (M (fst (E c))), snd (E c))"
    by (metis E)
  show ?thesis
  proof (cases "snd (E c)")
    case None
    then have "then_step E M (fst (M (fst (E c)))) = M (fst (E c))"
      using EM M by simp
    then show ?thesis
      using None by (cases "E c") (simp add: json)
  next
    case (Some e)
    then show ?thesis
      by (cases "E c") (use E [of c] in \<open>simp add: json\<close>)
  qed
qed

lemma keeps_load_tail:
  "keeps spsc_single (then_step (with_value e k d choose_allocator) (with_value e k' d' set_telemetry_path))"
  "keeps spsc_single (load_model md)"
  by (auto simp: load_model_def spsc_single_def choose_allocator_def set_telemetry_path_def
      set_model_path_def choose_processor_def intro!: keeps_then keeps_value)
    (auto simp: keeps_def load_metadata_def spsc_single_def split: option.splits)

lemma load_engine_spsc:
  assumes "m_queue_type c \<noteq> SPSC"
  shows "spsc_single (fst (load_engine fc e c))"
proof -
  let ?rest = "then_step (with_value e ''allocator_type'' ''standard'' choose_allocator)
    (with_value e ''telemetry_csv_path'' ''lumen_baseline.csv'' set_telemetry_path)"
  have keep: "keeps (\<lambda>c. m_queue_type c \<noteq> SPSC) (assign_size fc e k set_thread_count)"
    "keeps (\<lambda>c. m_queue_type c \<noteq> SPSC) (assign_size fc e k set_batch_size)" for k
    by (auto simp: set_thread_count_def set_batch_size_def)
  have tail: "spsc_single (fst (then_step (with_value e ''queue_type'' ''naive_mutex'' choose_queue) ?rest c))"
    if "m_queue_type c \<noteq> SPSC" for c
  proof (cases rule: with_value_cases [of e "''queue_type''" "''naive_mutex''" choose_queue])
    case (2 s)
    have "spsc_single (choose_queue s c)"
      using that by (simp add: spsc_single_def choose_queue_def)
    then show ?thesis
      using keeps_load_tail(1) 2 by (auto simp: keeps_def)
  qed (use that in \<open>simp add: spsc_single_def\<close>)
  show ?thesis
    unfolding load_engine_def
    using keep [unfolded keeps_def] tail assms by (simp add: fst_then_step spsc_single_def)
qed

lemma load_json_spsc:
  assumes "m_queue_type c \<noteq> SPSC"
  shows "spsc_single (fst (load_json fc j c))"
proof -
  have "spsc_single c"
    using assms by (simp add: spsc_single_def)
  then show ?thesis
    using load_engine_spsc [OF assms] keeps_load_tail(2)
    by (auto simp: load_json_def fst_then_step keeps_def skip_step_def split: option.splits)
qed

lemma load_from_file_json:
  "fst (load_from_file fc parse file c) =
     (case Option.bind file parse of None \<Rightarrow> c | Some j \<Rightarrow> fst (load_json fc j c))"
  by (auto simp: load_from_file_def split: option.splits prod.splits)


subsection \<open>Properties\<close>

text \<open>Whatever the configuration file holds, well-formed or not, a configuration loaded over one
  that does not use the single-consumer queue asks for exactly one worker when it selects that
  queue. In particular this holds for the defaults, which \<^verbatim>\<open>main\<close> starts from.\<close>

theorem spsc_config_single_worker:
  assumes "m_queue_type c \<noteq> SPSC"
  shows "spsc_single (fst (load_from_file fc parse file c))"
  using assms load_json_spsc [OF assms]
  by (auto simp: load_from_file_json spsc_single_def split: option.splits)

definition spsc_file :: json where
  "spsc_file = JObject [(''engine'', JObject [(''queue_type'', JString ''spsc''), (''thread_count'', JUnsigned 8)])]"

theorem spsc_config_single_worker_witness:
  "m_queue_type (fst (load_from_file (\<lambda>d. 0) (\<lambda>s. Some spsc_file) (Some '''') config_defaults)) = SPSC \<and>
   m_thread_count (fst (load_from_file (\<lambda>d. 0) (\<lambda>s. Some spsc_file) (Some '''') config_defaults)) = 1"
proof -
  let ?c = "fst (load_from_file (\<lambda>d. 0) (\<lambda>s. Some spsc_file) (Some '''') config_defaults)"
  have "m_queue_type ?c = SPSC"
    by (simp add: load_from_file_json spsc_file_def config_defaults_def load_defs)
  moreover have "spsc_single ?c"
    by (rule spsc_config_single_worker) (simp add: config_defaults_def)
  ultimately show ?thesis
    by (simp add: spsc_single_def)
qed

text \<open>Loading the same file twice is loading it once: every member and the outcome, an exception
  included, are the same.\<close>

theorem load_from_file_idempotent:
  "load_from_file fc parse file (fst (load_from_file fc parse file c)) = load_from_file fc parse file c"
proof (cases "Option.bind file parse")
  case None
  then show ?thesis
    by (cases "file") (simp_all add: load_from_file_def)
next
  case (Some j)
  then have "load_from_file fc parse file x =
      (case load_json fc j x of (y, None) \<Rightarrow> (y, Loaded) | (y, Some e) \<Rightarrow> (y, ErrorCaught e))" for x
    by (cases "file") (simp_all add: load_from_file_def)
  then show ?thesis
    using load_json_again [of fc j c]
    by (cases "load_json fc j c"; cases "snd (load_json fc j c)") simp_all
qed

text \<open>The printer writes a non-negative integer without a sign, which the parser reads as unsigned.\<close>

fun reparsed :: "json \<Rightarrow> json" where
  "reparsed (JInteger n) = (if sint n < 0 then JInteger n else JUnsigned n)"
| "reparsed (JArray js) = JArray (map reparsed js)"
| "reparsed (JObject kvs) = JObject (map (\<lambda>(k, v). (k, reparsed v)) kvs)"
| "reparsed j = j"

text \<open>C34: the template written by \<^verbatim>\<open>save_template\<close> loads without an exception, over any
  configuration, and sets every member to the value the template names. The hypothesis is the
  round trip of the JSON library's printer and parser on this document.\<close>

theorem template_round_trip:
  assumes "parse (dump template_json) = Some (reparsed template_json)"
  shows "load_from_file fc parse (save_template dump True) c =
    (\<lparr>m_queue_type = NAIVE_MUTEX, m_alloc_type = STANDARD, m_proc_type = IMAGENET,
      m_telemetry_path = ''lumen_baseline.csv'', m_model_path = ''models/squeezenet1.1.onnx'',
      m_metadata = JObject [(''type'', JString ''classification''),
                            (''label_path'', JString ''models/synset_words.txt'')],
      m_thread_count = 0, m_batch_size = 1\<rparr>, Loaded)"
  using assms by (simp add: load_from_file_def save_template_def template_json_def load_defs)

theorem template_round_trip_witness:
  "snd (load_from_file (\<lambda>d. 0) (\<lambda>s. Some (reparsed template_json)) (save_template (\<lambda>j. '''') True) config_defaults) = Loaded"
  using template_round_trip [of "\<lambda>s. Some (reparsed template_json)" "\<lambda>j. ''''" "\<lambda>d. 0" config_defaults] by simp

text \<open>An exception caught while loading does not restore the defaults. With a wrong type in a
  later member the assignments made before it stay: the message says the defaults are used,
  the engine runs with the new thread count.\<close>

theorem load_error_keeps_partial_update:
  "let j = JObject [(''engine'', JObject [(''thread_count'', JUnsigned n), (''queue_type'', JNull)])]
   in load_from_file fc (\<lambda>s. Some j) (Some txt) config_defaults =
        (config_defaults\<lparr>m_thread_count := n\<rparr>, ErrorCaught NotAString)"
  by (simp add: load_from_file_def load_defs Let_def)

text \<open>What a well-typed \<^verbatim>\<open>engine\<close> section selects. An unknown queue name is no error: it means the
  mutex queue, batched exactly when the batch size exceeds one, so the name \<^verbatim>\<open>batched\<close> alone
  does not select batching; the single-consumer queue overrides the thread count.\<close>

theorem engine_section_selects:
  "fst (load_from_file fc (\<lambda>s. Some (JObject [(''engine'',
      JObject [(''queue_type'', JString q), (''allocator_type'', JString a),
               (''thread_count'', JUnsigned n), (''batch_size'', JUnsigned b),
               (''telemetry_csv_path'', JString p)])])) (Some txt) c) =
   c\<lparr>m_queue_type := (if q = ''spsc'' then SPSC else if q = ''mpmc'' then MPMC
                       else if b > 1 then BATCHED else NAIVE_MUTEX),
     m_alloc_type := (if a = ''lumen_arena'' then LUMEN_ARENA else STANDARD),
     m_telemetry_path := p,
     m_thread_count := (if q = ''spsc'' then 1 else n),
     m_batch_size := b\<rparr>"
  by (simp add: load_from_file_def load_defs)

end
