(* ===== verification/Arena.thy ===== *)
theory Arena
  imports Lumen_Prelude
begin

unbundle bit_operations_syntax

section \<open>The arena allocator\<close>

text \<open>
  \<^verbatim>\<open>LumenArena\<close>, the bump allocator of one worker pod. An address is a 64-bit word and 0 is
  the null pointer. What the C library and the ONNX runtime answer is an argument of the
  constructor: \<^verbatim>\<open>aligned_alloc\<close> as a function from alignment and size to an address, and the
  memory descriptor that \<^verbatim>\<open>CreateMemoryInfo\<close> hands out, or none when it reports a status.
  The arithmetic is that of \<^verbatim>\<open>size_t\<close>, wrap-around included.
\<close>

type_synonym ptr = size_t

datatype ort_function = FnOrtAlloc | FnOrtFree | FnOrtInfo | FnNull

record OrtAllocator =
  ort_version :: uint32
  fn_Alloc :: ort_function
  fn_Free :: ort_function
  fn_Info :: ort_function
  fn_Reserve :: ort_function
  fn_GetStats :: ort_function

record LumenArena =
  arena_ptr :: ptr
  capacity :: size_t
  offset :: size_t
  warmup_offset :: size_t
  warmed_up :: bool
  m_ort_interface :: OrtAllocator
  m_memory_info :: ptr

datatype arena_error = FailedPreAllocate | FailedMemoryInfo

definition safety_margin :: size_t where
  "safety_margin = 1024 * 1024"

text \<open>
  The constructor's parameter has the name of the member, so the rounded size with the safety
  margin is what is asked of \<^verbatim>\<open>aligned_alloc\<close>, while the member keeps the requested value.
\<close>

definition block_size :: "size_t \<Rightarrow> size_t" where
  "block_size cap = (cap + safety_margin + 63) AND NOT 63"

text \<open>The result is the blocks the constructor has obtained and an error or the object.\<close>

definition arena_new ::
  "(size_t \<Rightarrow> size_t \<Rightarrow> ptr) \<Rightarrow> ptr option \<Rightarrow> uint32 \<Rightarrow> size_t \<Rightarrow>
   ptr list \<times> (arena_error + LumenArena)" where
  "arena_new aligned_alloc create_info api_version cap =
     (let p = aligned_alloc 64 (block_size cap)
      in if p = 0 then ([], Inl FailedPreAllocate)
         else (case create_info of
                 None \<Rightarrow> ([p], Inl FailedMemoryInfo)
               | Some info \<Rightarrow>
                   ([p], Inr \<lparr>arena_ptr = p, capacity = cap, offset = 0, warmup_offset = 0,
                              warmed_up = False,
                              m_ort_interface =
                                \<lparr>ort_version = api_version, fn_Alloc = FnOrtAlloc,
                                 fn_Free = FnOrtFree, fn_Info = FnOrtInfo,
                                 fn_Reserve = FnNull, fn_GetStats = FnNull\<rparr>,
                              m_memory_info = info\<rparr>)))"

text \<open>The destructor: the block and the descriptor it gives back, when they are not null.\<close>

definition arena_destroy :: "LumenArena \<Rightarrow> ptr list \<times> ptr list" where
  "arena_destroy a =
     (if arena_ptr a \<noteq> 0 then [arena_ptr a] else [],
      if m_memory_info a \<noteq> 0 then [m_memory_info a] else [])"

definition alloc_raw :: "size_t \<Rightarrow> size_t \<Rightarrow> LumenArena \<Rightarrow> ptr \<times> LumenArena" where
  "alloc_raw sz alignment a =
     (let effective_alignment = (if alignment < 64 then 64 else alignment);
          base_addr = arena_ptr a;
          current_addr = base_addr + offset a;
          padding = (effective_alignment - current_addr mod effective_alignment) mod effective_alignment;
          padded_size = (sz + 63) AND NOT 63
      in if offset a + padding + padded_size > capacity a then (0, a)
         else (current_addr + padding, a\<lparr>offset := offset a + (padding + padded_size)\<rparr>))"

definition arena_Alloc :: "size_t \<Rightarrow> LumenArena \<Rightarrow> ptr \<times> LumenArena" where
  "arena_Alloc sz a = alloc_raw sz 64 a"

definition arena_Free :: "ptr \<Rightarrow> LumenArena \<Rightarrow> LumenArena" where
  "arena_Free p a = a"

definition arena_GetAllocatedSize :: "LumenArena \<Rightarrow> size_t" where
  "arena_GetAllocatedSize a = offset a"

definition get_capacity :: "LumenArena \<Rightarrow> size_t" where
  "get_capacity a = capacity a"

definition alloc_typed :: "size_t \<Rightarrow> size_t \<Rightarrow> size_t \<Rightarrow> LumenArena \<Rightarrow> ptr \<times> LumenArena" where
  "alloc_typed size_of align_of n a = alloc_raw (n * size_of) align_of a"

definition arena_reset :: "LumenArena \<Rightarrow> LumenArena" where
  "arena_reset a =
     (let a1 = (if \<not> warmed_up a then a\<lparr>warmup_offset := offset a, warmed_up := True\<rparr> else a)
      in a1\<lparr>offset := warmup_offset a1\<rparr>)"


subsection \<open>The C interface handed to the ONNX runtime\<close>

text \<open>
  The runtime sees the address of the embedded \<^verbatim>\<open>OrtAllocator\<close>; \<^verbatim>\<open>FromOrt\<close> subtracts the
  offset of that member, \<open>off\<close>, which the compiler's layout fixes. Objects live in a store
  from addresses to arenas; a call through an address with no object is undefined behaviour
  and gives no result.
\<close>

type_synonym arena_store = "ptr \<rightharpoonup> LumenArena"

definition get_ort_interface :: "size_t \<Rightarrow> ptr \<Rightarrow> ptr" where
  "get_ort_interface off this = this + off"

definition from_ort :: "size_t \<Rightarrow> ptr \<Rightarrow> ptr" where
  "from_ort off ort_alloc = (if ort_alloc = 0 then 0 else ort_alloc - off)"

definition OrtAlloc :: "size_t \<Rightarrow> ptr \<Rightarrow> size_t \<Rightarrow> arena_store \<Rightarrow> (ptr \<times> arena_store) option" where
  "OrtAlloc off this sz s =
     (case s (from_ort off this) of
        None \<Rightarrow> None
      | Some a \<Rightarrow> (case alloc_raw sz 64 a of (p, a') \<Rightarrow> Some (p, s(from_ort off this \<mapsto> a'))))"

definition OrtFree :: "ptr \<Rightarrow> ptr \<Rightarrow> arena_store \<Rightarrow> arena_store" where
  "OrtFree this p s = s"

definition OrtInfo :: "size_t \<Rightarrow> ptr \<Rightarrow> arena_store \<Rightarrow> ptr option" where
  "OrtInfo off this s = map_option m_memory_info (s (from_ort off this))"


subsection \<open>Rounding up to 64 bytes\<close>

definition round_up64 :: "nat \<Rightarrow> nat" where
  "round_up64 n = (n + 63) div 64 * 64"

lemma round_up64_simps [simp]:
  "n \<le> round_up64 n" "round_up64 n < n + 64" "64 dvd round_up64 n" "round_up64 0 = 0"
  by (auto simp: round_up64_def)

lemma and_not_63: "(x :: size_t) AND - 64 = x - x mod 64"
proof -
  have "(x AND NOT 63) + (x AND 63) = (x AND NOT 63) OR (x AND 63)"
    by (rule disjunctive_add) (simp add: bit_simps)
  also have "\<dots> = x"
    by (rule bit_eqI) (auto simp: bit_simps)
  finally have "x AND NOT 63 = x - (x AND 63)"
    by (simp add: algebra_simps)
  moreover have "x AND 63 = x mod 64"
    using take_bit_eq_mask [of 6 x] by (simp add: mask_eq_exp_minus_1 take_bit_eq_mod)
  ultimately show ?thesis by simp
qed

lemma unat_and_not_63: "unat ((x :: size_t) AND - 64) = unat x div 64 * 64"
proof -
  have "unat x = unat x div 64 * 64 + unat x mod 64"
    by simp
  moreover have "unat (x - x mod 64) = unat x - unat x mod 64"
    by (subst unat_sub) (simp_all add: word_le_nat_alt unat_mod)
  ultimately show ?thesis
    unfolding and_not_63 by linarith
qed

lemma unat_padded [word_bounds]:
  "unat n + 63 < 18446744073709551616 \<Longrightarrow> unat ((n + 63 :: size_t) AND - 64) = round_up64 (unat n)"
  by (simp add: unat_and_not_63 round_up64_def unat_word_ariths)


subsection \<open>What one allocation does\<close>

text \<open>
  The invariant of an arena whose block has \<open>B\<close> bytes: the block is 64-byte aligned and does
  not wrap around the address space, the capacity is smaller than the block, and the offset
  and the warm-up offset are multiples of 64 within the capacity.
\<close>

definition arena_inv :: "nat \<Rightarrow> LumenArena \<Rightarrow> bool" where
  "arena_inv B a \<longleftrightarrow>
     arena_ptr a \<noteq> 0 \<and> 64 dvd unat (arena_ptr a) \<and>
     unat (arena_ptr a) + B \<le> 18446744073709551616 \<and> unat (capacity a) < B \<and>
     64 dvd unat (offset a) \<and> unat (offset a) \<le> unat (capacity a) \<and>
     (warmed_up a \<longrightarrow> 64 dvd unat (warmup_offset a) \<and> unat (warmup_offset a) \<le> unat (offset a))"

definition effective :: "size_t \<Rightarrow> nat" where
  "effective alignment = max 64 (unat alignment)"

definition padding_at :: "nat \<Rightarrow> nat \<Rightarrow> nat" where
  "padding_at al addr = (al - addr mod al) mod al"

text \<open>No sum of \<^verbatim>\<open>alloc_raw\<close> exceeds the range of \<^verbatim>\<open>size_t\<close>.\<close>

definition request_fits :: "size_t \<Rightarrow> size_t \<Rightarrow> LumenArena \<Rightarrow> bool" where
  "request_fits sz al a \<longleftrightarrow>
     unat (capacity a) + effective al + unat sz + 63 < 18446744073709551616"

lemma padding_at_aligned: "0 < al \<Longrightarrow> al dvd addr + padding_at al addr"
proof -
  assume "0 < al"
  then have "(addr + padding_at al addr) mod al = (addr mod al + (al - addr mod al)) mod al"
    unfolding padding_at_def by (metis mod_add_left_eq mod_add_right_eq)
  also have "\<dots> = 0"
    using \<open>0 < al\<close> by (simp add: mod_less_divisor less_imp_le)
  finally show ?thesis by (simp add: mod_eq_0_iff_dvd)
qed

lemma padding_at_less: "0 < al \<Longrightarrow> padding_at al addr < al"
  by (simp add: padding_at_def)

lemma padding_at_zero: "0 < al \<Longrightarrow> al dvd addr \<Longrightarrow> padding_at al addr = 0"
  by (simp add: padding_at_def)

lemma effective_pos [simp]: "0 < effective al" "64 \<le> effective al"
  by (simp_all add: effective_def)

lemma unat_effective: "unat (if al < 64 then 64 else al) = effective al"
  by (auto simp: effective_def word_less_nat_alt)

lemma unat_padding:
  assumes "unat eff = al" "0 < al"
  shows "unat ((eff - (c :: size_t) mod eff) mod eff) = padding_at al (unat c)"
proof -
  have "unat (eff - c mod eff) = al - unat c mod al"
    using assms by (subst unat_sub) (simp_all add: word_le_nat_alt unat_mod less_imp_le)
  then show ?thesis
    using assms by (simp add: padding_at_def unat_mod)
qed

lemma alloc_raw_cases:
  assumes inv: "arena_inv B a" and fits: "request_fits sz al a"
  defines "base \<equiv> unat (arena_ptr a) + unat (offset a)"
  defines "fill \<equiv> unat (offset a) + padding_at (effective al) base + round_up64 (unat sz)"
  shows "fill > unat (capacity a) \<and> alloc_raw sz al a = (0, a) \<or>
    fill \<le> unat (capacity a) \<and>
    (\<exists>p new. alloc_raw sz al a = (p, a\<lparr>offset := new\<rparr>) \<and> unat new = fill \<and>
             unat p = base + padding_at (effective al) base)"
proof -
  define eff where "eff = (if al < 64 then 64 else al)"
  define cur where "cur = arena_ptr a + offset a"
  define pad where "pad = (eff - cur mod eff) mod eff"
  define padded where "padded = (sz + 63) AND - 64"
  have cur: "unat cur = base"
    using inv unfolding cur_def base_def arena_inv_def by (intro unat_add_size_t) linarith
  have pad: "unat pad = padding_at (effective al) base"
    unfolding pad_def cur [symmetric] by (rule unat_padding) (simp_all add: eff_def unat_effective)
  have pad_less: "padding_at (effective al) base < effective al"
    by (simp add: padding_at_less)
  have padded: "unat padded = round_up64 (unat sz)" "unat padded < unat sz + 64"
    using fits unfolding padded_def request_fits_def by (simp_all add: unat_padded)
  have off: "unat (offset a) \<le> unat (capacity a)" "unat (arena_ptr a) + unat (capacity a) < 18446744073709551616"
    using inv unfolding arena_inv_def by linarith+
  have pp: "unat (pad + padded) = unat pad + unat padded"
    using fits pad_less padded(2) pad unfolding request_fits_def by (intro unat_add_size_t) linarith
  have fill: "unat (offset a + (pad + padded)) = fill"
    using fits pad_less padded off pad pp unfolding request_fits_def fill_def
    by (subst unat_add_size_t) linarith+
  have unfold: "alloc_raw sz al a =
      (if offset a + (pad + padded) > capacity a then (0, a)
       else (cur + pad, a\<lparr>offset := offset a + (pad + padded)\<rparr>))"
    unfolding alloc_raw_def Let_def eff_def [symmetric] cur_def [symmetric] pad_def [symmetric]
    by (simp add: padded_def add.assoc)
  show ?thesis
  proof (cases "fill > unat (capacity a)")
    case True
    then show ?thesis
      using unfold fill by (simp add: word_less_nat_alt)
  next
    case False
    have "unat (cur + pad) = base + padding_at (effective al) base"
      using False off cur pad unfolding fill_def base_def by (subst unat_add_size_t) linarith+
    then show ?thesis
      using False unfold fill by (auto simp: word_less_nat_alt)
  qed
qed

end
