(* ===== verification/Allocators.thy ===== *)
theory Allocators
  imports Arena
begin

section \<open>The allocator interface and the life of an arena\<close>

text \<open>
  \<^verbatim>\<open>ILumenAllocator\<close> as a locale with its two implementations, \<^verbatim>\<open>LumenArena\<close> and
  \<^verbatim>\<open>StandardOrtAllocator\<close>, and the blocks an arena has handed out over any sequence of
  allocations and resets: aligned, inside the slab, disjoint while they are live, and the same
  memory for every request after the warm-up.
\<close>

subsection \<open>One allocation keeps the invariant\<close>

text \<open>An alignment C++ can ask for: a power of two, so below 64 or a multiple of it.\<close>

definition valid_alignment :: "size_t \<Rightarrow> bool" where
  "valid_alignment al \<longleftrightarrow> unat al \<le> 64 \<or> 64 dvd unat al"

lemma valid_alignment_64 [simp]: "valid_alignment 64"
  by (simp add: valid_alignment_def)

lemma effective_dvd: "valid_alignment al \<Longrightarrow> 64 dvd effective al"
  by (auto simp: valid_alignment_def effective_def max_def)

lemma padding_at_dvd:
  assumes "64 dvd al" "0 < al" "64 dvd addr"
  shows "64 dvd padding_at al addr"
proof -
  have "64 dvd addr + padding_at al addr"
    using padding_at_aligned [OF assms(2)] assms(1) by (rule dvd_trans [rotated])
  then show ?thesis
    using assms(3) by (simp add: dvd_add_right_iff)
qed

text \<open>The address range of a block that was handed out, and where it lies.\<close>

type_synonym block = "nat \<times> nat"

definition in_range :: "nat \<Rightarrow> nat \<Rightarrow> block \<Rightarrow> bool" where
  "in_range lo hi b \<longleftrightarrow> lo \<le> fst b \<and> fst b + snd b \<le> hi"

lemma alloc_raw_granted:
  assumes inv: "arena_inv B a" and al: "valid_alignment al" and fits: "request_fits sz al a"
    and run: "alloc_raw sz al a = (p, a')"
  shows "p = 0 \<and> a' = a \<or>
    p \<noteq> 0 \<and> arena_inv B a' \<and> (\<exists>new. a' = a\<lparr>offset := new\<rparr>) \<and>
    effective al dvd unat p \<and>
    in_range (unat (arena_ptr a) + unat (offset a)) (unat (arena_ptr a) + unat (offset a'))
      (unat p, round_up64 (unat sz))"
proof -
  let ?b = "unat (arena_ptr a) + unat (offset a)"
  let ?pad = "padding_at (effective al) ?b"
  from alloc_raw_cases [OF inv fits] consider (full) "p = 0" "a' = a"
    | (taken) new where "a' = a\<lparr>offset := new\<rparr>" "unat p = ?b + ?pad"
        "unat new = unat (offset a) + ?pad + round_up64 (unat sz)" "unat new \<le> unat (capacity a)"
    using run by force
  then show ?thesis
  proof cases
    case taken
    have "64 dvd ?b"
      using inv by (simp add: arena_inv_def)
    then have dvd: "64 dvd unat new"
      using inv al by (simp add: taken(3) padding_at_dvd effective_dvd arena_inv_def)
    have "p \<noteq> 0"
      using taken(2) inv by (auto simp: arena_inv_def unat_eq_zero)
    moreover have "arena_inv B a'"
      using inv dvd taken(3,4) by (auto simp: taken(1) arena_inv_def)
    moreover have "effective al dvd unat p"
      using padding_at_aligned [of "effective al" ?b] taken(2) by simp
    ultimately show ?thesis
      using taken by (auto simp: in_range_def)
  qed simp
qed

lemma arena_reset_fields [simp]:
  "arena_ptr (arena_reset a) = arena_ptr a" "capacity (arena_reset a) = capacity a"
  "warmed_up (arena_reset a)"
  "warmup_offset (arena_reset a) = (if warmed_up a then warmup_offset a else offset a)"
  "offset (arena_reset a) = (if warmed_up a then warmup_offset a else offset a)"
  by (simp_all add: arena_reset_def Let_def)

lemma arena_reset_inv: "arena_inv B a \<Longrightarrow> arena_inv B (arena_reset a)"
  by (auto simp: arena_inv_def)


subsection \<open>The contract of an allocator\<close>

text \<open>
  What both implementations promise their clients: a call that returns null leaves the byte
  count alone, a call that succeeds raises it by at least the requested bytes, and \<^verbatim>\<open>Free\<close>
  never changes it. \<open>fits\<close> rules out a count past the range of \<^verbatim>\<open>size_t\<close>.
\<close>

datatype alloc_call = CallAlloc size_t | CallFree ptr

fun alloc_calls ::
  "(size_t \<Rightarrow> 's \<Rightarrow> ptr \<times> 's) \<Rightarrow> (ptr \<Rightarrow> 's \<Rightarrow> 's) \<Rightarrow> (size_t \<Rightarrow> 's \<Rightarrow> bool) \<Rightarrow> alloc_call list \<Rightarrow> 's \<Rightarrow>
   bool \<times> nat \<times> 's" where
  "alloc_calls al fr ft [] s = (True, 0, s)"
| "alloc_calls al fr ft (CallAlloc n # cs) s =
     (case al n s of (p, s') \<Rightarrow>
        (case alloc_calls al fr ft cs s' of (ok, g, s'') \<Rightarrow>
           (ft n s \<and> ok, if p = 0 then g else g + unat n, s'')))"
| "alloc_calls al fr ft (CallFree p # cs) s = alloc_calls al fr ft cs (fr p s)"

locale lumen_allocator =
  fixes alloc :: "size_t \<Rightarrow> 's \<Rightarrow> ptr \<times> 's"
    and free :: "ptr \<Rightarrow> 's \<Rightarrow> 's"
    and allocated :: "'s \<Rightarrow> size_t"
    and fits :: "size_t \<Rightarrow> 's \<Rightarrow> bool"
    and inv :: "'s \<Rightarrow> bool"
  assumes alloc_inv: "inv s \<Longrightarrow> fits n s \<Longrightarrow> alloc n s = (p, s') \<Longrightarrow> inv s'"
    and alloc_null: "inv s \<Longrightarrow> fits n s \<Longrightarrow> alloc n s = (0, s') \<Longrightarrow> allocated s' = allocated s"
    and alloc_granted: "inv s \<Longrightarrow> fits n s \<Longrightarrow> alloc n s = (p, s') \<Longrightarrow> p \<noteq> 0 \<Longrightarrow>
      unat (allocated s) + unat n \<le> unat (allocated s')"
    and free_keeps: "inv s \<Longrightarrow> inv (free p s) \<and> allocated (free p s) = allocated s"
begin

lemma calls_accounted:
  "inv s \<Longrightarrow> alloc_calls alloc free fits cs s = (True, g, s') \<Longrightarrow>
     inv s' \<and> unat (allocated s) + g \<le> unat (allocated s')"
proof (induction cs arbitrary: s g)
  case (Cons c cs)
  show ?case
  proof (cases c)
    case (CallAlloc n)
    obtain p s1 where one: "alloc n s = (p, s1)"
      by fastforce
    obtain g1 where rest: "alloc_calls alloc free fits cs s1 = (True, g1, s')" "fits n s"
        and g: "g = (if p = 0 then g1 else g1 + unat n)"
      using Cons.prems(2) CallAlloc one by (auto split: prod.splits)
    have "inv s' \<and> unat (allocated s1) + g1 \<le> unat (allocated s')"
      using Cons.IH alloc_inv Cons.prems(1) rest one by blast
    then show ?thesis
      using alloc_null [OF Cons.prems(1) rest(2)] alloc_granted [OF Cons.prems(1) rest(2) one] one g
      by (cases "p = 0") auto
  next
    case (CallFree p)
    then show ?thesis
      using Cons.IH [of "free p s"] Cons.prems free_keeps by auto
  qed
qed simp

end

definition arena_fits :: "size_t \<Rightarrow> LumenArena \<Rightarrow> bool" where
  "arena_fits n a = request_fits n 64 a"

interpretation la: lumen_allocator arena_Alloc arena_Free arena_GetAllocatedSize arena_fits "arena_inv B"
  for B
proof unfold_locales
  fix s n p s'
  assume a: "arena_inv B s" "arena_fits n s" "arena_Alloc n s = (p, s')"
  note spec = alloc_raw_granted [OF a(1) valid_alignment_64 a(2) [unfolded arena_fits_def]
      a(3) [unfolded arena_Alloc_def]]
  show "arena_inv B s'"
    using spec a(1) by auto
  show "unat (arena_GetAllocatedSize s) + unat n \<le> unat (arena_GetAllocatedSize s')" if "p \<noteq> 0"
    using spec that
    by (auto simp: in_range_def arena_GetAllocatedSize_def)
      (use round_up64_simps(1) [of "unat n"] in linarith)
next
  fix s n s'
  assume a: "arena_inv B s" "arena_fits n s" "arena_Alloc n s = (0, s')"
  then show "arena_GetAllocatedSize s' = arena_GetAllocatedSize s"
    using alloc_raw_granted [OF a(1) valid_alignment_64, of n 0 s']
    by (auto simp: arena_fits_def arena_Alloc_def)
next
  fix s p
  assume "arena_inv B s"
  then show "arena_inv B (arena_Free p s) \<and>
      arena_GetAllocatedSize (arena_Free p s) = arena_GetAllocatedSize s"
    by (simp add: arena_Free_def)
qed


subsection \<open>The standard allocator\<close>

text \<open>
  \<^verbatim>\<open>StandardOrtAllocator\<close> forwards to the default allocator of the runtime, whose state
  \<open>'h\<close> and operations are parameters, and counts the bytes it was asked for.
\<close>

record 'h StandardOrtAllocator =
  default_ort_allocator :: 'h
  current_allocated_bytes :: size_t

definition std_Alloc ::
  "(size_t \<Rightarrow> 'h \<Rightarrow> ptr \<times> 'h) \<Rightarrow> size_t \<Rightarrow> 'h StandardOrtAllocator \<Rightarrow> ptr \<times> 'h StandardOrtAllocator" where
  "std_Alloc ort_alloc sz s =
     (case ort_alloc sz (default_ort_allocator s) of
        (p, h) \<Rightarrow>
          (let s1 = s\<lparr>default_ort_allocator := h\<rparr>
           in (p, if p \<noteq> 0 then s1\<lparr>current_allocated_bytes := current_allocated_bytes s1 + sz\<rparr>
                  else s1)))"

definition std_Free ::
  "(ptr \<Rightarrow> 'h \<Rightarrow> 'h) \<Rightarrow> ptr \<Rightarrow> 'h StandardOrtAllocator \<Rightarrow> 'h StandardOrtAllocator" where
  "std_Free ort_free p s = s\<lparr>default_ort_allocator := ort_free p (default_ort_allocator s)\<rparr>"

definition std_GetAllocatedSize :: "'h StandardOrtAllocator \<Rightarrow> size_t" where
  "std_GetAllocatedSize s = current_allocated_bytes s"

definition std_fits :: "size_t \<Rightarrow> 'h StandardOrtAllocator \<Rightarrow> bool" where
  "std_fits n s \<longleftrightarrow> unat (current_allocated_bytes s) + unat n < 18446744073709551616"

definition std_any :: "'h StandardOrtAllocator \<Rightarrow> bool" where
  "std_any s = True"

interpretation sa: lumen_allocator "std_Alloc oa" "std_Free ofr" std_GetAllocatedSize std_fits std_any
  for oa ofr
  by unfold_locales
    (auto simp: std_Alloc_def std_Free_def std_GetAllocatedSize_def std_fits_def std_any_def Let_def
       unat_add_size_t split: prod.splits if_splits)


subsection \<open>The life of an arena\<close>

text \<open>
  A client of an arena allocates, frees and resets in any order. Beside the arena the model
  keeps the blocks that are live: those of the warm-up, which no reset takes back, and those
  of the request since the last reset.
\<close>

datatype arena_op = OpAlloc size_t size_t | OpFree ptr | OpReset

record arena_life =
  the_arena :: LumenArena
  warm_blocks :: "block list"
  req_blocks :: "block list"

fun arena_do :: "arena_op \<Rightarrow> arena_life \<Rightarrow> arena_life" where
  "arena_do (OpAlloc sz al) l =
     (case alloc_raw sz al (the_arena l) of (p, a') \<Rightarrow>
        if p = 0 then l\<lparr>the_arena := a'\<rparr>
        else l\<lparr>the_arena := a', req_blocks := (unat p, round_up64 (unat sz)) # req_blocks l\<rparr>)"
| "arena_do (OpFree p) l = l\<lparr>the_arena := arena_Free p (the_arena l)\<rparr>"
| "arena_do OpReset l =
     l\<lparr>the_arena := arena_reset (the_arena l),
       warm_blocks := (if warmed_up (the_arena l) then warm_blocks l else req_blocks l),
       req_blocks := []\<rparr>"

definition life_start :: "LumenArena \<Rightarrow> arena_life" where
  "life_start a = \<lparr>the_arena = a, warm_blocks = [], req_blocks = []\<rparr>"

fun op_fits :: "LumenArena \<Rightarrow> arena_op \<Rightarrow> bool" where
  "op_fits a (OpAlloc sz al) = (valid_alignment al \<and> request_fits sz al a)"
| "op_fits a _ = True"

definition disjoint_blocks :: "block list \<Rightarrow> bool" where
  "disjoint_blocks = sorted_wrt (\<lambda>b c. fst b + snd b \<le> fst c \<or> fst c + snd c \<le> fst b)"

definition req_start :: "LumenArena \<Rightarrow> nat" where
  "req_start a = unat (arena_ptr a) + (if warmed_up a then unat (warmup_offset a) else 0)"

definition life_inv :: "nat \<Rightarrow> arena_life \<Rightarrow> bool" where
  "life_inv B l \<longleftrightarrow>
     arena_inv B (the_arena l) \<and>
     (\<not> warmed_up (the_arena l) \<longrightarrow> warm_blocks l = []) \<and>
     (\<forall>b \<in> set (warm_blocks l). 64 dvd fst b \<and>
        in_range (unat (arena_ptr (the_arena l))) (req_start (the_arena l)) b) \<and>
     (\<forall>b \<in> set (req_blocks l). 64 dvd fst b \<and>
        in_range (req_start (the_arena l))
               (unat (arena_ptr (the_arena l)) + unat (offset (the_arena l))) b) \<and>
     disjoint_blocks (warm_blocks l) \<and> disjoint_blocks (req_blocks l)"

lemma disjoint_blocks_Cons [simp]:
  "disjoint_blocks (b # bs) \<longleftrightarrow>
     (\<forall>c \<in> set bs. fst b + snd b \<le> fst c \<or> fst c + snd c \<le> fst b) \<and> disjoint_blocks bs"
  by (auto simp: disjoint_blocks_def)

lemma disjoint_blocks_Nil [simp]: "disjoint_blocks []"
  by (simp add: disjoint_blocks_def)

lemma disjoint_blocks_append:
  assumes "disjoint_blocks bs" "disjoint_blocks cs" "\<forall>b \<in> set bs. in_range lo mid b"
    "\<forall>c \<in> set cs. in_range mid hi c"
  shows "disjoint_blocks (bs @ cs)"
  using assms by (induction bs) (fastforce simp: in_range_def)+

lemma in_range_mono: "in_range lo hi b \<Longrightarrow> lo' \<le> lo \<Longrightarrow> hi \<le> hi' \<Longrightarrow> in_range lo' hi' b"
  by (auto simp: in_range_def)

lemma req_start_bounds:
  "arena_inv B a \<Longrightarrow> unat (arena_ptr a) \<le> req_start a \<and>
     req_start a \<le> unat (arena_ptr a) + unat (offset a)"
  by (auto simp: req_start_def arena_inv_def)

lemma life_inv_alloc:
  assumes inv: "life_inv B l" and op: "op_fits (the_arena l) (OpAlloc sz al)"
  shows "life_inv B (arena_do (OpAlloc sz al) l)"
proof -
  let ?a = "the_arena l"
  obtain p a' where run: "alloc_raw sz al ?a = (p, a')"
    by fastforce
  have ai: "arena_inv B ?a"
    using inv by (simp add: life_inv_def)
  from alloc_raw_granted [OF ai _ _ run] op
  consider "p = 0" "a' = ?a"
    | (got) new where "p \<noteq> 0" "a' = ?a\<lparr>offset := new\<rparr>" "arena_inv B a'" "64 dvd unat p"
        "in_range (unat (arena_ptr ?a) + unat (offset ?a)) (unat (arena_ptr ?a) + unat new)
           (unat p, round_up64 (unat sz))"
    using effective_dvd [of al] dvd_trans by fastforce
  then show ?thesis
  proof cases
    case got
    let ?b = "(unat p, round_up64 (unat sz))"
    have rs: "req_start a' = req_start ?a" "arena_ptr a' = arena_ptr ?a" "offset a' = new"
        "warmed_up a' = warmed_up ?a"
      by (simp_all add: got(2) req_start_def)
    have new: "unat (offset ?a) \<le> unat new"
      using got(5) by (auto simp: in_range_def)
    have old: "in_range (req_start ?a) (unat (arena_ptr ?a) + unat (offset ?a)) c" "64 dvd fst c"
      if "c \<in> set (req_blocks l)" for c
      using inv that by (auto simp: life_inv_def)
    have "in_range (req_start ?a) (unat (arena_ptr ?a) + unat new) c" if "c \<in> set (?b # req_blocks l)" for c
      using that in_range_mono [OF got(5)] in_range_mono [OF old(1)] req_start_bounds [OF ai] new
      by (cases c) auto
    moreover have "disjoint_blocks (?b # req_blocks l)"
      using inv old got(5) by (fastforce simp: in_range_def life_inv_def)
    ultimately show ?thesis
      using inv run got(1,3,4) old rs by (auto simp: life_inv_def)
  qed (use inv run in simp)
qed

lemma life_inv_reset:
  assumes "life_inv B l"
  shows "life_inv B (arena_do OpReset l)"
  using assms arena_reset_inv [of B "the_arena l"]
  by (auto simp: life_inv_def req_start_def)

lemma arena_do_ptr [simp]:
  "arena_ptr (the_arena (arena_do op l)) = arena_ptr (the_arena l)"
  "capacity (the_arena (arena_do op l)) = capacity (the_arena l)"
  by (cases op; auto simp: alloc_raw_def arena_Free_def Let_def)+

lemma op_fits_do [simp]: "op_fits (the_arena (arena_do op l)) op' = op_fits (the_arena l) op'"
  by (cases op') (simp_all add: request_fits_def)

lemma life_inv_fold:
  "life_inv B l \<Longrightarrow> list_all (op_fits (the_arena l)) ops \<Longrightarrow> life_inv B (fold arena_do ops l)"
proof (induction ops arbitrary: l)
  case (Cons op ops)
  have "life_inv B (arena_do op l)"
    using Cons.prems life_inv_alloc life_inv_reset by (cases op) (auto simp: arena_Free_def)
  moreover have "list_all (op_fits (the_arena (arena_do op l))) ops"
    using Cons.prems(2) by (simp add: list_all_iff)
  ultimately show ?case
    using Cons.IH by simp
qed simp

lemma fold_do_ptr [simp]:
  "arena_ptr (the_arena (fold arena_do ops l)) = arena_ptr (the_arena l)"
  "capacity (the_arena (fold arena_do ops l)) = capacity (the_arena l)"
  by (induction ops arbitrary: l) simp_all

lemma unat_block_size:
  "unat cap + 1048639 < 18446744073709551616 \<Longrightarrow> unat (block_size cap) = round_up64 (unat cap + 1048576)"
  unfolding block_size_def safety_margin_def
  using unat_padded [of "cap + 1048576"] by (simp add: unat_add_size_t)

lemma arena_new_Inr:
  assumes "arena_new aa ci v cap = (bs, Inr a)"
  shows "arena_ptr a = aa 64 (block_size cap)" "arena_ptr a \<noteq> 0" "capacity a = cap"
    "offset a = 0" "\<not> warmed_up a" "bs = [arena_ptr a]"
  using assms by (auto simp: arena_new_def Let_def split: if_splits option.splits)

lemma arena_new_inv:
  assumes new: "arena_new aa ci v cap = (bs, Inr a)"
    and "64 dvd unat (aa 64 (block_size cap))"
    and "unat (aa 64 (block_size cap)) + unat (block_size cap) \<le> 18446744073709551616"
    and cap: "unat cap + 1048639 < 18446744073709551616"
  shows "arena_inv (unat (block_size cap)) a"
proof -
  have "unat cap < unat (block_size cap)"
    using unat_block_size [OF cap] round_up64_simps(1) [of "unat cap + 1048576"] by linarith
  then show ?thesis
    using arena_new_Inr [OF new] assms(2,3) by (simp add: arena_inv_def)
qed

lemma life_inv_start: "arena_inv B a \<Longrightarrow> \<not> warmed_up a \<Longrightarrow> life_inv B (life_start a)"
  by (simp add: life_inv_def life_start_def)

lemma life_inv_live:
  assumes "life_inv B l"
  shows "disjoint_blocks (warm_blocks l @ req_blocks l)"
    "\<forall>b \<in> set (warm_blocks l @ req_blocks l). 64 dvd fst b \<and>
       in_range (unat (arena_ptr (the_arena l))) (unat (arena_ptr (the_arena l)) + unat (capacity (the_arena l))) b"
proof -
  let ?a = "the_arena l" and ?lo = "unat (arena_ptr (the_arena l))"
  have ai: "arena_inv B ?a"
    using assms by (simp add: life_inv_def)
  have bounds: "?lo \<le> req_start ?a" "req_start ?a \<le> ?lo + unat (capacity ?a)"
      "unat (offset ?a) \<le> unat (capacity ?a)"
    using req_start_bounds [OF ai] ai by (auto simp: arena_inv_def)
  show "disjoint_blocks (warm_blocks l @ req_blocks l)"
    by (rule disjoint_blocks_append [of _ _ ?lo "req_start ?a" "?lo + unat (offset ?a)"])
      (use assms in \<open>auto simp: life_inv_def\<close>)
  show "\<forall>b \<in> set (warm_blocks l @ req_blocks l). 64 dvd fst b \<and> in_range ?lo (?lo + unat (capacity ?a)) b"
    using assms bounds by (fastforce simp: life_inv_def in_range_def)
qed

lemma arena_do_offset_only:
  assumes "warmed_up (the_arena l)"
  shows "warmed_up (the_arena (arena_do op l)) \<and>
    arena_reset (the_arena (arena_do op l)) = arena_reset (the_arena l)"
  using assms by (cases op) (auto simp: alloc_raw_def arena_Free_def arena_reset_def Let_def)

lemma fold_do_reset:
  "warmed_up (the_arena l) \<Longrightarrow> arena_reset (the_arena (fold arena_do ops l)) = arena_reset (the_arena l)"
  by (induction ops arbitrary: l) (simp_all add: arena_do_offset_only)

lemma offset_update_inj: "a\<lparr>offset := x\<rparr> = a\<lparr>offset := y\<rparr> \<Longrightarrow> x = y"
  by (drule arg_cong [of _ _ offset]) simp

lemma arena_granted_within_capacity:
  assumes "arena_inv B a" "alloc_calls arena_Alloc arena_Free arena_fits cs a = (True, g, a')"
  shows "unat (offset a) + g \<le> unat (capacity a')"
  using la.calls_accounted [OF assms] by (auto simp: arena_inv_def arena_GetAllocatedSize_def)

lemma std_Alloc_count:
  "std_Alloc oa n s = (p, s') \<Longrightarrow> std_fits n s \<Longrightarrow>
     unat (std_GetAllocatedSize s') = unat (std_GetAllocatedSize s) + (if p = 0 then 0 else unat n)"
  by (auto simp: std_Alloc_def std_fits_def std_GetAllocatedSize_def Let_def unat_add_size_t
      split: prod.splits if_splits)

lemma std_Free_count [simp]: "std_GetAllocatedSize (std_Free fr p s) = std_GetAllocatedSize s"
  by (simp add: std_Free_def std_GetAllocatedSize_def)


subsection \<open>Properties\<close>

text \<open>C29: one call of \<^verbatim>\<open>Alloc\<close> on a well-formed arena, for a request that stays so far below \<open>2^64\<close>
  that capacity, alignment and size cannot wrap around when added (\<^const>\<open>request_fits\<close>; a size
  that does wrap is treated below). It returns null exactly when the request, rounded up to 64 bytes, exceeds what is left of the capacity, and
  then changes nothing. Otherwise the block starts at the current end of the used part, is 64-byte
  aligned, and the used part grows by exactly the rounded size.\<close>

theorem arena_alloc_exact:
  assumes "arena_inv B a" "request_fits n 64 a"
  shows "if unat (offset a) + round_up64 (unat n) > unat (capacity a)
         then arena_Alloc n a = (0, a)
         else unat (fst (arena_Alloc n a)) = unat (arena_ptr a) + unat (offset a) \<and>
              64 dvd unat (fst (arena_Alloc n a)) \<and>
              unat (arena_GetAllocatedSize (snd (arena_Alloc n a))) =
                unat (arena_GetAllocatedSize a) + round_up64 (unat n) \<and>
              arena_inv B (snd (arena_Alloc n a))"
proof -
  have dvd: "64 dvd unat (arena_ptr a) + unat (offset a)" and "arena_ptr a \<noteq> 0"
    using assms(1) by (simp_all add: arena_inv_def)
  moreover have "padding_at (effective 64) (unat (arena_ptr a) + unat (offset a)) = 0"
    using dvd by (intro padding_at_zero) (simp_all add: effective_def)
  moreover obtain p a' where "arena_Alloc n a = (p, a')"
    by fastforce
  ultimately show ?thesis
    using alloc_raw_cases [OF assms]
      alloc_raw_granted [OF assms(1) valid_alignment_64 assms(2), of p a']
    by (auto simp: arena_Alloc_def arena_GetAllocatedSize_def unat_eq_zero dest: offset_update_inj)
qed

definition arena_example :: LumenArena where
  "arena_example =
     \<lparr>arena_ptr = 4096, capacity = 1000, offset = 128, warmup_offset = 64, warmed_up = True,
      m_ort_interface = \<lparr>ort_version = 1, fn_Alloc = FnOrtAlloc, fn_Free = FnOrtFree,
         fn_Info = FnOrtInfo, fn_Reserve = FnNull, fn_GetStats = FnNull\<rparr>,
      m_memory_info = 8\<rparr>"

lemma arena_example_inv: "arena_inv 1049600 arena_example"
  by (simp add: arena_inv_def arena_example_def)

theorem arena_alloc_exact_witness:
  "unat (fst (arena_Alloc 100 arena_example)) = 4224 \<and> arena_Alloc 900 arena_example = (0, arena_example)"
  using arena_alloc_exact [OF arena_example_inv, of 100] arena_alloc_exact [OF arena_example_inv, of 900]
  by (simp add: request_fits_def effective_def round_up64_def arena_example_def)

text \<open>C8: whatever a client does with a new arena, in any order of allocations, frees and resets, the
  blocks it may use (those of the warm-up and those since the last reset) are 64-byte aligned, lie
  inside the requested capacity of the slab, and never overlap. Each allocation must ask for an
  alignment of at most 64 or a multiple of 64, and for a size whose padding does not make the
  \<^verbatim>\<open>size_t\<close> sums wrap around (\<^const>\<open>op_fits\<close>; what a wrapping size does is shown below). The
  hypotheses on \<^verbatim>\<open>aligned_alloc\<close> are its contract: an aligned block that does not wrap around.\<close>

theorem arena_live_blocks_disjoint:
  assumes new: "arena_new aa ci v cap = (bs, Inr a)"
    and aligned: "64 dvd unat (aa 64 (block_size cap))"
    and block: "unat (aa 64 (block_size cap)) + unat (block_size cap) \<le> 18446744073709551616"
    and cap: "unat cap + 1048639 < 18446744073709551616"
    and ops: "list_all (op_fits a) ops"
  defines "l \<equiv> fold arena_do ops (life_start a)"
  shows "disjoint_blocks (warm_blocks l @ req_blocks l) \<and>
    (\<forall>b \<in> set (warm_blocks l @ req_blocks l).
       64 dvd fst b \<and> in_range (unat (arena_ptr a)) (unat (arena_ptr a) + unat cap) b)"
proof -
  have "life_inv (unat (block_size cap)) l"
    unfolding l_def using arena_new_inv [OF new aligned block cap] arena_new_Inr(5) [OF new] ops
    by (intro life_inv_fold life_inv_start) (simp_all add: life_start_def)
  from life_inv_live [OF this] show ?thesis
    using arena_new_Inr(3) [OF new] by (simp add: l_def life_start_def)
qed

theorem arena_live_blocks_disjoint_witness:
  "\<exists>bs a. arena_new (\<lambda>al n. 4096) (Some 8) 1 1000 = (bs, Inr a) \<and>
     disjoint_blocks (warm_blocks (fold arena_do [OpAlloc 100 64, OpReset, OpAlloc 8 128] (life_start a)) @
                      req_blocks (fold arena_do [OpAlloc 100 64, OpReset, OpAlloc 8 128] (life_start a)))"
proof -
  obtain a where a: "arena_new (\<lambda>al n. 4096) (Some 8) 1 1000 = ([4096], Inr a)" "capacity a = 1000"
    by (simp add: arena_new_def Let_def)
  have size: "unat (block_size 1000) = 1049600"
    using unat_block_size [of 1000] by (simp add: round_up64_def)
  have "list_all (op_fits a) [OpAlloc 100 64, OpReset, OpAlloc 8 128]"
    using a(2) by (simp add: request_fits_def effective_def valid_alignment_def)
  from arena_live_blocks_disjoint [OF a(1) _ _ _ this] show ?thesis
    using a(1) size by auto
qed

text \<open>The arena does not grow from request to request. From the state after a reset, any
  sequence of allocations, frees and resets followed by a reset gives back exactly that state:
  the same free space at the same address for every request after the first.\<close>

theorem arena_requests_reuse_memory:
  "arena_reset (the_arena (fold arena_do ops (life_start (arena_reset a)))) = arena_reset a"
  by (subst fold_do_reset) (simp_all add: life_start_def arena_reset_def Let_def)



text \<open>Allocating through the C interface the runtime is given is allocating from the arena that
  interface is embedded in, and from no other: \<^verbatim>\<open>FromOrt\<close> finds the object again.\<close>

theorem ort_interface_reaches_arena:
  assumes "s this = Some a" "get_ort_interface off this \<noteq> 0"
  shows "OrtAlloc off (get_ort_interface off this) n s =
    Some (fst (arena_Alloc n a), s(this \<mapsto> snd (arena_Alloc n a))) \<and>
    OrtInfo off (get_ort_interface off this) s = Some (m_memory_info a)"
  using assms
  by (simp add: OrtAlloc_def OrtInfo_def from_ort_def get_ort_interface_def arena_Alloc_def
      split: prod.splits)

theorem ort_interface_reaches_arena_witness:
  "OrtInfo 40 (get_ort_interface 40 16) (Map.empty(16 \<mapsto> arena_example)) = Some 8"
  using ort_interface_reaches_arena [of "Map.empty(16 \<mapsto> arena_example)" 16 arena_example 40 1]
  by (simp add: get_ort_interface_def arena_example_def)

text \<open>The byte count of the standard allocator over any sequence of calls is what it was plus
  every byte ever granted: \<^verbatim>\<open>Free\<close> subtracts nothing, so the count is not the memory in use.\<close>

theorem std_count_never_shrinks:
  assumes "alloc_calls (std_Alloc oa) (std_Free fr) std_fits cs s = (True, g, s')"
  shows "unat (std_GetAllocatedSize s') = unat (std_GetAllocatedSize s) + g"
  using assms
proof (induction cs arbitrary: s g)
  case (Cons c cs)
  show ?case
  proof (cases c)
    case (CallAlloc n)
    obtain p s1 where one: "std_Alloc oa n s = (p, s1)"
      by fastforce
    then show ?thesis
      using Cons CallAlloc std_Alloc_count [OF one] by (auto split: prod.splits if_splits)
  next
    case (CallFree p)
    then show ?thesis
      using Cons.IH [of "std_Free fr p s" g] Cons.prems by simp
  qed
qed simp

theorem std_count_never_shrinks_witness:
  "unat (std_GetAllocatedSize (snd (snd (alloc_calls (std_Alloc (\<lambda>n h. (4096, h))) (std_Free (\<lambda>p h. h))
      std_fits [CallAlloc 100, CallFree 4096] \<lparr>default_ort_allocator = (), current_allocated_bytes = 0\<rparr>)))) = 100"
  using std_count_never_shrinks [of "\<lambda>n h. (4096, h)" "\<lambda>p h. h" "[CallAlloc 100, CallFree 4096]"
      "\<lparr>default_ort_allocator = (), current_allocated_bytes = 0\<rparr>" 100
      "\<lparr>default_ort_allocator = (), current_allocated_bytes = 100\<rparr>"]
  by (simp add: std_Alloc_def std_Free_def std_GetAllocatedSize_def std_fits_def)

end
