(* ===== verification/ImageNet_Processor.thy ===== *)
theory ImageNet_Processor
  imports Lumen_Core
begin

section \<open>The ImageNet processors\<close>

text \<open>
  \<^verbatim>\<open>include/lumen/models/ImageNetProcessor.hpp\<close>: the transposition of an image from interleaved
  bytes to normalised planes, the label table, and the choice of the best class. A \<^verbatim>\<open>float\<close> is
  a real number: rounding and the special values are not modelled. Index arithmetic is that of
  \<^verbatim>\<open>size_t\<close>. An access outside a buffer is undefined behaviour and gives no result.
\<close>

subsection \<open>Preprocessing\<close>

definition mean :: "real list" where
  "mean = [0.485, 0.456, 0.406]"

definition std_dev :: "real list" where
  "std_dev = [0.229, 0.224, 0.225]"

definition normalise :: "nat \<Rightarrow> byte \<Rightarrow> real" where
  "normalise c v = (of_nat (unat v) / 255 - mean ! c) / std_dev ! c"

definition write_pixel ::
  "byte list \<Rightarrow> size_t \<Rightarrow> size_t \<Rightarrow> size_t \<Rightarrow> size_t \<Rightarrow> nat \<Rightarrow> real list option \<Rightarrow> real list option" where
  "write_pixel pixels width area y x c buf =
     (case buf of
        None \<Rightarrow> None
      | Some b \<Rightarrow>
          (let src_idx = (y * width + x) * 3 + of_nat c;
               dst_idx = of_nat c * area + (y * width + x)
           in if unat src_idx < length pixels \<and> unat dst_idx < length b
              then Some (b[unat dst_idx := normalise c (pixels ! unat src_idx)])
              else None))"

definition transform :: "byte list \<Rightarrow> real list \<Rightarrow> size_t \<Rightarrow> size_t \<Rightarrow> real list option" where
  "transform pixels tensor_buffer width height =
     (let area = width * height
      in fold (\<lambda>y. fold (\<lambda>x. fold (\<lambda>c. write_pixel pixels width area (of_nat y) (of_nat x) c)
                                   [0..<3])
                         [0..<unat width])
              [0..<unat height] (Some tensor_buffer))"


subsection \<open>The label table\<close>

text \<open>
  \<^verbatim>\<open>std::getline\<close> reads up to the next newline; at the end of the file it still yields the
  characters of a last line without one.
\<close>

fun getlines :: "string \<Rightarrow> string \<Rightarrow> string list" where
  "getlines line [] = (if line = [] then [] else [line])"
| "getlines line (ch # rest) =
     (if ch = CHR 0x0A then line # getlines [] rest else getlines (line @ [ch]) rest)"

definition ImageNetPostProcessor_new :: "string option \<Rightarrow> post_processor" where
  "ImageNetPostProcessor_new label_file =
     ImageNetPostProcessor (case label_file of
        Some txt \<Rightarrow> filter (\<lambda>line. line \<noteq> []) (getlines [] txt)
      | None \<Rightarrow> [])"


subsection \<open>Choosing the class\<close>

text \<open>\<^verbatim>\<open>std::max_element\<close>: the position of the first greatest element.\<close>

fun max_element_from :: "nat \<Rightarrow> real \<Rightarrow> nat \<Rightarrow> real list \<Rightarrow> nat" where
  "max_element_from largest v i [] = largest"
| "max_element_from largest v i (x # xs) =
     (if v < x then max_element_from i x (i + 1) xs else max_element_from largest v (i + 1) xs)"

definition max_element :: "real list \<Rightarrow> nat" where
  "max_element xs = (case xs of [] \<Rightarrow> 0 | x # rest \<Rightarrow> max_element_from 0 x 1 rest)"

text \<open>The conversion of a position or a size to \<^verbatim>\<open>int\<close>.\<close>

definition to_int :: "nat \<Rightarrow> int" where
  "to_int n = sint (of_nat n :: 32 word)"

definition sum_exp :: "real list \<Rightarrow> real \<Rightarrow> real" where
  "sum_exp xs max_val = foldl (\<lambda>s x. s + exp (x - max_val)) 0 xs"

definition confidence :: "real list \<Rightarrow> real" where
  "confidence xs = 1 / sum_exp xs (xs ! max_element xs)"

definition confidence_percent :: "real list \<Rightarrow> int" where
  "confidence_percent xs = \<lfloor>confidence xs * 100\<rfloor>"

definition empty_tensor_error :: string where
  "empty_tensor_error = ''Error: Empty or Invalid Tensor''"

text \<open>
  \<open>results\<close> is what the pointer of the call points to, absent when it is null; the response is
  absent when the label table would be indexed with a negative number.
\<close>

definition handle_results :: "post_processor \<Rightarrow> real list option \<Rightarrow> string option" where
  "handle_results pp results =
     (case results of
        None \<Rightarrow> Some empty_tensor_error
      | Some xs \<Rightarrow>
          if length xs = 0 then Some empty_tensor_error
          else (let class_id = to_int (max_element xs)
                in if class_id < to_int (length (labels pp))
                   then (if class_id < 0 then None else Some (labels pp ! nat class_id))
                   else Some ''Unknown''))"


subsection \<open>Writing a buffer by a list of positions\<close>

definition plane_value :: "byte list \<Rightarrow> nat \<Rightarrow> nat \<Rightarrow> real" where
  "plane_value pixels area d = normalise (d div area) (pixels ! ((d mod area) * 3 + d div area))"

lemma nth_fold_write:
  "i < length b \<Longrightarrow> fold (\<lambda>d b. b[d := F d]) ds b ! i = (if i \<in> set ds then F i else b ! i)"
  by (induction ds arbitrary: b) (auto simp: nth_list_update)

lemma length_fold_write [simp]: "length (fold (\<lambda>d b. b[d := F d]) ds b) = length b"
  by (induction ds arbitrary: b) simp_all

lemma fold_write_prefix:
  assumes "set ds = {..<n}" "n \<le> length b"
  shows "fold (\<lambda>d b. b[d := F d]) ds b = map F [0..<n] @ drop n b"
  by (rule nth_equalityI) (use assms in \<open>auto simp: nth_fold_write nth_append\<close>)

lemma fold_opt_write:
  assumes "\<And>d b. d \<in> set ds \<Longrightarrow> length b = n \<Longrightarrow> f d (Some b) = Some (b[g d := F (g d)])"
  shows "length b = n \<Longrightarrow> fold f ds (Some b) = Some (fold (\<lambda>d b. b[d := F d]) (map g ds) b)"
  using assms by (induction ds arbitrary: b) simp_all

lemma fold_fold_concat: "fold (\<lambda>y. fold (f y) (g y)) ys s = fold (\<lambda>(y, x). f y x) (concat (map (\<lambda>y. map (Pair y) (g y)) ys)) s"
  by (induction ys arbitrary: s) (simp_all add: fold_map o_def)

text \<open>The positions of the loops and the planes they fill.\<close>

definition loop_positions :: "nat \<Rightarrow> nat \<Rightarrow> (nat \<times> nat \<times> nat) list" where
  "loop_positions w h = concat (map (\<lambda>y. map (Pair y) (concat (map (\<lambda>x. map (Pair x) [0..<3]) [0..<w]))) [0..<h])"

definition dst_of :: "nat \<Rightarrow> nat \<Rightarrow> nat \<times> nat \<times> nat \<Rightarrow> nat" where
  "dst_of w h = (\<lambda>(y, x, c). c * (w * h) + (y * w + x))"

lemma set_loop_positions [simp]:
  "set (loop_positions w h) = {(y, x, c). y < h \<and> x < w \<and> c < 3}"
  by (force simp: loop_positions_def image_iff)

lemma row_less: "y < h \<Longrightarrow> x < w \<Longrightarrow> y * w + x < w * (h :: nat)"
proof -
  assume "y < h" "x < w"
  then have "y * w + x < Suc y * w" by simp
  also have "\<dots> \<le> h * w"
    using \<open>y < h\<close> by (intro mult_right_mono) simp_all
  finally show ?thesis by (simp add: mult.commute)
qed

lemma dst_of_image: "dst_of w h ` set (loop_positions w h) = {..<3 * (w * h)}"
proof
  show "dst_of w h ` set (loop_positions w h) \<subseteq> {..<3 * (w * h)}"
  proof
    fix d assume "d \<in> dst_of w h ` set (loop_positions w h)"
    then obtain y x c where d: "d = c * (w * h) + (y * w + x)" "y < h" "x < w" "c < 3"
      by (auto simp: dst_of_def)
    have "d < Suc c * (w * h)"
      using row_less [OF d(2,3)] d(1) by simp
    also have "\<dots> \<le> 3 * (w * h)"
      using d(4) by (intro mult_right_mono) simp_all
    finally show "d \<in> {..<3 * (w * h)}" by simp
  qed
  show "{..<3 * (w * h)} \<subseteq> dst_of w h ` set (loop_positions w h)"
  proof
    fix d assume "d \<in> {..<3 * (w * h)}"
    then have d: "d < 3 * (w * h)" by simp
    then have pos: "0 < w * h" "0 < w" by (auto intro: gr0I)
    let ?p = "d mod (w * h)"
    have "d div (w * h) < 3"
      using d pos by (simp add: div_less_iff_less_mult)
    moreover have "?p div w < h"
      using pos by (simp add: div_less_iff_less_mult mult.commute)
    moreover have "d = dst_of w h (?p div w, ?p mod w, d div (w * h))"
      by (simp add: dst_of_def div_mult_mod_eq)
    ultimately show "d \<in> dst_of w h ` set (loop_positions w h)"
      using pos by (intro image_eqI [of _ _ "(?p div w, ?p mod w, d div (w * h))"]) simp_all
  qed
qed


lemma plane_value_dst:
  assumes "y < h" "x < w"
  shows "plane_value pixels (w * h) (dst_of w h (y, x, c)) = normalise c (pixels ! ((y * w + x) * 3 + c))"
proof -
  have "(c * a + r) div a = c \<and> (c * a + r) mod a = r" if "r < a" for a r :: nat
    using that by simp
  from this [OF row_less [OF assms]]
  have "(c * (w * h) + (y * w + x)) div (w * h) = c" "(c * (w * h) + (y * w + x)) mod (w * h) = y * w + x"
    by simp_all
  then show ?thesis
    by (simp add: plane_value_def dst_of_def)
qed

lemma write_pixel_ok:
  fixes width height :: size_t
  defines "w \<equiv> unat width" and "h \<equiv> unat height"
  assumes pos: "y < h" "x < w" "c < 3"
    and bounds: "3 * (w * h) \<le> length pixels" "3 * (w * h) \<le> length b" "3 * (w * h) < 18446744073709551616"
  shows "write_pixel pixels width (width * height) (of_nat y) (of_nat x) c (Some b) =
    Some (b[dst_of w h (y, x, c) := plane_value pixels (w * h) (dst_of w h (y, x, c))])"
proof -
  let ?dst = "dst_of w h (y, x, c)"
  have wh: "width = of_nat w" "height = of_nat h"
    by (simp_all add: w_def h_def)
  have row: "y * w + x < w * h"
    by (rule row_less [OF pos(1,2)])
  moreover have "r * 3 + c < 3 * a" if "r < a" for r a
    using that pos(3) by linarith
  ultimately have src: "(y * w + x) * 3 + c < 3 * (w * h)"
    by blast
  have dst: "?dst < 3 * (w * h)"
    using dst_of_image [of w h] pos by (auto simp: image_subset_iff set_eq_subset)
  have dst_word: "unat (of_nat c * (width * height) + (of_nat y * width + of_nat x)) = ?dst"
    using unat_of_nat_size_t [of ?dst] dst bounds(3) by (simp add: wh dst_of_def)
  have src_word: "unat ((of_nat y * width + of_nat x) * 3 + of_nat c) = (y * w + x) * 3 + c"
    using unat_of_nat_size_t [of "(y * w + x) * 3 + c"] src bounds(3) by (simp add: wh)
  show ?thesis
    unfolding write_pixel_def option.case Let_def dst_word src_word plane_value_dst [OF pos(1,2)]
    using dst src bounds(1,2) by simp
qed

lemma transform_fold:
  "transform pixels b width height =
     fold (\<lambda>(y, x, c). write_pixel pixels width (width * height) (of_nat y) (of_nat x) c)
       (loop_positions (unat width) (unat height)) (Some b)"
proof -
  let ?f = "\<lambda>y x c. write_pixel pixels width (width * height) (of_nat y) (of_nat x) c"
  have inner: "(\<lambda>y. fold (\<lambda>x. fold (?f y x) [0..<3]) [0..<unat width]) =
      (\<lambda>y. fold (\<lambda>(x, c). ?f y x c) (concat (map (\<lambda>x. map (Pair x) [0..<3]) [0..<unat width])))"
    by (intro ext fold_fold_concat)
  show ?thesis
    unfolding transform_def Let_def loop_positions_def inner
    by (subst fold_fold_concat) (simp add: case_prod_unfold)
qed


subsection \<open>The first greatest element\<close>

lemma max_element_from_spec:
  assumes "max_element_from l v i xs = m" "l < i"
  shows "m = l \<and> (\<forall>x \<in> set xs. x \<le> v) \<or>
    (\<exists>k < length xs. m = i + k \<and> v < xs ! k \<and> (\<forall>x \<in> set xs. x \<le> xs ! k) \<and> (\<forall>j < k. xs ! j < xs ! k))"
  using assms
proof (induction xs arbitrary: l v i)
  case (Cons x xs)
  show ?case
  proof (cases "v < x")
    case True
    then have "max_element_from i x (i + 1) xs = m"
      using Cons.prems by simp
    from Cons.IH [OF this] consider (here) "m = i" "\<forall>y \<in> set xs. y \<le> x"
      | (later) k where "k < length xs" "m = i + 1 + k" "x < xs ! k" "\<forall>y \<in> set xs. y \<le> xs ! k"
          "\<forall>j < k. xs ! j < xs ! k"
      by auto
    then show ?thesis
    proof cases
      case here
      then show ?thesis
        using True by (intro disjI2 exI [of _ 0]) auto
    next
      case later
      then show ?thesis
        using True by (intro disjI2 exI [of _ "Suc k"]) (auto simp: nth_Cons split: nat.splits)
    qed
  next
    case False
    then have "max_element_from l v (i + 1) xs = m" "l < i + 1"
      using Cons.prems by simp_all
    from Cons.IH [OF this] show ?thesis
    proof (elim disjE exE conjE)
      fix k assume "k < length xs" "m = i + 1 + k" "v < xs ! k" "\<forall>y \<in> set xs. y \<le> xs ! k"
        "\<forall>j < k. xs ! j < xs ! k"
      then show ?thesis
        using False by (intro disjI2 exI [of _ "Suc k"]) (auto simp: nth_Cons split: nat.splits)
    qed (use False in auto)
  qed
qed simp

lemma max_element_spec:
  assumes "xs \<noteq> []"
  shows "max_element xs < length xs \<and> (\<forall>x \<in> set xs. x \<le> xs ! max_element xs) \<and>
    (\<forall>j < max_element xs. xs ! j < xs ! max_element xs)"
proof (cases xs)
  case (Cons x rest)
  from max_element_from_spec [OF refl, of 0 1 x rest] show ?thesis
    unfolding max_element_def Cons by (auto simp: nth_Cons split: nat.splits)
qed (use assms in simp)

lemma to_int_small: "n < 2147483648 \<Longrightarrow> to_int n = int n"
  using sint_sbintrunc' [of "int n", where ?'a = 32]
  by (simp add: to_int_def signed_take_bit_int_eq_self)

lemma to_int_le: "to_int n \<le> int n"
proof -
  have "to_int n \<le> uint (of_nat n :: 32 word)"
    unfolding to_int_def sint_uint signed_take_bit_int_less_eq_self_iff
    by (rule order_trans [OF _ uint_ge_0]) simp
  also have "\<dots> \<le> int n"
    by (simp add: uint_word_of_int_eq take_bit_int_less_eq_self_iff unsigned_of_nat)
  finally show ?thesis .
qed

lemma labels_new_nonempty: "l \<in> set (labels (ImageNetPostProcessor_new f)) \<Longrightarrow> l \<noteq> []"
  by (auto simp: ImageNetPostProcessor_new_def split: option.splits)

lemma sum_exp_sum: "sum_exp xs m = (\<Sum>x \<leftarrow> xs. exp (x - m))"
proof -
  have "foldl (\<lambda>s x. s + exp (x - m)) a xs = a + (\<Sum>x \<leftarrow> xs. exp (x - m))" for a
    by (induction xs arbitrary: a) simp_all
  then show ?thesis
    by (simp add: sum_exp_def)
qed

lemma transform_result:
  fixes width height :: size_t
  defines "area \<equiv> unat width * unat height"
  assumes "3 * area \<le> length pixels" "3 * area \<le> length b" "3 * area < 18446744073709551616"
  shows "transform pixels b width height =
    Some (map (\<lambda>d. normalise (d div area) (pixels ! ((d mod area) * 3 + d div area))) [0..<3 * area] @
          drop (3 * area) b)"
proof -
  let ?w = "unat width" and ?h = "unat height"
  have "transform pixels b width height =
      Some (fold (\<lambda>d b. b[d := plane_value pixels area d]) (map (dst_of ?w ?h) (loop_positions ?w ?h)) b)"
    unfolding transform_fold
  proof (rule fold_opt_write [where n = "length b"])
    fix p and b' :: "real list" assume "p \<in> set (loop_positions ?w ?h)" "length b' = length b"
    then show "(case p of (y, x, c) \<Rightarrow> write_pixel pixels width (width * height) (of_nat y) (of_nat x) c) (Some b') =
        Some (b'[dst_of ?w ?h p := plane_value pixels area (dst_of ?w ?h p)])"
      using assms write_pixel_ok [of _ height _ width _ pixels b'] by (auto simp: area_def)
  qed simp
  also have "\<dots> = Some (map (plane_value pixels area) [0..<3 * area] @ drop (3 * area) b)"
    using assms(3) by (subst fold_write_prefix [of _ "3 * area"]) (simp_all add: dst_of_image area_def del: set_loop_positions)
  finally show ?thesis
    by (simp add: plane_value_def)
qed


subsection \<open>Properties\<close>

text \<open>C31: the preprocessor stays inside both buffers and equals its planar description. For a
  \<open>width\<close> by \<open>height\<close> image whose byte count does not overflow, when both buffers hold at least
  \<open>3 * width * height\<close> elements, position \<open>d\<close> of the first \<open>3 * width * height\<close> is channel
  \<open>d div area\<close> of pixel \<open>d mod area\<close>, normalised, and everything behind is left alone.\<close>

theorem transform_planar:
  fixes width height :: size_t
  defines "area \<equiv> unat width * unat height"
  assumes "3 * area \<le> length pixels" "3 * area \<le> length b" "3 * area < 18446744073709551616"
  shows "transform pixels b width height =
    Some (map (\<lambda>d. normalise (d div area) (pixels ! ((d mod area) * 3 + d div area))) [0..<3 * area] @
          drop (3 * area) b)"
  using transform_result [of width height pixels b] assms by simp

theorem transform_planar_witness:
  "transform [255, 0, 0, 0, 255, 0] [0, 0, 0, 0, 0, 0, 7] 2 1 =
     Some [normalise 0 255, normalise 0 0, normalise 1 0, normalise 1 255, normalise (Suc 1) 0, normalise (Suc 1) 0, 7]"
  using transform_planar [of 2 1 "[255, 0, 0, 0, 255, 0]" "[0, 0, 0, 0, 0, 0, 7]"]
  by (simp add: upt_conv_Cons)

text \<open>C32: with a label table of fewer than \<open>2^31\<close> entries, the answer to a non-empty tensor of fewer
  than \<open>2^31\<close> scores is the label of the first class with the greatest score, or \<^verbatim>\<open>Unknown\<close> when
  the table has no label for that class.\<close>

theorem handle_results_best_class:
  assumes "xs \<noteq> []" "length xs < 2147483648" "length (labels pp) < 2147483648"
  shows "\<exists>k < length xs. (\<forall>x \<in> set xs. x \<le> xs ! k) \<and> (\<forall>j < k. xs ! j < xs ! k) \<and>
    handle_results pp (Some xs) =
      Some (if k < length (labels pp) then labels pp ! k else ''Unknown'')"
proof -
  let ?k = "max_element xs"
  have k: "?k < length xs" "\<forall>x \<in> set xs. x \<le> xs ! ?k" "\<forall>j < ?k. xs ! j < xs ! ?k"
    using max_element_spec [OF assms(1)] by auto
  have "handle_results pp (Some xs) =
      Some (if ?k < length (labels pp) then labels pp ! ?k else ''Unknown'')"
    using assms k(1) by (simp add: handle_results_def to_int_small)
  with k show ?thesis by blast
qed

theorem handle_results_best_class_witness:
  "\<exists>k < length [1, 3, 3 :: real]. (\<forall>x \<in> set [1, 3, 3 :: real]. x \<le> [1, 3, 3] ! k) \<and>
     (\<forall>j < k. [1, 3, 3] ! j < ([1, 3, 3] ! k :: real)) \<and>
     handle_results (ImageNetPostProcessor [''cat'', ''dog'']) (Some [1, 3, 3]) =
       Some (if k < length (labels (ImageNetPostProcessor [''cat'', ''dog'']))
             then labels (ImageNetPostProcessor [''cat'', ''dog'']) ! k else ''Unknown'')"
  by (rule handle_results_best_class) simp_all

text \<open>No response is empty. A client whose response were empty would never be answered, since the
  server takes an empty response buffer for one it has not written yet. This holds for every
  label file, readable or not, and every tensor, null or empty included.\<close>

theorem handle_results_nonempty:
  "handle_results (ImageNetPostProcessor_new f) r = Some resp \<Longrightarrow> resp \<noteq> []"
  using labels_new_nonempty [of "labels (ImageNetPostProcessor_new f) ! nat (to_int (max_element (the r)))" f]
    to_int_le [of "length (labels (ImageNetPostProcessor_new f))"]
  by (auto simp: handle_results_def empty_tensor_error_def Let_def nth_mem split: option.splits if_splits)

theorem handle_results_nonempty_witness:
  "handle_results (ImageNetPostProcessor_new (Some [CHR 0x0A, CHR ''a''])) None = Some empty_tensor_error \<and>
   empty_tensor_error \<noteq> []"
  using handle_results_nonempty [of "Some [CHR 0x0A, CHR ''a'']" None empty_tensor_error]
  by (simp add: handle_results_def)

text \<open>C33: the confidence is the softmax of the chosen class, a number above 0 and at most 1. The
  subtraction of the greatest score before exponentiation does not change the value.\<close>

theorem confidence_softmax:
  assumes "xs \<noteq> []"
  shows "confidence xs = exp (xs ! max_element xs) / (\<Sum>x \<leftarrow> xs. exp x) \<and>
    0 < confidence xs \<and> confidence xs \<le> 1 \<and> 0 \<le> confidence_percent xs \<and> confidence_percent xs \<le> 100"
proof -
  let ?m = "xs ! max_element xs"
  have mem: "?m \<in> set xs"
    using max_element_spec [OF assms] by simp
  have "(\<Sum>x \<leftarrow> xs. exp (x - m)) = (\<Sum>x \<leftarrow> xs. exp x) / exp m" for m :: real
    by (induction xs) (simp_all add: exp_diff add_divide_distrib)
  then have eq: "confidence xs = exp ?m / (\<Sum>x \<leftarrow> xs. exp x)"
    by (simp add: confidence_def sum_exp_sum)
  have "exp ?m \<le> (\<Sum>x \<leftarrow> xs. exp x)"
    using mem by (intro member_le_sum_list) (auto intro: image_eqI)
  then have "0 < confidence xs" "confidence xs \<le> 1"
    unfolding eq using less_le_trans [OF exp_gt_zero [of ?m]] by (simp_all add: divide_le_eq_1)
  moreover from this have "0 \<le> confidence_percent xs" "confidence_percent xs \<le> 100"
    by (simp_all add: confidence_percent_def floor_le_iff)
  ultimately show ?thesis
    using eq by blast
qed

theorem confidence_softmax_witness: "confidence_percent [0] \<le> 100 \<and> confidence [0] = 1"
  using confidence_softmax [of "[0]"] by (simp add: max_element_def)

end
