(* ===== verification/Inference_Engine.thy ===== *)
theory Inference_Engine
  imports Allocators ImageNet_Processor
begin

section \<open>The inference engine\<close>

text \<open>
  \<^verbatim>\<open>src/InferenceEngine.cpp\<close>: the constructor, which reads the node names and shapes of the
  model and copies them into the arena, and \<^verbatim>\<open>run\<close>, one inference. The ONNX session is a
  parameter: its node table, whether it accepts a pointer to a buffer of a given length as a tensor
  of a given shape, what a run of the model computes or that it throws, and what a run does that
  was given a null output tensor, which nothing documents: it may throw, return or crash. The allocator of
  \<^verbatim>\<open>run\<close> is a parameter as well, the two operations of \<^verbatim>\<open>ILumenAllocator\<close> on its state
  \<open>'s\<close>, which a run of the model may use too when the allocator is registered with the runtime. The buffers
  are lists of reals whose length is the number of whole floats in the bytes granted; a fresh
  buffer holds an arbitrary value. A null pointer points to an empty buffer.

  An outcome is a result, an exception on its way to the caller, or undefined behaviour: an
  access outside a buffer, through a null pointer or past the end of a vector.
\<close>

type_synonym int64 = "64 word"

datatype null_run = NullThrew | NullReturned | NullCrashed

record 's ort_session =
  session_inputs :: "(string \<times> int64 list) list"
  session_outputs :: "(string \<times> int64 list) list"
  tensor_ok :: "ptr \<Rightarrow> size_t \<Rightarrow> int64 list \<Rightarrow> bool"
  session_run :: "real list \<Rightarrow> real list \<Rightarrow> 's \<Rightarrow> real list option \<times> 's"
  session_run_null :: "real list \<Rightarrow> 's \<Rightarrow> null_run \<times> 's"

subsection \<open>Metadata in arena memory\<close>

text \<open>
  The memory of the arena at the granularity of the objects stored: a character, a 64-bit
  integer, a pointer or a size at the address of its first byte.
\<close>

datatype cell = CChar char | CInt64 int64 | CPtr ptr | CSize size_t

type_synonym memory = "ptr \<rightharpoonup> cell"

fun store_array :: "size_t \<Rightarrow> ptr \<Rightarrow> cell list \<Rightarrow> memory \<Rightarrow> memory" where
  "store_array sz p [] m = m"
| "store_array sz p (x # xs) m = store_array sz (p + sz) xs (m(p \<mapsto> x))"

fun load_dims :: "ptr \<Rightarrow> nat \<Rightarrow> memory \<Rightarrow> int64 list option" where
  "load_dims p 0 m = Some []"
| "load_dims p (Suc n) m =
     (case m p of
        Some (CInt64 d) \<Rightarrow> map_option ((#) d) (load_dims (p + 8) n m)
      | _ \<Rightarrow> None)"

record node_arrays =
  node_names :: ptr
  node_dims :: ptr
  dim_counts :: ptr

record InferenceEngine =
  input_names :: "string list"
  output_names :: "string list"
  input_node_dims :: "int64 list list"
  output_node_dims :: "int64 list list"
  arena_inputs :: node_arrays
  arena_outputs :: node_arrays
  num_inputs :: size_t
  num_outputs :: size_t
  metadata_migrated :: bool

definition no_arrays :: node_arrays where
  "no_arrays = \<lparr>node_names = 0, node_dims = 0, dim_counts = 0\<rparr>"

text \<open>A dynamic leading dimension, the batch, becomes 1. An input with no dimension is undefined.\<close>

fun fix_input_dims :: "int64 list \<Rightarrow> int64 list option" where
  "fix_input_dims [] = None"
| "fix_input_dims (d # ds) = Some ((if sint d \<le> 0 then 1 else d) # ds)"

fun fix_output_dims :: "int64 list \<Rightarrow> int64 list" where
  "fix_output_dims [] = []"
| "fix_output_dims (d # ds) = (if sint d \<le> 0 then 1 else d) # ds"

fun collect_dims :: "int64 list list \<Rightarrow> int64 list list option" where
  "collect_dims [] = Some []"
| "collect_dims (ds # dss) =
     (case fix_input_dims ds of
        None \<Rightarrow> None
      | Some ds' \<Rightarrow> map_option ((#) ds') (collect_dims dss))"

definition engine_read_model :: "'s ort_session \<Rightarrow> InferenceEngine option" where
  "engine_read_model sess =
     (case collect_dims (map snd (session_inputs sess)) of
        None \<Rightarrow> None
      | Some in_dims \<Rightarrow>
          Some \<lparr>input_names = map fst (session_inputs sess),
                output_names = map fst (session_outputs sess),
                input_node_dims = in_dims,
                output_node_dims = map (fix_output_dims \<circ> snd) (session_outputs sess),
                arena_inputs = no_arrays, arena_outputs = no_arrays,
                num_inputs = 0, num_outputs = 0, metadata_migrated = False\<rparr>)"

text \<open>One turn of the copy loops: node \<open>i\<close> with its name and shape. A copy to null is undefined.\<close>

definition copy_node ::
  "node_arrays \<Rightarrow> nat \<times> string \<times> int64 list \<Rightarrow> LumenArena \<times> memory \<Rightarrow> (LumenArena \<times> memory) option" where
  "copy_node arr = (\<lambda>(i, name, dims) (a, m).
     let name_len = of_nat (length name) + 1;
         (name_arena, a1) = alloc_typed 1 1 name_len a
     in if name_arena = 0 \<or> node_names arr = 0 then None
        else let m1 = store_array 1 name_arena (map CChar (name @ [CHR 0x00])) m;
                 m2 = m1(node_names arr + of_nat i * 8 \<mapsto> CPtr name_arena);
                 dim_count = of_nat (length dims);
                 (dims_arena, a2) = alloc_typed 8 8 dim_count a1
             in if dims_arena = 0 \<or> node_dims arr = 0 \<or> dim_counts arr = 0 then None
                else let m3 = store_array 8 dims_arena (map CInt64 dims) m2;
                         m4 = m3(node_dims arr + of_nat i * 8 \<mapsto> CPtr dims_arena);
                         m5 = m4(dim_counts arr + of_nat i * 8 \<mapsto> CSize dim_count)
                     in Some (a2, m5))"

fun copy_nodes ::
  "node_arrays \<Rightarrow> (nat \<times> string \<times> int64 list) list \<Rightarrow> LumenArena \<times> memory \<Rightarrow> (LumenArena \<times> memory) option" where
  "copy_nodes arr [] am = Some am"
| "copy_nodes arr (nd # nds) am =
     (case copy_node arr nd am of None \<Rightarrow> None | Some am' \<Rightarrow> copy_nodes arr nds am')"

definition migrate_metadata_to_arena ::
  "InferenceEngine \<Rightarrow> LumenArena \<times> memory \<Rightarrow> (InferenceEngine \<times> LumenArena \<times> memory) option" where
  "migrate_metadata_to_arena eng = (\<lambda>(a, m).
     let ni = of_nat (length (input_node_dims eng));
         no = of_nat (length (output_node_dims eng));
         (in_names, a1) = alloc_typed 8 8 ni a;
         (out_names, a2) = alloc_typed 8 8 no a1;
         (in_dims, a3) = alloc_typed 8 8 ni a2;
         (out_dims, a4) = alloc_typed 8 8 no a3;
         (in_counts, a5) = alloc_typed 8 8 ni a4;
         (out_counts, a6) = alloc_typed 8 8 no a5;
         ins = \<lparr>node_names = in_names, node_dims = in_dims, dim_counts = in_counts\<rparr>;
         outs = \<lparr>node_names = out_names, node_dims = out_dims, dim_counts = out_counts\<rparr>
     in case copy_nodes ins (enumerate 0 (zip (input_names eng) (input_node_dims eng))) (a6, m) of
          None \<Rightarrow> None
        | Some am \<Rightarrow>
            (case copy_nodes outs (enumerate 0 (zip (output_names eng) (output_node_dims eng))) am of
               None \<Rightarrow> None
             | Some (a', m') \<Rightarrow>
                 Some (eng\<lparr>num_inputs := ni, num_outputs := no,
                           arena_inputs := ins, arena_outputs := outs,
                           metadata_migrated := True,
                           input_names := [], output_names := [],
                           input_node_dims := [], output_node_dims := []\<rparr>, a', m')))"

text \<open>
  The constructor from the point where the session is open: with an arena, the metadata moves
  there.
\<close>

definition engine_new ::
  "'s ort_session \<Rightarrow> (LumenArena \<times> memory) option \<Rightarrow>
   (InferenceEngine \<times> (LumenArena \<times> memory) option) option" where
  "engine_new sess arena =
     (case engine_read_model sess of
        None \<Rightarrow> None
      | Some eng \<Rightarrow>
          (case arena of
             None \<Rightarrow> Some (eng, None)
           | Some am \<Rightarrow>
               (case migrate_metadata_to_arena eng am of
                  None \<Rightarrow> None
                | Some (eng', am') \<Rightarrow> Some (eng', Some am'))))"

text \<open>
  The whole constructor. The runtime says whether it accepts the allocator and gives a session
  for the model, or none when it rejects it; both failures are exceptions. While it opens the
  session the runtime may already use the arena.
\<close>

record 's ort_runtime =
  register_allocator :: bool
  open_plain :: "'s ort_session option"
  open_arena :: "LumenArena \<times> memory \<Rightarrow> ('s ort_session \<times> LumenArena \<times> memory) option"

datatype engine_error = AllocatorRejected | ModelRejected

definition open_session ::
  "'s ort_runtime \<Rightarrow> (LumenArena \<times> memory) option \<Rightarrow>
   engine_error + 's ort_session \<times> (LumenArena \<times> memory) option" where
  "open_session rt arena =
     (case arena of
        None \<Rightarrow> (case open_plain rt of None \<Rightarrow> Inl ModelRejected | Some sess \<Rightarrow> Inr (sess, None))
      | Some am \<Rightarrow>
          if \<not> register_allocator rt then Inl AllocatorRejected
          else (case open_arena rt am of
                  None \<Rightarrow> Inl ModelRejected
                | Some (sess, am') \<Rightarrow> Inr (sess, Some am')))"

definition engine_construct ::
  "'s ort_runtime \<Rightarrow> (LumenArena \<times> memory) option \<Rightarrow>
   (engine_error, InferenceEngine \<times> (LumenArena \<times> memory) option) ctor" where
  "engine_construct rt arena =
     (case open_session rt arena of
        Inl e \<Rightarrow> Threw e
      | Inr (sess, arena') \<Rightarrow>
          (case engine_new sess arena' of None \<Rightarrow> Broken | Some r \<Rightarrow> Built r))"


subsection \<open>One inference\<close>

definition first_shape :: "node_arrays \<Rightarrow> memory \<Rightarrow> int64 list option" where
  "first_shape arr m =
     (case (m (node_dims arr), m (dim_counts arr)) of
        (Some (CPtr q), Some (CSize n)) \<Rightarrow> load_dims q (unat n) m
      | _ \<Rightarrow> None)"

definition engine_shapes :: "InferenceEngine \<Rightarrow> memory \<Rightarrow> (int64 list \<times> int64 list) option" where
  "engine_shapes eng m =
     (if metadata_migrated eng
      then (case (first_shape (arena_inputs eng) m, first_shape (arena_outputs eng) m) of
              (Some i, Some out) \<Rightarrow> Some (i, out)
            | _ \<Rightarrow> None)
      else (case (input_node_dims eng, output_node_dims eng) of
              (i # _, out # _) \<Rightarrow> Some (i, out)
            | _ \<Rightarrow> None))"

text \<open>The product of the positive dimensions, in \<^verbatim>\<open>size_t\<close>.\<close>

definition element_count :: "int64 list \<Rightarrow> size_t" where
  "element_count shape = foldl (\<lambda>n d. if sint d > 0 then n * d else n) 1 shape"

definition float_bytes :: size_t where
  "float_bytes = 4"

definition buffer_at :: "ptr \<Rightarrow> size_t \<Rightarrow> real \<Rightarrow> real list" where
  "buffer_at p bytes garbage = (if p = 0 then [] else replicate (unat bytes div 4) garbage)"

datatype engine_outcome = Finished InferenceResult | Exception | Undefined

definition payload_error :: string where
  "payload_error = ''Error: Payload size mismatch''"

text \<open>\<^verbatim>\<open>ScopedFree\<close>: on every way out of the scope the pointer is freed unless it is null.\<close>

definition scoped_free :: "(ptr \<Rightarrow> 's \<Rightarrow> 's) \<Rightarrow> ptr \<Rightarrow> 's \<Rightarrow> 's" where
  "scoped_free free p s = (if p \<noteq> 0 then free p s else s)"

text \<open>A run of the model into a buffer, or into no buffer when the output pointer is null.\<close>

datatype run_end = Ran "real list option" | RunThrew | RunCrashed

definition run_session :: "'s ort_session \<Rightarrow> real list \<Rightarrow> real list option \<Rightarrow> 's \<Rightarrow> run_end \<times> 's" where
  "run_session sess inp out s =
     (case out of
        Some buffer \<Rightarrow>
          (case session_run sess inp buffer s of
             (None, s1) \<Rightarrow> (RunThrew, s1)
           | (Some buffer', s1) \<Rightarrow> (Ran (Some buffer'), s1))
      | None \<Rightarrow>
          (case session_run_null sess inp s of
             (NullThrew, s1) \<Rightarrow> (RunThrew, s1)
           | (NullReturned, s1) \<Rightarrow> (Ran None, s1)
           | (NullCrashed, s1) \<Rightarrow> (RunCrashed, s1)))"

definition output_at :: "ptr \<Rightarrow> size_t \<Rightarrow> real \<Rightarrow> real list option" where
  "output_at p bytes garbage = (if p = 0 then None else Some (buffer_at p bytes garbage))"

text \<open>Phases 2 and 3, in the scope of the output buffer; the clock is read four times.\<close>

definition run_model ::
  "'s ort_session \<Rightarrow> (nat \<Rightarrow> time_point) \<Rightarrow> InferenceTask \<Rightarrow> InferenceTrace option \<Rightarrow>
   real list \<Rightarrow> ptr \<Rightarrow> real list option \<Rightarrow> size_t \<Rightarrow> int64 list \<Rightarrow> 's \<Rightarrow> engine_outcome \<times> 's" where
  "run_model sess clk task tr inp output_ptr out output_count output_shape s =
     (if \<not> tensor_ok sess output_ptr output_count output_shape then (Exception, s)
      else (case run_session sess inp out s of
              (RunThrew, s1) \<Rightarrow> (Exception, s1)
            | (RunCrashed, s1) \<Rightarrow> (Undefined, s1)
            | (Ran out', s1) \<Rightarrow>
                (let tr2 = timed (\<lambda>d t. t\<lparr>inference_ms := d\<rparr>) (clk 2) (clk 3) tr
                 in case task_post task of
                      None \<Rightarrow> (Undefined, s1)
                    | Some pp \<Rightarrow>
                        (case handle_results pp (map_option (take (unat output_count)) out') of
                           None \<Rightarrow> (Undefined, s1)
                         | Some resp \<Rightarrow>
                             (Finished (new_result (client_fd task) resp
                                (timed (\<lambda>d t. t\<lparr>postprocess_ms := d\<rparr>) (clk 4) (clk 5) tr2)), s1)))))"

definition engine_run ::
  "(size_t \<Rightarrow> 's \<Rightarrow> ptr \<times> 's) \<Rightarrow> (ptr \<Rightarrow> 's \<Rightarrow> 's) \<Rightarrow> 's ort_session \<Rightarrow> real \<Rightarrow> (nat \<Rightarrow> time_point) \<Rightarrow>
   InferenceEngine \<Rightarrow> memory \<Rightarrow> InferenceTask \<Rightarrow> 's \<Rightarrow> engine_outcome \<times> 's" where
  "engine_run alloc free sess garbage clk eng mem task s =
     (case engine_shapes eng mem of
        None \<Rightarrow> (Undefined, s)
      | Some (input_shape, output_shape) \<Rightarrow>
          (let input_count = element_count input_shape
           in if of_nat (length (task_data task)) < input_count
              then (Finished (new_result (client_fd task) payload_error (task_trace task)), s)
              else
                let (input_ptr, s1) = alloc (input_count * float_bytes) s;
                    inp0 = buffer_at input_ptr (input_count * float_bytes) garbage
                in if task_pre task = None \<or> length input_shape < 4 then (Undefined, s1)
                   else
                     (case transform (task_data task) inp0 (input_shape ! 3) (input_shape ! 2) of
                        None \<Rightarrow> (Undefined, s1)
                      | Some inp \<Rightarrow>
                          (let tr1 = timed (\<lambda>d t. t\<lparr>preprocess_ms := d\<rparr>) (clk 0) (clk 1) (task_trace task)
                           in if \<not> tensor_ok sess input_ptr input_count input_shape
                              then (Exception, scoped_free free input_ptr s1)
                              else
                                let output_count = element_count output_shape;
                                    (output_ptr, s2) = alloc (output_count * float_bytes) s1;
                                    out0 = output_at output_ptr (output_count * float_bytes) garbage;
                                    (oc, s3) = run_model sess clk task tr1 inp output_ptr out0 output_count output_shape s2
                                in (oc, scoped_free free input_ptr (scoped_free free output_ptr s3))))))"


subsection \<open>Facts about one inference\<close>

text \<open>A write outside the buffer makes the whole transformation undefined.\<close>

lemma write_pixel_None [simp]: "write_pixel pixels w ar y x c None = None"
  by (simp add: write_pixel_def)

lemma fold_write_pixel_None:
  "fold (\<lambda>(y, x, c). write_pixel pixels w ar (of_nat y) (of_nat x) c) ps None = None"
  by (induction ps) auto

lemma write_pixel_length:
  "write_pixel pixels w ar y x c (Some b) = Some b' \<Longrightarrow> length b' = length b"
  by (auto simp: write_pixel_def Let_def split: if_splits)

lemma fold_write_pixel_outside:
  assumes "(y, x, c) \<in> set ps" "length b \<le> unat (of_nat c * ar + (of_nat y * w + of_nat x))"
  shows "fold (\<lambda>(y, x, c). write_pixel pixels w ar (of_nat y) (of_nat x) c) ps (Some b) = None"
  using assms
proof (induction ps arbitrary: b)
  case (Cons p ps)
  obtain y' x' c' where p: "p = (y', x', c')"
    by (cases p)
  let ?r = "write_pixel pixels w ar (of_nat y') (of_nat x') c' (Some b)"
  show ?case
  proof (cases ?r)
    case None
    then show ?thesis
      by (simp add: p fold_write_pixel_None)
  next
    case (Some b')
    have "p \<noteq> (y, x, c)"
      using Some Cons.prems(2) by (auto simp: p write_pixel_def Let_def split: if_splits)
    then show ?thesis
      using Cons.IH [of b'] Cons.prems write_pixel_length [OF Some] Some by (auto simp: p)
  qed
qed simp

lemma transform_outside:
  fixes width height :: size_t
  defines "area \<equiv> unat width * unat height"
  assumes "length b < 3 * area" "3 * area < 18446744073709551616"
  shows "transform pixels b width height = None"
proof -
  let ?w = "unat width" and ?h = "unat height"
  obtain y x c where pos: "(y, x, c) \<in> set (loop_positions ?w ?h)" and d: "3 * area - 1 = dst_of ?w ?h (y, x, c)"
  proof -
    have "3 * area - 1 \<in> {..<3 * (?w * ?h)}"
      using assms(2) by (auto simp: area_def)
    then have "3 * area - 1 \<in> dst_of ?w ?h ` set (loop_positions ?w ?h)"
      by (simp only: dst_of_image)
    then show thesis
      using that by auto
  qed
  have "of_nat c * (width * height) + (of_nat y * width + of_nat x) = (of_nat (3 * area - 1) :: size_t)"
    unfolding d dst_of_def by simp
  then have "unat (of_nat c * (width * height) + (of_nat y * width + of_nat x)) = 3 * area - 1"
    using unat_of_nat_size_t [of "3 * area - 1"] assms(3) by simp
  then show ?thesis
    unfolding transform_fold using assms(2) by (intro fold_write_pixel_outside [OF pos]) simp
qed


lemma unat_mult_size_t [word_bounds]:
  "unat x * unat y < 18446744073709551616 \<Longrightarrow> unat (x * y :: size_t) = unat x * unat y"
  by (simp add: unat_word_ariths)

lemma sint_pos_nonzero: "0 < sint (d :: int64) \<Longrightarrow> 0 < unat d"
  by (cases "d = 0") (simp_all add: unat_gt_0)

text \<open>The element count and the byte count of an image batch, read as naturals.\<close>

lemma image_count:
  fixes n c h w :: int64
  assumes "0 < sint n" "0 < sint c" "0 < sint h" "0 < sint w"
    and small: "4 * (unat n * (unat c * (unat h * unat w))) < 18446744073709551616"
  shows "unat (element_count [n, c, h, w]) = unat n * (unat c * (unat h * unat w))"
    "unat (element_count [n, c, h, w] * float_bytes) = 4 * (unat n * (unat c * (unat h * unat w)))"
    "unat c * (unat h * unat w) \<le> unat n * (unat c * (unat h * unat w))"
proof -
  have pos: "0 < unat n" "0 < unat c" "0 < unat h"
    using assms(1-3) by (simp_all add: sint_pos_nonzero)
  have 1: "unat (h * w) = unat h * unat w" and 2: "unat (c * (h * w)) = unat c * unat (h * w)"
    and 3: "unat (n * (c * (h * w))) = unat n * unat (c * (h * w))"
  proof -
    have "unat h * unat w \<le> unat c * (unat h * unat w)"
      "unat c * (unat h * unat w) \<le> unat n * (unat c * (unat h * unat w))"
      using pos by simp_all
    then show 1: "unat (h * w) = unat h * unat w"
      using small by (intro unat_mult_size_t) linarith
    show 2: "unat (c * (h * w)) = unat c * unat (h * w)"
      using small \<open>unat c * (unat h * unat w) \<le> _\<close> unat_mult_size_t [of c "h * w"] unfolding 1
      by linarith
    show "unat (n * (c * (h * w))) = unat n * unat (c * (h * w))"
      using small unat_mult_size_t [of n "c * (h * w)"] unfolding 1 2 by linarith
  qed
  have count: "element_count [n, c, h, w] = n * (c * (h * w))"
    using assms(1-4) by (simp add: element_count_def mult.assoc)
  then show eq: "unat (element_count [n, c, h, w]) = unat n * (unat c * (unat h * unat w))"
    by (simp add: 1 2 3)
  show "unat (element_count [n, c, h, w] * float_bytes) = 4 * (unat n * (unat c * (unat h * unat w)))"
    using small by (subst unat_mult_size_t) (simp_all add: eq float_bytes_def mult.commute)
  show "unat c * (unat h * unat w) \<le> unat n * (unat c * (unat h * unat w))"
    using pos by simp
qed

text \<open>One image of the batch is not empty and fits into it.\<close>

lemma image_area:
  fixes n h w :: int64
  assumes "0 < sint n" "0 < sint h" "0 < sint w"
    and small: "4 * (unat n * (3 * (unat h * unat w))) < 18446744073709551616"
  shows "0 < unat w * unat h" "3 * (unat w * unat h) \<le> unat n * (3 * (unat h * unat w))"
    "3 * (unat w * unat h) < 18446744073709551616"
proof -
  have pos: "0 < unat n" "0 < unat h" "0 < unat w"
    using assms(1-3) by (simp_all add: sint_pos_nonzero)
  then show "0 < unat w * unat h"
    by simp
  show one: "3 * (unat w * unat h) \<le> unat n * (3 * (unat h * unat w))"
    using pos(1) by (simp add: mult.commute [of "unat w"])
  show "3 * (unat w * unat h) < 18446744073709551616"
    using one small by linarith
qed

lemma handle_results_total:
  "length xs < 2147483648 \<Longrightarrow> \<exists>resp. handle_results pp (Some xs) = Some resp"
  using max_element_spec [of xs] to_int_small [of "max_element xs"]
  by (cases "xs = []") (auto simp: handle_results_def Let_def)

lemma run_model_answers:
  assumes "task_post task = Some pp" "unat output_count < 2147483648"
  shows "fst (run_model sess clk task tr inp q (Some out) output_count shape s) = Exception \<or>
    (\<exists>resp. fst (run_model sess clk task tr inp q (Some out) output_count shape s) =
       Finished (new_result (client_fd task) resp
         (timed (\<lambda>d t. t\<lparr>postprocess_ms := d\<rparr>) (clk 4) (clk 5)
           (timed (\<lambda>d t. t\<lparr>inference_ms := d\<rparr>) (clk 2) (clk 3) tr))))"
proof (cases "tensor_ok sess q output_count shape")
  case True
  show ?thesis
  proof (cases "fst (session_run sess inp out s)")
    case (Some out')
    then obtain resp where "handle_results pp (Some (take (unat output_count) out')) = Some resp"
      using handle_results_total [of "take (unat output_count) out'" pp] assms(2)
      by (auto simp: min_less_iff_disj)
    then show ?thesis
      using Some True assms(1) by (cases "session_run sess inp out s")
        (simp add: run_model_def run_session_def Let_def, blast)
  qed (use True in \<open>auto simp: run_model_def run_session_def split: prod.splits\<close>)
qed (simp add: run_model_def)

text \<open>Without an output buffer, a run that returns is answered with the error of the postprocessor.\<close>

lemma run_model_null:
  assumes "task_post task = Some pp"
  shows "fst (run_model sess clk task tr inp q None output_count shape s) \<in>
    {Exception, Undefined, Finished (new_result (client_fd task) empty_tensor_error
       (timed (\<lambda>d t. t\<lparr>postprocess_ms := d\<rparr>) (clk 4) (clk 5)
         (timed (\<lambda>d t. t\<lparr>inference_ms := d\<rparr>) (clk 2) (clk 3) tr)))}"
  using assms
  by (auto simp: run_model_def run_session_def handle_results_def Let_def split: prod.splits null_run.splits)

text \<open>The guard on the payload reads the length as a \<^verbatim>\<open>size_t\<close>.\<close>

lemma payload_guard:
  "n < 18446744073709551616 \<Longrightarrow> of_nat n < (c :: size_t) \<longleftrightarrow> n < unat c"
  by (simp add: word_less_nat_alt unat_of_nat_size_t)



subsection \<open>The buffers of one inference\<close>

text \<open>
  An allocator whose live blocks are recorded: an allocation that succeeds adds its pointer, a
  free removes one occurrence.
\<close>

definition tracked_alloc ::
  "(size_t \<Rightarrow> 's \<Rightarrow> ptr \<times> 's) \<Rightarrow> size_t \<Rightarrow> 's \<times> ptr list \<Rightarrow> ptr \<times> 's \<times> ptr list" where
  "tracked_alloc alloc n = (\<lambda>(s, live).
     case alloc n s of (p, s') \<Rightarrow> (p, s', if p = 0 then live else p # live))"

definition tracked_free :: "(ptr \<Rightarrow> 's \<Rightarrow> 's) \<Rightarrow> ptr \<Rightarrow> 's \<times> ptr list \<Rightarrow> 's \<times> ptr list" where
  "tracked_free free p = (\<lambda>(s, live). (free p s, remove1 p live))"

text \<open>A session that leaves the record of live blocks as it found it.\<close>

definition session_balanced :: "('s \<times> ptr list) ort_session \<Rightarrow> bool" where
  "session_balanced sess \<longleftrightarrow> (\<forall>inp out s. snd (snd (run_session sess inp out s)) = snd s)"

lemma scoped_free_tracked:
  "snd (scoped_free (tracked_free free) p s) = (if p = 0 then snd s else remove1 p (snd s))"
  by (auto simp: scoped_free_def tracked_free_def split: prod.splits)

lemma tracked_alloc_live:
  "tracked_alloc alloc n s = (p, s') \<Longrightarrow> snd s' = (if p = 0 then snd s else p # snd s)"
  by (auto simp: tracked_alloc_def split: prod.splits)

lemma run_model_state:
  "snd (run_model sess clk task tr inp q out n shape s) =
     (if tensor_ok sess q n shape then snd (run_session sess inp out s) else s)"
  by (auto simp: run_model_def Let_def split: prod.splits option.splits run_end.splits)

lemma run_model_balanced:
  "session_balanced sess \<Longrightarrow> snd (snd (run_model sess clk task tr inp q out n shape s)) = snd s"
  by (cases s) (simp add: run_model_state session_balanced_def)

lemma engine_run_transformed:
  assumes "engine_shapes eng mem = Some (ish, osh)"
    "\<not> of_nat (length (task_data task)) < element_count ish"
    "alloc (element_count ish * float_bytes) s = (p, s1)"
    "task_pre task = Some pre" "4 \<le> length ish"
    "transform (task_data task) (buffer_at p (element_count ish * float_bytes) garbage) (ish ! 3) (ish ! 2) = Some inp"
    "alloc (element_count osh * float_bytes) s1 = (q, s2)"
  shows "engine_run alloc free sess garbage clk eng mem task s =
    (if tensor_ok sess p (element_count ish) ish
     then let r = run_model sess clk task (timed (\<lambda>d t. t\<lparr>preprocess_ms := d\<rparr>) (clk 0) (clk 1) (task_trace task))
                    inp q (output_at q (element_count osh * float_bytes) garbage) (element_count osh) osh s2
          in (fst r, scoped_free free p (scoped_free free q (snd r)))
     else (Exception, scoped_free free p s1))"
  using assms by (simp add: engine_run_def Let_def split: prod.splits)

text \<open>
  A full payload whose input buffer was granted is preprocessed; what is left to go wrong is the
  runtime, and the allocation of the output buffer.
\<close>

definition phases_timed :: "(nat \<Rightarrow> time_point) \<Rightarrow> InferenceTask \<Rightarrow> InferenceTrace option" where
  "phases_timed clk task =
     map_option (\<lambda>t. t\<lparr>preprocess_ms := ms_between (clk 0) (clk 1), inference_ms := ms_between (clk 2) (clk 3),
                       postprocess_ms := ms_between (clk 4) (clk 5)\<rparr>) (task_trace task)"

lemma timed_phases:
  "timed (\<lambda>d t. t\<lparr>postprocess_ms := d\<rparr>) (clk 4) (clk 5) (timed (\<lambda>d t. t\<lparr>inference_ms := d\<rparr>) (clk 2) (clk 3)
     (timed (\<lambda>d t. t\<lparr>preprocess_ms := d\<rparr>) (clk 0) (clk 1) (task_trace task))) = phases_timed clk task"
  by (cases "task_trace task") (simp_all add: phases_timed_def)

lemma engine_run_full_payload:
  assumes shapes: "engine_shapes eng mem = Some ([n, 3, h, w], out_shape)"
    and area: "3 * (unat w * unat h) \<le> length (task_data task)"
      "3 * (unat w * unat h) \<le> length (buffer_at p (element_count [n, 3, h, w] * float_bytes) garbage)"
      "3 * (unat w * unat h) < 18446744073709551616"
    and full: "\<not> of_nat (length (task_data task)) < element_count [n, 3, h, w]"
    and outs: "unat (element_count out_shape) < 2147483648"
    and procs: "task_pre task = Some pre" "task_post task = Some pp"
    and room: "alloc (element_count [n, 3, h, w] * float_bytes) s = (p, s1)"
      "alloc (element_count out_shape * float_bytes) s1 = (q, s2)"
  shows "fst (engine_run alloc free sess garbage clk eng mem task s) = Exception \<or>
    (q = 0 \<and> fst (engine_run alloc free sess garbage clk eng mem task s) \<in>
       {Undefined, Finished (new_result (client_fd task) empty_tensor_error (phases_timed clk task))}) \<or>
    (q \<noteq> 0 \<and> (\<exists>resp. fst (engine_run alloc free sess garbage clk eng mem task s) =
       Finished (new_result (client_fd task) resp (phases_timed clk task))))"
proof -
  obtain inp where tr: "transform (task_data task) (buffer_at p (element_count [n, 3, h, w] * float_bytes) garbage) w h = Some inp"
    using transform_result [OF area] by blast
  let ?tr = "timed (\<lambda>d t. t\<lparr>preprocess_ms := d\<rparr>) (clk 0) (clk 1) (task_trace task)"
  let ?out = "output_at q (element_count out_shape * float_bytes) garbage"
  have run: "engine_run alloc free sess garbage clk eng mem task s =
    (if tensor_ok sess p (element_count [n, 3, h, w]) [n, 3, h, w]
     then let r = run_model sess clk task ?tr inp q ?out (element_count out_shape) out_shape s2
          in (fst r, scoped_free free p (scoped_free free q (snd r)))
     else (Exception, scoped_free free p s1))"
    using shapes room procs(1) tr full by (intro engine_run_transformed) simp_all
  show ?thesis
  proof (cases "q = 0")
    case True
    then show ?thesis
      using run run_model_null [OF procs(2), of sess clk ?tr inp q "element_count out_shape" out_shape s2, unfolded timed_phases]
      by (auto simp: Let_def output_at_def)
  next
    case False
    then show ?thesis
      using run run_model_answers [OF procs(2) outs, of sess clk ?tr inp q "the ?out" out_shape s2, unfolded timed_phases]
      by (auto simp: Let_def output_at_def)
  qed
qed


subsection \<open>Properties of one inference\<close>

text \<open>
  C11: what \<^verbatim>\<open>run\<close> answers for a model whose input is a batch of three-channel images, for every
  answer of the allocator. The dimensions are positive, the byte counts of input and payload fit
  \<^verbatim>\<open>size_t\<close>, the output has fewer than \<open>2^31\<close> elements and both processors are there. A payload shorter than the input tensor is answered with the mismatch
  error and the allocator is not touched. Otherwise the outcome depends on the two allocations,
  whose results the code does not check: without an input buffer the preprocessor writes through
  a null pointer; without an output buffer the runtime is given a null tensor, and whether it
  throws, crashes or returns, no class is ever answered; with both buffers nothing undefined
  happens, and the inference ends in an exception of the runtime or in one result, for the
  client of the task, whose trace is the task's with the three phase times filled in.
\<close>

theorem engine_run_answers:
  assumes shapes: "engine_shapes eng mem = Some ([n, 3, h, w], out_shape)"
    and pos: "0 < sint n" "0 < sint h" "0 < sint w"
    and small: "4 * (unat n * (3 * (unat h * unat w))) < 18446744073709551616"
    and outs: "unat (element_count out_shape) < 2147483648"
    and data: "length (task_data task) < 18446744073709551616"
    and procs: "task_pre task = Some pre" "task_post task = Some pp"
    and room: "alloc (element_count [n, 3, h, w] * float_bytes) s = (p, s1)"
      "alloc (element_count out_shape * float_bytes) s1 = (q, s2)"
    and run: "engine_run alloc free sess garbage clk eng mem task s = (oc, s')"
  shows "if length (task_data task) < unat n * (3 * (unat h * unat w))
    then oc = Finished (new_result (client_fd task) payload_error (task_trace task)) \<and> s' = s
    else if p = 0 then oc = Undefined
    else if q = 0
    then oc \<in> {Exception, Undefined, Finished (new_result (client_fd task) empty_tensor_error (phases_timed clk task))}
    else oc = Exception \<or> (\<exists>resp. oc = Finished (new_result (client_fd task) resp (phases_timed clk task)))"
proof -
  have three: "0 < sint (3 :: int64)" "unat (3 :: int64) = 3"
    by simp_all
  note count = image_count [of n 3 h w, OF pos(1) three(1) pos(2,3), unfolded three(2), OF small]
  have oc: "oc = fst (engine_run alloc free sess garbage clk eng mem task s)"
    using run by simp
  let ?buf = "buffer_at p (element_count [n, 3, h, w] * float_bytes) garbage"
  note least = image_area [OF pos small]
  show ?thesis
  proof (cases "length (task_data task) < unat n * (3 * (unat h * unat w))")
    case True
    then show ?thesis
      using shapes count(1) data run by (simp add: engine_run_def Let_def payload_guard)
  next
    case False
    then have full: "\<not> of_nat (length (task_data task)) < element_count [n, 3, h, w]"
      using count(1) data by (simp add: payload_guard)
    show ?thesis
    proof (cases "p = 0")
      case True
      then have "transform (task_data task) ?buf w h = None"
        using least by (intro transform_outside) (simp_all add: buffer_at_def)
      then show ?thesis
        using False True full shapes room(1) procs(1) oc by (simp add: engine_run_def Let_def)
    next
      case False
      then have "length ?buf = unat n * (3 * (unat h * unat w))"
        using count(2) by (simp add: buffer_at_def)
      then have area: "3 * (unat w * unat h) \<le> length (task_data task)" "3 * (unat w * unat h) \<le> length ?buf"
        using least(2) \<open>\<not> length (task_data task) < unat n * (3 * (unat h * unat w))\<close> by linarith+
      show ?thesis
        using engine_run_full_payload [where p = p and alloc = alloc, OF shapes area least(3) full outs procs room, of free sess clk] False
          \<open>\<not> length (task_data task) < unat n * (3 * (unat h * unat w))\<close> unfolding oc by auto
    qed
  qed
qed


definition example_engine :: "int64 list \<Rightarrow> InferenceEngine" where
  "example_engine shape =
     \<lparr>input_names = [''data''], output_names = [''prob''], input_node_dims = [shape],
      output_node_dims = [[1, 2]], arena_inputs = no_arrays, arena_outputs = no_arrays,
      num_inputs = 0, num_outputs = 0, metadata_migrated = False\<rparr>"

definition example_session :: "'s ort_session" where
  "example_session =
     \<lparr>session_inputs = [(''data'', [1, 3, 1, 2])], session_outputs = [(''prob'', [1, 2])],
      tensor_ok = (\<lambda>p n shape. True), session_run = (\<lambda>inp out s. (Some [0, 1], s)),
      session_run_null = (\<lambda>inp s. (NullCrashed, s))\<rparr>"

definition example_task :: "nat \<Rightarrow> InferenceTask" where
  "example_task n = new_task 7 (replicate n 0) (Some ImageNetPreProcessor)
     (Some (ImageNetPostProcessor [''cat'', ''dog''])) None"

lemma example_engine_shapes [simp]:
  "engine_shapes (example_engine shape) mem = Some (shape, [1, 2])"
  by (simp add: engine_shapes_def example_engine_def)

lemma element_count_example [simp]: "element_count [1, 2] = 2"
  by (simp add: element_count_def)

theorem engine_run_answers_witness:
  "engine_run (\<lambda>n s. (4096, s)) (\<lambda>p s. s) example_session 0 int (example_engine [1, 3, 1, 2]) Map.empty
      (example_task 5) () = (Finished (new_result 7 payload_error None), ()) \<and>
   fst (engine_run (\<lambda>n s. (4096, s)) (\<lambda>p s. s) example_session 0 int (example_engine [1, 3, 1, 2]) Map.empty
      (example_task 6) ()) \<noteq> Undefined"
  using engine_run_answers [of "example_engine [1, 3, 1, 2]" Map.empty 1 1 2 "[1, 2]" "example_task 5"
      ImageNetPreProcessor "ImageNetPostProcessor [''cat'', ''dog'']" "\<lambda>n s. (4096, s)" "()" 4096 "()" 4096 "()"
      "\<lambda>p s. s" example_session 0 int]
    engine_run_answers [of "example_engine [1, 3, 1, 2]" Map.empty 1 1 2 "[1, 2]" "example_task 6"
      ImageNetPreProcessor "ImageNetPostProcessor [''cat'', ''dog'']" "\<lambda>n s. (4096, s)" "()" 4096 "()" 4096 "()"
      "\<lambda>p s. s" example_session 0 int]
  by (cases "engine_run (\<lambda>n s. (4096, s)) (\<lambda>p s. s) example_session 0 int (example_engine [1, 3, 1, 2]) Map.empty (example_task 5) ()";
      cases "engine_run (\<lambda>n s. (4096, s)) (\<lambda>p s. s) example_session 0 int (example_engine [1, 3, 1, 2]) Map.empty (example_task 6) ()")
    (auto simp: example_task_def)

text \<open>C27: what \<^verbatim>\<open>run\<close> allocates it frees, on every way out that is not undefined behaviour: an
  answer, the payload error and an exception of the runtime, and also when the output allocation
  was refused. The live blocks after the call are those before it, provided the runtime itself
  leaves the live blocks as it found them (\<^const>\<open>session_balanced\<close>). The ways out that are
  undefined behaviour, a refused input buffer among them, are those of the theorem above.\<close>

theorem engine_run_frees_buffers:
  assumes "session_balanced sess"
    and "engine_run (tracked_alloc alloc) (tracked_free free) sess garbage clk eng mem task s = (oc, s')"
    and "oc \<noteq> Undefined"
  shows "snd s' = snd s"
proof -
  obtain ish osh where shapes: "engine_shapes eng mem = Some (ish, osh)"
    using assms(2,3) by (cases "engine_shapes eng mem") (auto simp: engine_run_def)
  obtain p s1 where a1: "tracked_alloc alloc (element_count ish * float_bytes) s = (p, s1)"
    by (metis surj_pair)
  obtain q s2 where a2: "tracked_alloc alloc (element_count osh * float_bytes) s1 = (q, s2)"
    by (metis surj_pair)
  show ?thesis
  proof (cases "of_nat (length (task_data task)) < element_count ish")
    case True
    then show ?thesis
      using assms(2) shapes by (auto simp: engine_run_def)
  next
    case False
    then obtain inp pre where "task_pre task = Some pre" "4 \<le> length ish"
      "transform (task_data task) (buffer_at p (element_count ish * float_bytes) garbage) (ish ! 3) (ish ! 2) = Some inp"
      using assms(2,3) shapes a1
      by (auto simp: engine_run_def Let_def split: if_splits option.splits prod.splits)
    note run = engine_run_transformed [OF shapes False a1 this a2, of "tracked_free free" sess clk]
    show ?thesis
      using assms(2) run tracked_alloc_live [OF a1] tracked_alloc_live [OF a2]
      by (auto simp: scoped_free_tracked run_model_balanced [OF assms(1)] Let_def split: if_splits)
  qed
qed

theorem engine_run_frees_buffers_witness:
  "snd (snd (engine_run (tracked_alloc (\<lambda>n s. (4096, s))) (tracked_free (\<lambda>p s. s)) example_session 0 int
      (example_engine [1, 3, 1, 2]) Map.empty (example_task 5) ((), [8]))) = [8]"
proof -
  obtain oc s' where run: "engine_run (tracked_alloc (\<lambda>n s. (4096, s))) (tracked_free (\<lambda>p s. s)) example_session 0 int
      (example_engine [1, 3, 1, 2]) Map.empty (example_task 5) ((), [8]) = (oc, s')"
    by (metis surj_pair)
  have "oc \<noteq> Undefined"
    using run by (auto simp: engine_run_def example_task_def element_count_def)
  moreover have "session_balanced (example_session :: (unit \<times> ptr list) ort_session)"
    by (simp add: session_balanced_def run_session_def example_session_def split: option.split)
  ultimately show ?thesis
    using engine_run_frees_buffers [OF _ run] run by simp
qed

text \<open>The preprocessor writes three planes whatever the model's channel count is, while the
  buffer has the size of the model's input. With a one-channel model and a payload that passes
  the size check, the first plane fills the buffer and the second is written behind its end.\<close>

theorem single_channel_model_overflows:
  assumes shapes: "engine_shapes eng mem = Some ([1, 1, h, w], out_shape)"
    and pos: "0 < sint h" "0 < sint w"
    and small: "4 * (3 * (unat h * unat w)) < 18446744073709551616"
    and data: "unat h * unat w \<le> length (task_data task)" "length (task_data task) < 18446744073709551616"
  shows "fst (engine_run alloc free sess garbage clk eng mem task s) = Undefined"
proof -
  have one: "0 < sint (1 :: int64)" "unat (1 :: int64) = 1"
    by simp_all
  have "4 * (1 * (1 * (unat h * unat w))) < 18446744073709551616"
    using small by simp
  note count = image_count [of 1 1 h w, OF one(1,1) pos, unfolded one(2), OF this]
  let ?bytes = "element_count [1, 1, h, w] * float_bytes"
  obtain p s1 where al: "alloc ?bytes s = (p, s1)"
    by fastforce
  have "0 < unat h * unat w"
    using pos by (simp add: sint_pos_nonzero)
  then have "length (buffer_at p ?bytes garbage) < 3 * (unat w * unat h)"
    using count(2) by (simp add: buffer_at_def mult.commute)
  then have "transform (task_data task) (buffer_at p ?bytes garbage) w h = None"
    using small by (intro transform_outside) (simp_all add: mult.commute)
  then show ?thesis
    using shapes al count(1) data by (simp add: engine_run_def Let_def payload_guard)
qed

theorem single_channel_model_overflows_witness:
  "fst (engine_run (\<lambda>n s. (4096, s)) (\<lambda>p s. s) example_session 0 int (example_engine [1, 1, 1, 2]) Map.empty
      (example_task 6) ()) = Undefined"
  by (rule single_channel_model_overflows [of _ _ 1 2 "[1, 2]"]) (simp_all add: example_task_def)

end
