(* ===== verification/Engine_Metadata.thy ===== *)
theory Engine_Metadata
  imports Inference_Engine
begin

section \<open>Metadata survives its move to the arena\<close>

text \<open>
  The constructor of the engine moves the node names and shapes of the model from heap vectors
  to raw arena memory, and \<^verbatim>\<open>run\<close> reads the shapes back through two levels of pointers. The
  lemmas follow the writes: every write of the copy loops goes to an address no earlier write
  used, so what was stored is what is read.
\<close>

subsection \<open>Writes that stay\<close>

text \<open>\<open>W\<close> holds the address and value of every write so far, all below \<open>hi\<close>.\<close>

definition kept :: "memory \<Rightarrow> (ptr \<times> cell) set \<Rightarrow> nat \<Rightarrow> bool" where
  "kept m W hi \<longleftrightarrow> (\<forall>(x, c) \<in> W. m x = Some c \<and> unat x < hi)"

fun array_cells :: "size_t \<Rightarrow> ptr \<Rightarrow> cell list \<Rightarrow> (ptr \<times> cell) set" where
  "array_cells sz p [] = {}"
| "array_cells sz p (x # xs) = insert (p, x) (array_cells sz (p + sz) xs)"

lemma kept_mono: "kept m W hi \<Longrightarrow> hi \<le> hi' \<Longrightarrow> kept m W hi'"
  by (fastforce simp: kept_def)

lemma kept_write:
  "kept m W hi \<Longrightarrow> p \<notin> fst ` W \<Longrightarrow> unat p < hi \<Longrightarrow> kept (m(p \<mapsto> c)) (insert (p, c) W) hi"
  by (force simp: kept_def)

lemma kept_fresh: "kept m W hi \<Longrightarrow> hi \<le> unat p \<Longrightarrow> p \<notin> fst ` W"
  by (force simp: kept_def)

lemma kept_store_array:
  assumes "kept m W hi" "hi \<le> unat p" "unat p + length xs * unat sz \<le> T" "0 < unat sz"
    "T < 18446744073709551616"
  shows "kept (store_array sz p xs m) (W \<union> array_cells sz p xs) (max hi T)"
  using assms
proof (induction xs arbitrary: m W hi p)
  case Nil
  then show ?case
    by (simp add: kept_mono)
next
  case (Cons x xs)
  have next_p: "unat (p + sz) = unat p + unat sz"
    using Cons.prems(3,5) by (intro unat_add_size_t) simp
  have "unat p < T"
    using Cons.prems(3,4) by simp
  then have first: "kept (m(p \<mapsto> x)) (insert (p, x) W) (unat p + 1)"
    using kept_write [OF kept_mono [OF Cons.prems(1), of "unat p + 1"]] kept_fresh [OF Cons.prems(1,2)]
      Cons.prems(2) by simp
  have "kept (store_array sz (p + sz) xs (m(p \<mapsto> x)))
      (insert (p, x) W \<union> array_cells sz (p + sz) xs) (max (unat p + 1) T)"
    by (rule Cons.IH [OF first]) (use Cons.prems(3,4,5) next_p in simp_all)
  moreover have "W \<union> array_cells sz p (x # xs) = insert (p, x) W \<union> array_cells sz (p + sz) xs"
    by auto
  ultimately show ?case
    unfolding store_array.simps using \<open>unat p < T\<close> by (auto intro: kept_mono)
qed

lemma array_cells_above:
  assumes "x \<in> fst ` array_cells sz p xs" "unat p + length xs * unat sz < 18446744073709551616"
  shows "unat p \<le> unat x"
  using assms
proof (induction xs arbitrary: p)
  case (Cons c xs)
  have "unat (p + sz) = unat p + unat sz"
    using Cons.prems(2) by (intro unat_add_size_t) simp
  then show ?case
    using Cons.IH [of "p + sz"] Cons.prems by fastforce
qed simp

lemma load_dims_kept:
  "kept m W hi \<Longrightarrow> array_cells 8 q (map CInt64 ds) \<subseteq> W \<Longrightarrow> load_dims q (length ds) m = Some ds"
  by (induction ds arbitrary: q) (auto simp: kept_def)


subsection \<open>Allocations of the copy\<close>

definition used_end :: "LumenArena \<Rightarrow> nat" where
  "used_end a = unat (arena_ptr a) + unat (offset a)"

text \<open>An arena of the size the engine uses, well below the range of \<^verbatim>\<open>size_t\<close>.\<close>

definition roomy :: "nat \<Rightarrow> LumenArena \<Rightarrow> bool" where
  "roomy B a \<longleftrightarrow> arena_inv B a \<and> unat (capacity a) < 4611686018427387904"

lemma used_end_bound: "roomy B a \<Longrightarrow> used_end a < 18446744073709551616"
  by (simp add: roomy_def arena_inv_def used_end_def)

lemma alloc_typed_range:
  assumes "roomy B a" "unat al \<le> 64" "0 < unat sz" "unat sz \<le> 8" "n < 1099511627776"
    and run: "alloc_typed sz al (of_nat n) a = (p, a')"
  shows "roomy B a'" "used_end a \<le> used_end a'"
    "p \<noteq> 0 \<Longrightarrow> used_end a \<le> unat p \<and> unat p + n * unat sz \<le> used_end a'"
proof -
  have "n * unat sz \<le> n * 8"
    using assms(4) by simp
  then have ns: "n * unat sz < 8796093022208"
    using assms(5) by linarith
  then have bytes: "unat (of_nat n * sz) = n * unat sz"
    using assms(5) unat_mult_size_t [of "of_nat n" sz] by (simp add: unat_of_nat_size_t)
  have "request_fits (of_nat n * sz) al a"
    using assms(1,2) ns by (simp add: request_fits_def bytes effective_def roomy_def)
  moreover have "valid_alignment al"
    using assms(2) by (simp add: valid_alignment_def)
  ultimately have spec: "p = 0 \<and> a' = a \<or>
      p \<noteq> 0 \<and> arena_inv B a' \<and> (\<exists>new. a' = a\<lparr>offset := new\<rparr>) \<and> effective al dvd unat p \<and>
      in_range (used_end a) (unat (arena_ptr a) + unat (offset a')) (unat p, round_up64 (n * unat sz))"
    using alloc_raw_granted [of B a al "of_nat n * sz" p a'] assms(1) run
    by (simp add: roomy_def alloc_typed_def used_end_def bytes)
  then show "roomy B a'"
    using assms(1) by (auto simp: roomy_def)
  show "used_end a \<le> used_end a'"
    using spec by (auto simp: used_end_def in_range_def)
  assume "p \<noteq> 0"
  then show "used_end a \<le> unat p \<and> unat p + n * unat sz \<le> used_end a'"
    using spec round_up64_simps(1) [of "n * unat sz"]
    by (auto simp: used_end_def in_range_def simp del: round_up64_simps)
qed



subsection \<open>One node\<close>

definition node_slot :: "ptr \<Rightarrow> nat \<Rightarrow> ptr" where
  "node_slot arr i = arr + of_nat i * 8"

definition node_slots :: "node_arrays \<Rightarrow> nat \<Rightarrow> ptr set" where
  "node_slots arr i = {node_slot (node_names arr) i, node_slot (node_dims arr) i, node_slot (dim_counts arr) i}"

text \<open>Node \<open>i\<close> is stored: its three slots, its name with the final zero, and its dimensions.\<close>

definition node_at :: "(ptr \<times> cell) set \<Rightarrow> node_arrays \<Rightarrow> nat \<Rightarrow> string \<times> int64 list \<Rightarrow> bool" where
  "node_at W arr i = (\<lambda>(name, dims). \<exists>p q.
     {(node_slot (node_names arr) i, CPtr p), (node_slot (node_dims arr) i, CPtr q),
      (node_slot (dim_counts arr) i, CSize (of_nat (length dims)))} \<union>
     array_cells 1 p (map CChar (name @ [CHR 0x00])) \<union> array_cells 8 q (map CInt64 dims) \<subseteq> W)"

definition short_node :: "string \<times> int64 list \<Rightarrow> bool" where
  "short_node = (\<lambda>(name, dims). length name + 1 < 1099511627776 \<and> length dims < 1099511627776)"

lemma node_at_mono: "node_at W arr i nd \<Longrightarrow> W \<subseteq> W' \<Longrightarrow> node_at W' arr i nd"
  unfolding node_at_def by (cases nd) (simp, blast)

text \<open>Allocating an array and copying it there.\<close>

lemma array_copy_kept:
  assumes kept: "kept m W (used_end a)" and room: "roomy B a"
    and sz: "unat al \<le> 64" "0 < unat sz" "unat sz \<le> 8" "length xs < 1099511627776"
    and run: "alloc_typed sz al (of_nat (length xs)) a = (p, a1)" "p \<noteq> 0"
  shows "kept (store_array sz p xs m) (W \<union> array_cells sz p xs) (used_end a1)"
    "\<And>x. x \<in> fst ` array_cells sz p xs \<Longrightarrow> used_end a \<le> unat x"
    "roomy B a1" "used_end a \<le> used_end a1"
proof -
  note range = alloc_typed_range [OF room sz run(1)]
  have p: "used_end a \<le> unat p" "unat p + length xs * unat sz \<le> used_end a1"
    using range(3) run(2) by auto
  have bound: "used_end a1 < 18446744073709551616"
    by (rule used_end_bound [OF range(1)])
  show "kept (store_array sz p xs m) (W \<union> array_cells sz p xs) (used_end a1)"
    using kept_store_array [OF kept p sz(2) bound] range(2) by (simp add: max_def)
  show "used_end a \<le> unat x" if "x \<in> fst ` array_cells sz p xs" for x
    using array_cells_above [OF that] p bound by linarith
  show "roomy B a1" "used_end a \<le> used_end a1"
    using range by simp_all
qed

lemma copy_node_unfold:
  assumes "copy_node arr (i, name, dims) (a, m) = Some (a', m')"
  obtains p q a1 where
    "alloc_typed 1 1 (of_nat (length (map CChar (name @ [CHR 0x00])))) a = (p, a1)" "p \<noteq> 0"
    "alloc_typed 8 8 (of_nat (length (map CInt64 dims))) a1 = (q, a')" "q \<noteq> 0"
    "m' = (store_array 8 q (map CInt64 dims)
        ((store_array 1 p (map CChar (name @ [CHR 0x00])) m)(node_slot (node_names arr) i \<mapsto> CPtr p)))
        (node_slot (node_dims arr) i \<mapsto> CPtr q, node_slot (dim_counts arr) i \<mapsto> CSize (of_nat (length dims)))"
proof -
  obtain p a1 where al1: "alloc_typed 1 1 (1 + of_nat (length name)) a = (p, a1)"
    by (metis surj_pair)
  obtain q a2 where al2: "alloc_typed 8 8 (of_nat (length dims)) a1 = (q, a2)"
    by (metis surj_pair)
  show thesis
    by (rule that [of p a1 q])
      (use assms in \<open>simp_all add: copy_node_def al1 al2 node_slot_def Let_def add.commute split: if_splits\<close>)
qed

lemma copy_node_kept:
  assumes kept: "kept m W (used_end a)" and room: "roomy B a" and nd: "short_node (name, dims)"
    and slots: "node_slots arr i \<inter> fst ` W = {}" "\<forall>x \<in> node_slots arr i. unat x < used_end a"
      "distinct [node_slot (node_names arr) i, node_slot (node_dims arr) i, node_slot (dim_counts arr) i]"
    and run: "copy_node arr (i, name, dims) (a, m) = Some (a', m')"
  shows "roomy B a' \<and> used_end a \<le> used_end a' \<and>
    (\<exists>W'. kept m' W' (used_end a') \<and> W \<subseteq> W' \<and> node_at W' arr i (name, dims) \<and>
       fst ` W' \<subseteq> fst ` W \<union> node_slots arr i \<union> {x. used_end a \<le> unat x})"
proof -
  let ?xs = "map CChar (name @ [CHR 0x00])" and ?ys = "map CInt64 dims"
  let ?s = "node_slot (node_names arr) i" and ?t = "node_slot (node_dims arr) i" and ?u = "node_slot (dim_counts arr) i"
  obtain p q a1 where al1: "alloc_typed 1 1 (of_nat (length ?xs)) a = (p, a1)" "p \<noteq> 0"
    and al2: "alloc_typed 8 8 (of_nat (length ?ys)) a1 = (q, a')" "q \<noteq> 0"
    and m': "m' = (store_array 8 q ?ys ((store_array 1 p ?xs m)(?s \<mapsto> CPtr p)))
        (?t \<mapsto> CPtr q, ?u \<mapsto> CSize (of_nat (length dims)))"
    using copy_node_unfold [OF run] by metis
  have len: "length ?xs < 1099511627776" "length ?ys < 1099511627776"
    using nd by (simp_all add: short_node_def)
  define C D where "C = array_cells 1 p ?xs" and "D = array_cells 8 q ?ys"
  have c: "kept (store_array 1 p ?xs m) (W \<union> C) (used_end a1)" "\<And>x. x \<in> fst ` C \<Longrightarrow> used_end a \<le> unat x"
      "roomy B a1" "used_end a \<le> used_end a1"
    using array_copy_kept [OF kept room _ _ _ len(1) al1] by (simp_all add: C_def)
  have slot_ok: "unat x < used_end a" "x \<notin> fst ` W" if "x \<in> {?s, ?t, ?u}" for x
    using slots(1,2) that unfolding node_slots_def by blast+
  have below: "x \<notin> fst ` C" if "x \<in> {?s, ?t, ?u}" for x
    using slot_ok(1) [OF that] c(2) by (meson not_le)
  have "?s \<notin> fst ` (W \<union> C)" "unat ?s < used_end a1"
    using slot_ok [of ?s] below [of ?s] c(4) by (simp_all add: image_Un)
  note k1 = kept_write [OF c(1) this, of "CPtr p"]
  have d: "kept (store_array 8 q ?ys ((store_array 1 p ?xs m)(?s \<mapsto> CPtr p)))
        (insert (?s, CPtr p) (W \<union> C) \<union> D) (used_end a')" "\<And>x. x \<in> fst ` D \<Longrightarrow> used_end a1 \<le> unat x"
      "roomy B a'" "used_end a1 \<le> used_end a'"
    using array_copy_kept [OF k1 c(3) _ _ _ len(2) al2] by (simp_all add: D_def)
  let ?E = "insert (?s, CPtr p) (W \<union> C) \<union> D"
  have ne: "?t \<noteq> ?s" "?u \<noteq> ?s" "?u \<noteq> ?t"
    using slots(3) by auto
  have below': "x \<notin> fst ` D" if "x \<in> {?s, ?t, ?u}" for x
    using slot_ok(1) [OF that] c(4) d(2) by (meson less_le_trans not_le)
  have "?t \<notin> fst ` ?E" "unat ?t < used_end a'"
    using slot_ok [of ?t] below [of ?t] below' [of ?t] c(4) d(4) ne by (simp_all add: image_Un)
  note k2 = kept_write [OF d(1) this, of "CPtr q"]
  have "?u \<notin> fst ` (insert (?t, CPtr q) ?E)" "unat ?u < used_end a'"
    using slot_ok [of ?u] below [of ?u] below' [of ?u] c(4) d(4) ne by (simp_all add: image_Un)
  note k3 = kept_write [OF k2 this, of "CSize (of_nat (length dims))", folded m']
  have "node_at (insert (?u, CSize (of_nat (length dims))) (insert (?t, CPtr q) ?E)) arr i (name, dims)"
    unfolding node_at_def case_prod_conv by (rule exI [of _ p], rule exI [of _ q]) (auto simp: C_def D_def)
  moreover have "fst ` (insert (?u, CSize (of_nat (length dims))) (insert (?t, CPtr q) ?E)) \<subseteq>
      fst ` W \<union> node_slots arr i \<union> {x. used_end a \<le> unat x}"
    using c(2,4) d(2) by (fastforce simp: node_slots_def)
  ultimately show ?thesis
    using k3 c(4) d(3,4) by (intro conjI exI [of _ "insert (?u, CSize (of_nat (length dims))) (insert (?t, CPtr q) ?E)"]) auto
qed



subsection \<open>All nodes\<close>

text \<open>The three slot arrays of one direction: apart from each other and below the copies.\<close>

definition slots_apart :: "node_arrays \<Rightarrow> nat \<Rightarrow> bool" where
  "slots_apart arr N \<longleftrightarrow>
     (\<forall>i < N. distinct [node_slot (node_names arr) i, node_slot (node_dims arr) i, node_slot (dim_counts arr) i] \<and>
        (\<forall>j < N. i \<noteq> j \<longrightarrow> node_slots arr i \<inter> node_slots arr j = {}))"

lemma unat_node_slot:
  assumes "unat arr + N * 8 < 18446744073709551616" "i < N"
  shows "unat (node_slot arr i) = unat arr + i * 8"
proof -
  have i: "i * 8 < N * 8"
    using assms(2) by simp
  then have "i < 18446744073709551616" "i * 8 < 18446744073709551616"
    using assms(1) by linarith+
  then have "unat (of_nat i * 8 :: size_t) = i * 8"
    using unat_mult_size_t [of "of_nat i" 8] by (simp add: unat_of_nat_size_t)
  then show ?thesis
    unfolding node_slot_def using i assms(1) by (subst unat_add_size_t) linarith+
qed

lemma slots_apart_ranges:
  assumes "unat (node_names arr) + N * 8 \<le> unat (node_dims arr)"
    "unat (node_dims arr) + N * 8 \<le> unat (dim_counts arr)"
    "unat (dim_counts arr) + N * 8 < 18446744073709551616"
  shows "slots_apart arr N"
proof -
  have s: "unat (node_slot (node_names arr) i) = unat (node_names arr) + i * 8"
    "unat (node_slot (node_dims arr) i) = unat (node_dims arr) + i * 8"
    "unat (node_slot (dim_counts arr) i) = unat (dim_counts arr) + i * 8" "i * 8 < N * 8" if "i < N" for i
    using that assms by (simp_all add: unat_node_slot [OF _ that])
  have ne: "x \<noteq> y" if "unat x \<noteq> unat y" for x y :: ptr
    using that by auto
  have apart: "node_slot (node_names arr) i \<noteq> node_slot (node_dims arr) j" "node_slot (node_names arr) i \<noteq> node_slot (dim_counts arr) j"
    "node_slot (node_dims arr) i \<noteq> node_slot (dim_counts arr) j" if "i < N" "j < N" for i j
    using s [OF that(1)] s [OF that(2)] assms by (intro ne; linarith)+
  have same: "node_slot (node_names arr) i \<noteq> node_slot (node_names arr) j" "node_slot (node_dims arr) i \<noteq> node_slot (node_dims arr) j"
    "node_slot (dim_counts arr) i \<noteq> node_slot (dim_counts arr) j" if "i < N" "j < N" "i \<noteq> j" for i j
    using s [OF that(1)] s [OF that(2)] that(3) by (intro ne; linarith)+
  have "node_slots arr i \<inter> node_slots arr j = {}" if "i < N" "j < N" "i \<noteq> j" for i j
    unfolding node_slots_def
    using apart [OF that(1,2)] apart [OF that(2,1)] same [OF that] by (simp add: insert_eq_iff eq_commute)
  then show ?thesis
    unfolding slots_apart_def using apart by simp
qed

lemma cover_step:
  "X \<subseteq> A \<union> S \<union> H \<Longrightarrow> Y \<subseteq> X \<union> U' \<union> H' \<Longrightarrow> S \<subseteq> U \<Longrightarrow> U' \<subseteq> U \<Longrightarrow> H' \<subseteq> H \<Longrightarrow> Y \<subseteq> A \<union> U \<union> H"
  by blast

text \<open>The slots of the nodes still to be copied stay untouched by the copy of node \<open>k\<close>.\<close>

lemma slots_stay_pending:
  assumes "node_slots arr i \<inter> fst ` W = {}" "\<forall>x \<in> node_slots arr i. unat x < e"
    "node_slots arr i \<inter> node_slots arr k = {}"
    "fst ` W1 \<subseteq> fst ` W \<union> node_slots arr k \<union> {x. e \<le> unat x}" "e \<le> e1"
  shows "node_slots arr i \<inter> fst ` W1 = {} \<and> (\<forall>x \<in> node_slots arr i. unat x < e1)"
proof -
  have "x \<notin> fst ` W1" if x: "x \<in> node_slots arr i" for x
  proof
    assume "x \<in> fst ` W1"
    then have "x \<in> fst ` W \<or> x \<in> node_slots arr k \<or> e \<le> unat x"
      using assms(4) by blast
    then show False
      using assms(1-3) x by (meson disjoint_iff not_le)
  qed
  then show ?thesis
    using assms(2,5) by (meson disjoint_iff less_le_trans)
qed

lemma cells_covered:
  assumes "fst ` W1 \<subseteq> fst ` W \<union> node_slots arr k \<union> {x. e \<le> unat x}"
    "fst ` W' \<subseteq> fst ` W1 \<union> (\<Union>i \<in> {Suc k..<N}. node_slots arr i) \<union> {x. e1 \<le> unat x}" "e \<le> e1" "k < N"
  shows "fst ` W' \<subseteq> fst ` W \<union> (\<Union>i \<in> {k..<N}. node_slots arr i) \<union> {x. e \<le> unat x}"
proof -
  have "node_slots arr k \<subseteq> (\<Union>i \<in> {k..<N}. node_slots arr i)"
    using assms(4) by (intro UN_upper) simp
  moreover have "(\<Union>i \<in> {Suc k..<N}. node_slots arr i) \<subseteq> (\<Union>i \<in> {k..<N}. node_slots arr i)"
    by (rule UN_mono) auto
  moreover have "{x :: ptr. e1 \<le> unat x} \<subseteq> {x. e \<le> unat x}"
    using assms(3) by auto
  ultimately show ?thesis
    by (rule cover_step [OF assms(1,2)])
qed

lemma copy_nodes_kept:
  assumes "kept m W (used_end a)" "roomy B a" "list_all short_node nds"
    "slots_apart arr N" "k + length nds = N"
    "\<forall>i. k \<le> i \<longrightarrow> i < N \<longrightarrow> node_slots arr i \<inter> fst ` W = {} \<and> (\<forall>x \<in> node_slots arr i. unat x < used_end a)"
    "copy_nodes arr (enumerate k nds) (a, m) = Some (a', m')"
  shows "roomy B a' \<and> used_end a \<le> used_end a' \<and>
    (\<exists>W'. kept m' W' (used_end a') \<and> W \<subseteq> W' \<and> (\<forall>j < length nds. node_at W' arr (k + j) (nds ! j)) \<and>
       fst ` W' \<subseteq> fst ` W \<union> (\<Union>i \<in> {k..<N}. node_slots arr i) \<union> {x. used_end a \<le> unat x})"
  using assms
proof (induction nds arbitrary: k a m W)
  case Nil
  then show ?case by (auto intro: exI [of _ W])
next
  case (Cons nd nds)
  obtain name dims where nd: "nd = (name, dims)"
    by (cases nd)
  obtain a1 m1 where one: "copy_node arr (k, name, dims) (a, m) = Some (a1, m1)"
    and rest: "copy_nodes arr (enumerate (Suc k) nds) (a1, m1) = Some (a', m')"
    using Cons.prems(7) nd by (auto split: option.splits)
  have k: "k < N"
    using Cons.prems(5) by simp
  have here: "short_node (name, dims)" "node_slots arr k \<inter> fst ` W = {}"
    "\<forall>x \<in> node_slots arr k. unat x < used_end a"
    "distinct [node_slot (node_names arr) k, node_slot (node_dims arr) k, node_slot (dim_counts arr) k]"
    subgoal using Cons.prems(3) by (simp add: nd)
    subgoal using Cons.prems(6) k by blast
    subgoal using Cons.prems(6) k by blast
    subgoal using Cons.prems(4) k by (simp add: slots_apart_def)
    done
  obtain W1 where W1: "kept m1 W1 (used_end a1)" "W \<subseteq> W1" "node_at W1 arr k (name, dims)"
    "fst ` W1 \<subseteq> fst ` W \<union> node_slots arr k \<union> {x. used_end a \<le> unat x}"
    and r1: "roomy B a1" "used_end a \<le> used_end a1"
    using copy_node_kept [OF Cons.prems(1,2) here one] by blast
  have "node_slots arr i \<inter> fst ` W1 = {} \<and> (\<forall>x \<in> node_slots arr i. unat x < used_end a1)"
    if "Suc k \<le> i" "i < N" for i
  proof (rule slots_stay_pending [OF _ _ _ W1(4) r1(2)])
    show "node_slots arr i \<inter> fst ` W = {}" "\<forall>x \<in> node_slots arr i. unat x < used_end a"
      using Cons.prems(6) Suc_leD [OF that(1)] that(2) by blast+
    show "node_slots arr i \<inter> node_slots arr k = {}"
      using Cons.prems(4) that k by (simp add: slots_apart_def)
  qed
  then have pending: "\<forall>i. Suc k \<le> i \<longrightarrow> i < N \<longrightarrow>
      node_slots arr i \<inter> fst ` W1 = {} \<and> (\<forall>x \<in> node_slots arr i. unat x < used_end a1)"
    by blast
  have "list_all short_node nds" "Suc k + length nds = N"
    using Cons.prems(3,5) by simp_all
  from Cons.IH [OF W1(1) r1(1) this(1) Cons.prems(4) this(2) pending rest]
  obtain W' where W': "kept m' W' (used_end a')" "W1 \<subseteq> W'" "\<forall>j < length nds. node_at W' arr (Suc k + j) (nds ! j)"
    "fst ` W' \<subseteq> fst ` W1 \<union> (\<Union>i \<in> {Suc k..<N}. node_slots arr i) \<union> {x. used_end a1 \<le> unat x}"
    and r2: "roomy B a'" "used_end a1 \<le> used_end a'"
    by blast
  have "\<forall>j < length (nd # nds). node_at W' arr (k + j) ((nd # nds) ! j)"
    using W'(3) node_at_mono [OF W1(3) W'(2)] by (auto simp: nth_Cons nd split: nat.splits)
  moreover have "fst ` W' \<subseteq> fst ` W \<union> (\<Union>i \<in> {k..<N}. node_slots arr i) \<union> {x. used_end a \<le> unat x}"
    by (rule cells_covered [OF W1(4) W'(4) r1(2) k])
  moreover have "W \<subseteq> W'"
    using W1(2) W'(2) by (rule subset_trans)
  moreover have "used_end a \<le> used_end a'"
    using r1(2) r2(2) by (rule le_trans)
  ultimately show ?case
    using W'(1) r2(1) by (intro conjI exI [of _ W'])
qed


lemma copy_nodes_not_null:
  assumes "copy_nodes arr (enumerate k (nd # nds)) (a, m) = Some r"
  shows "node_names arr \<noteq> 0 \<and> node_dims arr \<noteq> 0 \<and> dim_counts arr \<noteq> 0"
  using assms
  by (auto simp: copy_node_def Let_def split: option.splits prod.splits if_splits)

text \<open>The six arrays of the migration, allocated one behind the other.\<close>

lemma migrate_unfold:
  assumes "migrate_metadata_to_arena eng (a, m) = Some (eng', a', m')"
  obtains a1 a2 a3 a4 a5 a6 am in_arr out_arr where
    "alloc_typed 8 8 (of_nat (length (input_node_dims eng))) a = (node_names in_arr, a1)"
    "alloc_typed 8 8 (of_nat (length (output_node_dims eng))) a1 = (node_names out_arr, a2)"
    "alloc_typed 8 8 (of_nat (length (input_node_dims eng))) a2 = (node_dims in_arr, a3)"
    "alloc_typed 8 8 (of_nat (length (output_node_dims eng))) a3 = (node_dims out_arr, a4)"
    "alloc_typed 8 8 (of_nat (length (input_node_dims eng))) a4 = (dim_counts in_arr, a5)"
    "alloc_typed 8 8 (of_nat (length (output_node_dims eng))) a5 = (dim_counts out_arr, a6)"
    "copy_nodes in_arr (enumerate 0 (zip (input_names eng) (input_node_dims eng))) (a6, m) = Some am"
    "copy_nodes out_arr (enumerate 0 (zip (output_names eng) (output_node_dims eng))) am = Some (a', m')"
    "metadata_migrated eng'" "arena_inputs eng' = in_arr" "arena_outputs eng' = out_arr"
proof -
  let ?ni = "of_nat (length (input_node_dims eng)) :: size_t"
  let ?no = "of_nat (length (output_node_dims eng)) :: size_t"
  obtain p1 a1 p2 a2 p3 a3 where al: "alloc_typed 8 8 ?ni a = (p1, a1)" "alloc_typed 8 8 ?no a1 = (p2, a2)"
    "alloc_typed 8 8 ?ni a2 = (p3, a3)"
    by (metis surj_pair)
  obtain p4 a4 p5 a5 p6 a6 where al': "alloc_typed 8 8 ?no a3 = (p4, a4)" "alloc_typed 8 8 ?ni a4 = (p5, a5)"
    "alloc_typed 8 8 ?no a5 = (p6, a6)"
    by (metis surj_pair)
  let ?ins = "\<lparr>node_names = p1, node_dims = p3, dim_counts = p5\<rparr>"
  let ?outs = "\<lparr>node_names = p2, node_dims = p4, dim_counts = p6\<rparr>"
  obtain am where
    "copy_nodes ?ins (enumerate 0 (zip (input_names eng) (input_node_dims eng))) (a6, m) = Some am"
    "copy_nodes ?outs (enumerate 0 (zip (output_names eng) (output_node_dims eng))) am = Some (a', m')"
    "metadata_migrated eng'" "arena_inputs eng' = ?ins" "arena_outputs eng' = ?outs"
    using assms al al' by (auto simp: migrate_metadata_to_arena_def Let_def split: option.splits)
  then show thesis
    using al al' by (intro that [of ?ins a1 ?outs a2 a3 a4 a5 a6 am]) simp_all
qed

lemma node_slots_bounds:
  assumes "x \<in> node_slots arr i" "i < N"
    "unat (node_names arr) + N * 8 < 18446744073709551616" "unat (node_dims arr) + N * 8 < 18446744073709551616"
    "unat (dim_counts arr) + N * 8 < 18446744073709551616"
  shows "unat (node_names arr) \<le> unat x \<and> unat x < unat (node_names arr) + N * 8 \<or>
    unat (node_dims arr) \<le> unat x \<and> unat x < unat (node_dims arr) + N * 8 \<or>
    unat (dim_counts arr) \<le> unat x \<and> unat x < unat (dim_counts arr) + N * 8"
  using assms(1,2) by (auto simp: node_slots_def unat_node_slot [OF assms(3)] unat_node_slot [OF assms(4)] unat_node_slot [OF assms(5)])

lemma first_shape_kept:
  assumes "kept m W hi" "node_at W arr 0 (name, dims)" "length dims < 1099511627776"
  shows "first_shape arr m = Some dims"
proof -
  obtain q where q: "(node_slot (node_dims arr) 0, CPtr q) \<in> W"
    "(node_slot (dim_counts arr) 0, CSize (of_nat (length dims))) \<in> W" "array_cells 8 q (map CInt64 dims) \<subseteq> W"
    using assms(2) by (auto simp: node_at_def)
  then have "m (node_dims arr) = Some (CPtr q)" "m (dim_counts arr) = Some (CSize (of_nat (length dims)))"
    using assms(1) by (auto simp: kept_def node_slot_def)
  then show ?thesis
    using load_dims_kept [OF assms(1) q(3)] assms(3) by (simp add: first_shape_def unat_of_nat_size_t)
qed


text \<open>What the copy needs of the model: names and shapes for every node, of a sane length.\<close>

definition sane_nodes :: "string list \<Rightarrow> int64 list list \<Rightarrow> bool" where
  "sane_nodes names dims \<longleftrightarrow> names \<noteq> [] \<and> length names = length dims \<and> length dims < 1099511627776 \<and>
     list_all short_node (zip names dims)"

lemma sane_nodes_zip:
  assumes "sane_nodes names dims"
  shows "zip names dims = (hd names, hd dims) # zip (tl names) (tl dims)" "length (zip names dims) = length dims"
    "length (hd dims) < 1099511627776"
  using assms by (cases names; cases dims; auto simp: sane_nodes_def short_node_def)+

lemma interleaved_arrays:
  assumes "unat (node_names ia) + ni * 8 \<le> unat (node_names oa)" "unat (node_names oa) + no * 8 \<le> unat (node_dims ia)"
    "unat (node_dims ia) + ni * 8 \<le> unat (node_dims oa)" "unat (node_dims oa) + no * 8 \<le> unat (dim_counts ia)"
    "unat (dim_counts ia) + ni * 8 \<le> unat (dim_counts oa)" "unat (dim_counts oa) + no * 8 \<le> hi"
    "hi < 18446744073709551616"
  shows "slots_apart ia ni" "slots_apart oa no"
    "i < ni \<Longrightarrow> x \<in> node_slots ia i \<Longrightarrow> unat x < hi"
    "j < no \<Longrightarrow> y \<in> node_slots oa j \<Longrightarrow> unat y < hi"
    "i < ni \<Longrightarrow> j < no \<Longrightarrow> node_slots oa j \<inter> node_slots ia i = {}"
proof -
  show "slots_apart ia ni" "slots_apart oa no"
    by (rule slots_apart_ranges; use assms in linarith)+
  have inb: "unat (node_names ia) + ni * 8 < 18446744073709551616" "unat (node_dims ia) + ni * 8 < 18446744073709551616"
    "unat (dim_counts ia) + ni * 8 < 18446744073709551616" "unat (node_names oa) + no * 8 < 18446744073709551616"
    "unat (node_dims oa) + no * 8 < 18446744073709551616" "unat (dim_counts oa) + no * 8 < 18446744073709551616"
    using assms by linarith+
  show "unat x < hi" if "i < ni" "x \<in> node_slots ia i" for x i
    using node_slots_bounds [OF that(2,1) inb(1-3)] assms by linarith
  show "unat y < hi" if "j < no" "y \<in> node_slots oa j" for y j
    using node_slots_bounds [OF that(2,1) inb(4-6)] assms by linarith
  show "node_slots oa j \<inter> node_slots ia i = {}" if "i < ni" "j < no"
  proof (rule ccontr)
    assume "node_slots oa j \<inter> node_slots ia i \<noteq> {}"
    then obtain x where x: "x \<in> node_slots oa j" "x \<in> node_slots ia i"
      by blast
    show False
      using node_slots_bounds [OF x(2) that(1) inb(1-3)] node_slots_bounds [OF x(1) that(2) inb(4-6)] assms
      by linarith
  qed
qed

lemma both_copies_kept:
  assumes "kept m W (used_end a)" "W = {}" "roomy B a"
    and ins: "sane_nodes names_i dims_i" and outs: "sane_nodes names_o dims_o"
    and arrays: "slots_apart ia (length dims_i)" "slots_apart oa (length dims_o)"
      "\<And>i x. i < length dims_i \<Longrightarrow> x \<in> node_slots ia i \<Longrightarrow> unat x < used_end a"
      "\<And>j x. j < length dims_o \<Longrightarrow> x \<in> node_slots oa j \<Longrightarrow> unat x < used_end a"
      "\<And>i j. i < length dims_i \<Longrightarrow> j < length dims_o \<Longrightarrow> node_slots oa j \<inter> node_slots ia i = {}"
    and copy: "copy_nodes ia (enumerate 0 (zip names_i dims_i)) (a, m) = Some (a1, m1)"
      "copy_nodes oa (enumerate 0 (zip names_o dims_o)) (a1, m1) = Some (a2, m2)"
  shows "\<exists>W'. kept m2 W' (used_end a2) \<and>
    (\<forall>j < length dims_i. node_at W' ia j (zip names_i dims_i ! j)) \<and>
    (\<forall>j < length dims_o. node_at W' oa j (zip names_o dims_o ! j))"
proof -
  have li: "0 + length (zip names_i dims_i) = length dims_i" "list_all short_node (zip names_i dims_i)"
    and lo: "0 + length (zip names_o dims_o) = length dims_o" "list_all short_node (zip names_o dims_o)"
    using ins outs by (simp_all add: sane_nodes_def)
  have "\<forall>i. 0 \<le> i \<longrightarrow> i < length dims_i \<longrightarrow>
      node_slots ia i \<inter> fst ` W = {} \<and> (\<forall>x \<in> node_slots ia i. unat x < used_end a)"
    using assms(2) arrays(3) by blast
  from copy_nodes_kept [OF assms(1,3) li(2) arrays(1) li(1) this copy(1)]
  obtain W1 where W1: "kept m1 W1 (used_end a1)" "\<forall>j < length dims_i. node_at W1 ia j (zip names_i dims_i ! j)"
    "fst ` W1 \<subseteq> (\<Union>i \<in> {0..<length dims_i}. node_slots ia i) \<union> {x. used_end a \<le> unat x}"
    and r: "roomy B a1" "used_end a \<le> used_end a1"
    using li(1) assms(2) by auto
  have "node_slots oa j \<inter> fst ` W1 = {} \<and> (\<forall>x \<in> node_slots oa j. unat x < used_end a1)" if "j < length dims_o" for j
  proof -
    have "x \<notin> fst ` W1" if x: "x \<in> node_slots oa j" for x
    proof
      assume "x \<in> fst ` W1"
      then have "(\<exists>i < length dims_i. x \<in> node_slots ia i) \<or> used_end a \<le> unat x"
        using W1(3) by fastforce
      then show False
        using arrays(4) [OF \<open>j < length dims_o\<close> x] arrays(5) [OF _ \<open>j < length dims_o\<close>] x
        by (meson disjoint_iff not_le)
    qed
    then show ?thesis
      using arrays(4) [OF that] r(2) by (meson disjoint_iff less_le_trans)
  qed
  then have "\<forall>i. 0 \<le> i \<longrightarrow> i < length dims_o \<longrightarrow>
      node_slots oa i \<inter> fst ` W1 = {} \<and> (\<forall>x \<in> node_slots oa i. unat x < used_end a1)"
    by blast
  from copy_nodes_kept [OF W1(1) r(1) lo(2) arrays(2) lo(1) this copy(2)]
  obtain W2 where "kept m2 W2 (used_end a2)" "W1 \<subseteq> W2" "\<forall>j < length dims_o. node_at W2 oa j (zip names_o dims_o ! j)"
    using lo(1) by auto
  then show ?thesis
    using W1(2) node_at_mono by blast
qed

lemma migrate_keeps_first_shapes:
  assumes room: "roomy B a" and ins: "sane_nodes (input_names eng) (input_node_dims eng)"
    and outs: "sane_nodes (output_names eng) (output_node_dims eng)"
    and run: "migrate_metadata_to_arena eng (a, m) = Some (eng', a', m')"
  shows "metadata_migrated eng' \<and> first_shape (arena_inputs eng') m' = Some (hd (input_node_dims eng)) \<and>
    first_shape (arena_outputs eng') m' = Some (hd (output_node_dims eng))"
proof -
  let ?ni = "length (input_node_dims eng)" and ?no = "length (output_node_dims eng)"
  have len: "?ni < 1099511627776" "?no < 1099511627776"
    using ins outs by (simp_all add: sane_nodes_def)
  obtain a1 a2 a3 a4 a5 a6 am ia oa where
    al: "alloc_typed 8 8 (of_nat ?ni) a = (node_names ia, a1)" "alloc_typed 8 8 (of_nat ?no) a1 = (node_names oa, a2)"
      "alloc_typed 8 8 (of_nat ?ni) a2 = (node_dims ia, a3)" "alloc_typed 8 8 (of_nat ?no) a3 = (node_dims oa, a4)"
      "alloc_typed 8 8 (of_nat ?ni) a4 = (dim_counts ia, a5)" "alloc_typed 8 8 (of_nat ?no) a5 = (dim_counts oa, a6)"
    and copy: "copy_nodes ia (enumerate 0 (zip (input_names eng) (input_node_dims eng))) (a6, m) = Some am"
      "copy_nodes oa (enumerate 0 (zip (output_names eng) (output_node_dims eng))) am = Some (a', m')"
    and eng': "metadata_migrated eng'" "arena_inputs eng' = ia" "arena_outputs eng' = oa"
    using migrate_unfold [OF run] by metis
  have nn: "node_names ia \<noteq> 0" "node_dims ia \<noteq> 0" "dim_counts ia \<noteq> 0"
      "node_names oa \<noteq> 0" "node_dims oa \<noteq> 0" "dim_counts oa \<noteq> 0"
    using copy_nodes_not_null copy sane_nodes_zip(1) [OF ins] sane_nodes_zip(1) [OF outs]
    by (metis surj_pair)+
  note r1 = alloc_typed_range [OF room _ _ _ len(1) al(1), simplified]
  note r2 = alloc_typed_range [OF r1(1) _ _ _ len(2) al(2), simplified]
  note r3 = alloc_typed_range [OF r2(1) _ _ _ len(1) al(3), simplified]
  note r4 = alloc_typed_range [OF r3(1) _ _ _ len(2) al(4), simplified]
  note r5 = alloc_typed_range [OF r4(1) _ _ _ len(1) al(5), simplified]
  note r6 = alloc_typed_range [OF r5(1) _ _ _ len(2) al(6), simplified]
  note bound = used_end_bound [OF r6(1)]
  note arrays = interleaved_arrays [of ia ?ni oa ?no "used_end a6"]
  obtain a7 m7 where am: "am = (a7, m7)"
    by (cases am)
  have "\<exists>W'. kept m' W' (used_end a') \<and>
    (\<forall>j < ?ni. node_at W' ia j (zip (input_names eng) (input_node_dims eng) ! j)) \<and>
    (\<forall>j < ?no. node_at W' oa j (zip (output_names eng) (output_node_dims eng) ! j))"
    using r1(3) [OF nn(1)] r2(3) [OF nn(4)] r3(3) [OF nn(2)] r4(3) [OF nn(5)] r5(3) [OF nn(3)] r6(3) [OF nn(6)] bound
    by (intro both_copies_kept [where W = "{}", OF _ refl r6(1) ins outs _ _ _ _ _ copy(1) [unfolded am] copy(2) [unfolded am]]
          arrays) (simp_all add: kept_def)
  moreover have "0 < ?ni" "0 < ?no"
    using ins outs by (auto simp: sane_nodes_def)
  ultimately obtain W' where W': "kept m' W' (used_end a')"
    "node_at W' ia 0 (hd (input_names eng), hd (input_node_dims eng))"
    "node_at W' oa 0 (hd (output_names eng), hd (output_node_dims eng))"
    using sane_nodes_zip(1) [OF ins] sane_nodes_zip(1) [OF outs] by (metis nth_Cons_0)
  show ?thesis
    using first_shape_kept [OF W'(1,2) sane_nodes_zip(3) [OF ins]]
      first_shape_kept [OF W'(1,3) sane_nodes_zip(3) [OF outs]] eng' by simp
qed



subsection \<open>The shapes after the move\<close>

text \<open>Moving the metadata to the arena does not change what \<^verbatim>\<open>run\<close> computes with. When the
  constructor succeeds with an arena, the input and output shapes read through the arena's
  pointers are those the engine without an arena keeps in its vectors; so are all later runs,
  since the arena gives the blocks of the warm-up to no request.\<close>

lemma arena_engine_reads_same_shapes:
  assumes plain: "engine_new sess None = Some (eng, None)"
    and moved: "engine_new sess (Some (a, m)) = Some (eng', Some (a', m'))"
    and room: "roomy B a"
    and ins: "sane_nodes (map fst (session_inputs sess)) (input_node_dims eng)"
    and outs: "sane_nodes (map fst (session_outputs sess)) (output_node_dims eng)"
  shows "engine_shapes eng' m' = engine_shapes eng mem"
proof -
  have read: "engine_read_model sess = Some eng"
    using plain by (auto simp: engine_new_def split: option.splits)
  then have run: "migrate_metadata_to_arena eng (a, m) = Some (eng', a', m')"
    using moved by (auto simp: engine_new_def split: option.splits prod.splits)
  have fields: "input_names eng = map fst (session_inputs sess)" "output_names eng = map fst (session_outputs sess)"
      "\<not> metadata_migrated eng"
    using read by (auto simp: engine_read_model_def split: option.splits)
  have "input_node_dims eng \<noteq> []" "output_node_dims eng \<noteq> []"
    using ins outs by (auto simp: sane_nodes_def)
  then show ?thesis
    using migrate_keeps_first_shapes [OF room _ _ run] ins outs fields
    by (simp add: engine_shapes_def list.case_eq_if)
qed

end
