(* ===== verification/Thread_Pool.thy ===== *)
theory Thread_Pool
  imports Queue_Interfaces Config Engine_Metadata
begin

section \<open>The thread pool\<close>

text \<open>
  \<^verbatim>\<open>src/ThreadPool.cpp\<close>: the number of workers, the isolated pod of each (an allocator and an
  engine), the body of \<^verbatim>\<open>worker_loop\<close>, and \<^verbatim>\<open>shutdown\<close>. The queues are used through the
  operations of their interfaces, which are arguments of the definitions here. A worker that
  meets an exception of the engine has no handler and takes the process down: the step has no
  result then, as for undefined behaviour.
\<close>

subsection \<open>Pods\<close>

datatype 'h pod_allocator = ArenaPod LumenArena memory | StandardPod "'h StandardOrtAllocator"

record 'h WorkerPod =
  allocator :: "'h pod_allocator"
  engine :: InferenceEngine

definition pod_Alloc ::
  "(size_t \<Rightarrow> 'h \<Rightarrow> ptr \<times> 'h) \<Rightarrow> size_t \<Rightarrow> 'h pod_allocator \<Rightarrow> ptr \<times> 'h pod_allocator" where
  "pod_Alloc ort_alloc n pa =
     (case pa of
        ArenaPod a m \<Rightarrow> (case arena_Alloc n a of (p, a') \<Rightarrow> (p, ArenaPod a' m))
      | StandardPod s \<Rightarrow> (case std_Alloc ort_alloc n s of (p, s') \<Rightarrow> (p, StandardPod s')))"

definition pod_Free :: "(ptr \<Rightarrow> 'h \<Rightarrow> 'h) \<Rightarrow> ptr \<Rightarrow> 'h pod_allocator \<Rightarrow> 'h pod_allocator" where
  "pod_Free ort_free p pa =
     (case pa of
        ArenaPod a m \<Rightarrow> ArenaPod (arena_Free p a) m
      | StandardPod s \<Rightarrow> StandardPod (std_Free ort_free p s))"

text \<open>The dynamic cast of the worker loop: only an arena is reset.\<close>

definition pod_reset :: "'h pod_allocator \<Rightarrow> 'h pod_allocator" where
  "pod_reset pa = (case pa of ArenaPod a m \<Rightarrow> ArenaPod (arena_reset a) m | StandardPod s \<Rightarrow> StandardPod s)"

definition pod_memory :: "'h pod_allocator \<Rightarrow> memory" where
  "pod_memory pa = (case pa of ArenaPod a m \<Rightarrow> m | StandardPod s \<Rightarrow> Map.empty)"

definition pool_thread_count :: "size_t \<Rightarrow> ConfigManager \<Rightarrow> size_t" where
  "pool_thread_count hardware_concurrency config =
     (if m_thread_count config = 0
      then (if hardware_concurrency = 0 then 2 else hardware_concurrency)
      else m_thread_count config)"

definition arena_capacity :: size_t where
  "arena_capacity = 64 * 1024 * 1024"

datatype pool_error = ArenaFailed arena_error | EngineFailed engine_error | ThreadFailed

text \<open>
  The pod of one turn of the constructor's loop. The arguments stand for the C library, the
  runtime's memory descriptor, its API version, the fresh state of its default allocator and the
  runtime.
\<close>

definition make_pod ::
  "(size_t \<Rightarrow> size_t \<Rightarrow> ptr) \<Rightarrow> ptr option \<Rightarrow> uint32 \<Rightarrow> 'h \<Rightarrow> 's ort_runtime \<Rightarrow> AllocatorType \<Rightarrow>
   (pool_error, 'h WorkerPod) ctor" where
  "make_pod aligned_alloc create_info api_version heap rt alloc_type =
     (case alloc_type of
        LUMEN_ARENA \<Rightarrow>
          (case snd (arena_new aligned_alloc create_info api_version arena_capacity) of
             Inl e \<Rightarrow> Threw (ArenaFailed e)
           | Inr a \<Rightarrow>
               (case engine_construct rt (Some (a, Map.empty)) of
                  Threw e \<Rightarrow> Threw (EngineFailed e)
                | Built (eng, Some (a', m)) \<Rightarrow> Built \<lparr>allocator = ArenaPod a' m, engine = eng\<rparr>
                | _ \<Rightarrow> Broken))
      | STANDARD \<Rightarrow>
          (case engine_construct rt None of
             Threw e \<Rightarrow> Threw (EngineFailed e)
           | Built (eng, _) \<Rightarrow>
               Built \<lparr>allocator = StandardPod \<lparr>default_ort_allocator = heap, current_allocated_bytes = 0\<rparr>,
                      engine = eng\<rparr>
           | _ \<Rightarrow> Broken))"

text \<open>
  The loop. Worker \<open>i\<close> starts when pod \<open>i\<close> is in place, unless the system gives no thread. An
  exception leaves the constructor through the destructor of \<^verbatim>\<open>workers\<close>: when a thread of an
  earlier turn is in it, still joinable, that destructor terminates the process.
\<close>

definition unwind :: "nat \<Rightarrow> pool_error \<Rightarrow> (pool_error, 'a) ctor" where
  "unwind started e = (if started = 0 then Threw e else Terminated)"

fun make_pods ::
  "(nat \<Rightarrow> (pool_error, 'h WorkerPod) ctor) \<Rightarrow> (nat \<Rightarrow> bool) \<Rightarrow> nat \<Rightarrow> nat \<Rightarrow>
   (pool_error, 'h WorkerPod list) ctor" where
  "make_pods mk starts i 0 = Built []"
| "make_pods mk starts i (Suc n) =
     (case mk i of
        Threw e \<Rightarrow> unwind i e
      | Terminated \<Rightarrow> Terminated
      | Broken \<Rightarrow> Broken
      | Built pod \<Rightarrow>
          if \<not> starts i then unwind i ThreadFailed
          else (case make_pods mk starts (Suc i) n of
                  Built pods \<Rightarrow> Built (pod # pods)
                | Threw e \<Rightarrow> Threw e
                | Terminated \<Rightarrow> Terminated
                | Broken \<Rightarrow> Broken))"

record ('q, 'r, 'h) ThreadPool =
  task_queue :: 'q
  response_queue :: 'r
  worker_pods :: "'h WorkerPod list"
  joinable :: "bool list"
  stop :: bool

definition pool_new ::
  "(nat \<Rightarrow> (pool_error, 'h WorkerPod) ctor) \<Rightarrow> (nat \<Rightarrow> bool) \<Rightarrow> size_t \<Rightarrow> ConfigManager \<Rightarrow> 'q \<Rightarrow> 'r \<Rightarrow>
   (pool_error, ('q, 'r, 'h) ThreadPool) ctor" where
  "pool_new mk starts hardware_concurrency config tq rq =
     (case make_pods mk starts 0 (unat (pool_thread_count hardware_concurrency config)) of
        Threw e \<Rightarrow> Threw e
      | Terminated \<Rightarrow> Terminated
      | Broken \<Rightarrow> Broken
      | Built pods \<Rightarrow>
          Built \<lparr>task_queue = tq, response_queue = rq, worker_pods = pods,
                 joinable = replicate (length pods) True, stop = False\<rparr>)"

definition pool_shutdown :: "('q \<Rightarrow> 'q) \<Rightarrow> ('q, 'r, 'h) ThreadPool \<Rightarrow> ('q, 'r, 'h) ThreadPool" where
  "pool_shutdown q_shutdown pool =
     (if stop pool then pool
      else pool\<lparr>stop := True, task_queue := q_shutdown (task_queue pool),
                joinable := map (\<lambda>j. False) (joinable pool)\<rparr>)"


subsection \<open>The worker loop\<close>

definition stamp_wait :: "time_point \<Rightarrow> InferenceTask \<Rightarrow> InferenceTask" where
  "stamp_wait now task =
     task\<lparr>task_trace := map_option (\<lambda>t. t\<lparr>queue_wait_ms := ms_between (start_ts t) now\<rparr>) (task_trace task)\<rparr>"

text \<open>The engine and the allocator behind a pod: what the runtime supplies, and the pod's state.\<close>

record 'h pod_env =
  env_alloc :: "size_t \<Rightarrow> 'h \<Rightarrow> ptr \<times> 'h"
  env_free :: "ptr \<Rightarrow> 'h \<Rightarrow> 'h"
  env_session :: "'h pod_allocator ort_session"
  env_garbage :: real

definition pod_run ::
  "'h pod_env \<Rightarrow> (nat \<Rightarrow> time_point) \<Rightarrow> InferenceTask \<Rightarrow> 'h WorkerPod \<Rightarrow> engine_outcome \<times> 'h pod_allocator" where
  "pod_run env clk task pod =
     engine_run (pod_Alloc (env_alloc env)) (pod_Free (env_free env)) (env_session env) (env_garbage env) clk
       (engine pod) (pod_memory (allocator pod)) task (allocator pod)"

text \<open>The body of the inner loop, for one task of the batch.\<close>

definition serve_task ::
  "'h pod_env \<Rightarrow> (InferenceResult \<Rightarrow> 'r \<Rightarrow> 'r) \<Rightarrow> time_point \<Rightarrow> (nat \<Rightarrow> time_point) \<Rightarrow> InferenceTask \<Rightarrow>
   'h WorkerPod \<times> 'r \<Rightarrow> ('h WorkerPod \<times> 'r) option" where
  "serve_task env rpush now clk task = (\<lambda>(pod, rq).
     case pod_run env clk (stamp_wait now task) pod of
       (Finished res, pa) \<Rightarrow> Some (pod\<lparr>allocator := pod_reset pa\<rparr>, rpush res rq)
     | (_, pa) \<Rightarrow> None)"

text \<open>The clock of task \<open>i\<close> of the batch: the reading for its waiting time, then those of the engine.\<close>

fun serve_batch ::
  "'h pod_env \<Rightarrow> (InferenceResult \<Rightarrow> 'r \<Rightarrow> 'r) \<Rightarrow> (nat \<Rightarrow> nat \<Rightarrow> time_point) \<Rightarrow> nat \<Rightarrow> InferenceTask list \<Rightarrow>
   'h WorkerPod \<times> 'r \<Rightarrow> ('h WorkerPod \<times> 'r) option" where
  "serve_batch env rpush clk i [] pr = Some pr"
| "serve_batch env rpush clk i (task # tasks) pr =
     (case serve_task env rpush (clk i 0) (\<lambda>k. clk i (Suc k)) task pr of
        None \<Rightarrow> None
      | Some pr' \<Rightarrow> serve_batch env rpush clk (Suc i) tasks pr')"

text \<open>
  One turn of the outer loop after \<^verbatim>\<open>stop\<close> was read as false. A \<^verbatim>\<open>pop_batch\<close> that waits leaves
  the worker where it is.
\<close>

definition worker_iteration ::
  "(InferenceTask list \<Rightarrow> size_t \<Rightarrow> 'q \<Rightarrow> (size_t \<times> InferenceTask list \<times> 'q) call) \<Rightarrow>
   (InferenceResult \<Rightarrow> 'r \<Rightarrow> 'r) \<Rightarrow> 'h pod_env \<Rightarrow> (nat \<Rightarrow> nat \<Rightarrow> time_point) \<Rightarrow> size_t \<Rightarrow>
   'q \<times> 'h WorkerPod \<times> 'r \<Rightarrow> ('q \<times> 'h WorkerPod \<times> 'r) option" where
  "worker_iteration pop_batch rpush env clk batch_size = (\<lambda>(tq, pod, rq).
     case pop_batch [] batch_size tq of
       Waits \<Rightarrow> Some (tq, pod, rq)
     | Returns (n, batch_buffer, tq') \<Rightarrow>
         if n = 0 then Some (tq', pod, rq)
         else map_option (\<lambda>pr. (tq', pr)) (serve_batch env rpush clk 0 batch_buffer (pod, rq)))"

text \<open>
  The loop over the successive readings of \<^verbatim>\<open>stop\<close>. It is still running when the readings are
  used up; the result says whether it has returned.
\<close>

fun worker_loop ::
  "(InferenceTask list \<Rightarrow> size_t \<Rightarrow> 'q \<Rightarrow> (size_t \<times> InferenceTask list \<times> 'q) call) \<Rightarrow>
   (InferenceResult \<Rightarrow> 'r \<Rightarrow> 'r) \<Rightarrow> 'h pod_env \<Rightarrow> (nat \<Rightarrow> nat \<Rightarrow> nat \<Rightarrow> time_point) \<Rightarrow> size_t \<Rightarrow> bool list \<Rightarrow>
   'q \<times> 'h WorkerPod \<times> 'r \<Rightarrow> (bool \<times> 'q \<times> 'h WorkerPod \<times> 'r) option" where
  "worker_loop pop_batch rpush env clk bs [] s = Some (False, s)"
| "worker_loop pop_batch rpush env clk bs (stopped # reads) s =
     (if stopped then Some (True, s)
      else (case worker_iteration pop_batch rpush env (clk (length reads)) bs s of
              None \<Rightarrow> None
            | Some s' \<Rightarrow> worker_loop pop_batch rpush env clk bs reads s'))"


subsection \<open>A served task is answered\<close>

text \<open>The result goes to the client of the task and carries the task's trace.\<close>

definition answers :: "InferenceResult \<Rightarrow> InferenceTask \<Rightarrow> bool" where
  "answers r t \<longleftrightarrow> res_client_fd r = client_fd t \<and>
     map_option request_id (res_trace r) = map_option request_id (task_trace t)"

lemma timed_request_id:
  "(\<And>d t. request_id (w d t) = request_id t) \<Longrightarrow>
     map_option request_id (timed w a b tr) = map_option request_id tr"
  by (cases tr) simp_all

lemma run_model_answers_task:
  assumes "run_model sess clk task tr inp q out n shape s = (Finished r, s')"
    "map_option request_id tr = map_option request_id (task_trace task)"
  shows "answers r task"
  using assms
  by (auto simp: run_model_def answers_def Let_def timed_request_id
      split: if_splits option.splits prod.splits run_end.splits)

lemma engine_run_answers_task:
  assumes "engine_run al fr sess g clk eng mem task s = (Finished r, s')"
  shows "answers r task"
proof -
  obtain ish osh where shapes: "engine_shapes eng mem = Some (ish, osh)"
    using assms by (cases "engine_shapes eng mem") (auto simp: engine_run_def)
  show ?thesis
  proof (cases "of_nat (length (task_data task)) < element_count ish")
    case True
    then show ?thesis
      using assms shapes by (auto simp: engine_run_def answers_def)
  next
    case False
    obtain p s1 q s2 where al: "al (element_count ish * float_bytes) s = (p, s1)"
      "al (element_count osh * float_bytes) s1 = (q, s2)"
      by (metis surj_pair)
    then obtain inp pre where "task_pre task = Some pre" "4 \<le> length ish"
      "transform (task_data task) (buffer_at p (element_count ish * float_bytes) g) (ish ! 3) (ish ! 2) = Some inp"
      using assms shapes False
      by (auto simp: engine_run_def Let_def split: if_splits option.splits prod.splits)
    note run = engine_run_transformed [OF shapes False al(1) this al(2), of fr sess clk]
    obtain s3 where "run_model sess clk task (timed (\<lambda>d t. t\<lparr>preprocess_ms := d\<rparr>) (clk 0) (clk 1) (task_trace task))
        inp q (output_at q (element_count osh * float_bytes) g) (element_count osh) osh s2 = (Finished r, s3)"
      using assms run by (auto simp: Let_def split: if_splits) (metis prod.collapse)
    then show ?thesis
      by (rule run_model_answers_task) (simp add: timed_request_id)
  qed
qed

lemma answers_stamp: "answers r (stamp_wait now task) \<longleftrightarrow> answers r task"
  by (cases "task_trace task") (simp_all add: answers_def stamp_wait_def)

lemma serve_task_answers:
  assumes "serve_task env rpush now clk task (pod, rq) = Some (pod', rq')"
  shows "\<exists>res. rq' = rpush res rq \<and> answers res task"
  using assms engine_run_answers_task answers_stamp
  by (fastforce simp: serve_task_def pod_run_def split: prod.splits engine_outcome.splits)

lemma serve_batch_answers:
  "serve_batch env rpush clk i tasks (pod, rq) = Some (pod', rq') \<Longrightarrow>
     \<exists>rs. rq' = fold rpush rs rq \<and> list_all2 answers rs tasks"
proof (induction tasks arbitrary: i pod rq)
  case (Cons task tasks)
  obtain pod1 rq1 where one: "serve_task env rpush (clk i 0) (\<lambda>k. clk i (Suc k)) task (pod, rq) = Some (pod1, rq1)"
    and rest: "serve_batch env rpush clk (Suc i) tasks (pod1, rq1) = Some (pod', rq')"
    using Cons.prems by (auto split: option.splits)
  obtain res where res: "rq1 = rpush res rq" "answers res task"
    using serve_task_answers [OF one] by blast
  obtain rs where "rq' = fold rpush rs rq1" "list_all2 answers rs tasks"
    using Cons.IH [OF rest] by blast
  then show ?case
    using res by (intro exI [of _ "res # rs"]) simp
qed simp


subsection \<open>A worker over the queue interfaces\<close>

locale pool_worker =
  task_queue push pop pop_batch shutdown contents accepts inv +
  result_queue rpush rpop rpop_immediate rsize rempty results
  for push :: "InferenceTask \<Rightarrow> 'q \<Rightarrow> (bool \<times> 'q) call"
    and pop :: "'q \<Rightarrow> (InferenceTask option \<times> 'q) call"
    and pop_batch :: "InferenceTask list \<Rightarrow> size_t \<Rightarrow> 'q \<Rightarrow> (size_t \<times> InferenceTask list \<times> 'q) call"
    and shutdown :: "'q \<Rightarrow> 'q"
    and contents :: "'q \<Rightarrow> InferenceTask list"
    and accepts :: "'q \<Rightarrow> bool"
    and inv :: "'q \<Rightarrow> bool"
    and rpush :: "InferenceResult \<Rightarrow> 'r \<Rightarrow> 'r"
    and rpop :: "'r \<Rightarrow> (InferenceResult option \<times> 'r) call"
    and rpop_immediate :: "'r \<Rightarrow> InferenceResult option \<times> 'r"
    and rsize :: "'r \<Rightarrow> nat"
    and rempty :: "'r \<Rightarrow> bool"
    and results :: "'r \<Rightarrow> InferenceResult list"
begin

text \<open>One turn: the batch leaves the front of the queue and is answered in order.\<close>

lemma iteration_answers:
  assumes "inv q" "worker_iteration pop_batch rpush env clk bs (q, pod, r) = Some (q', pod', r')"
  shows "inv q' \<and> (\<exists>ts rs. contents q = ts @ contents q' \<and> results r' = results r @ rs \<and> list_all2 answers rs ts)"
proof (cases "pop_batch [] bs q")
  case Waits
  then show ?thesis
    using assms by (simp add: worker_iteration_def)
next
  case (Returns x)
  obtain n ts q1 where ret: "pop_batch [] bs q = Returns (n, ts, q1)"
    using Returns by (cases x) auto
  note front = pop_batch_returns [OF assms(1) ret]
  have ts: "contents q = ts @ contents q1" "unat n = length ts"
    using front(2) by auto
  show ?thesis
  proof (cases "n = 0")
    case True
    then have "ts = []" "q' = q1" "r' = r"
      using ret assms(2) ts(2) by (auto simp: worker_iteration_def)
    then show ?thesis
      using ts(1) front(1) by simp
  next
    case False
    then have "q' = q1" "serve_batch env rpush clk 0 ts (pod, r) = Some (pod', r')"
      using ret assms(2) by (auto simp: worker_iteration_def)
    then show ?thesis
      using serve_batch_answers ts(1) front(1) results_fold_push by metis
  qed
qed

text \<open>Any number of turns: nothing is lost, answered twice or answered out of order.\<close>

lemma loop_answers:
  assumes "inv q" "worker_loop pop_batch rpush env clk bs reads (q, pod, r) = Some (fin, q', pod', r')"
  shows "inv q' \<and> (\<exists>ts rs. contents q = ts @ contents q' \<and> results r' = results r @ rs \<and> list_all2 answers rs ts)"
  using assms
proof (induction reads arbitrary: q pod r)
  case (Cons stopped reads)
  show ?case
  proof (cases stopped)
    case False
    then obtain q1 pod1 r1 where one: "worker_iteration pop_batch rpush env (clk (length reads)) bs (q, pod, r) = Some (q1, pod1, r1)"
      and rest: "worker_loop pop_batch rpush env clk bs reads (q1, pod1, r1) = Some (fin, q', pod', r')"
      using Cons.prems(2) by (auto split: option.splits)
    obtain ts rs where first: "inv q1" "contents q = ts @ contents q1" "results r1 = results r @ rs" "list_all2 answers rs ts"
      using iteration_answers [OF Cons.prems(1) one] by blast
    obtain ts' rs' where second: "inv q'" "contents q1 = ts' @ contents q'" "results r' = results r1 @ rs'" "list_all2 answers rs' ts'"
      using Cons.IH [OF first(1) rest] by blast
    have "list_all2 answers (rs @ rs') (ts @ ts')"
      using first(4) second(4) by (rule list_all2_appendI)
    then show ?thesis
      using first(2,3) second(1-3) by (intro conjI exI [of _ "ts @ ts'"] exI [of _ "rs @ rs'"]) simp_all
  qed (use Cons.prems in auto)
qed auto

text \<open>A turn on a non-empty queue with a positive batch size serves at least one task.\<close>

lemma iteration_progress:
  assumes "inv q" "contents q \<noteq> []" "bs \<noteq> 0"
    "worker_iteration pop_batch rpush env clk bs (q, pod, r) = Some (q', pod', r')"
  shows "length (contents q') < length (contents q) \<and> length (results r) < length (results r')"
proof -
  let ?k = "batch_count bs (contents q)"
  have "0 < ?k"
    by (rule batch_count_pos [OF assms(3,2)])
  moreover have "?k < 18446744073709551616"
    using batch_count_le(2) [of bs "contents q"] unat_less_2p64 [of bs] by linarith
  ultimately have k: "0 < ?k" "?k \<le> length (contents q)" "?k < 18446744073709551616"
    by simp_all
  obtain q1 where q1: "pop_batch [] bs q = Returns (of_nat ?k, take ?k (contents q), q1)"
      "contents q1 = drop ?k (contents q)"
    using pop_batch_some [OF assms(1,2), of "[]" bs] by auto
  have "unat (of_nat ?k :: size_t) = ?k"
    by (rule unat_of_nat_size_t [OF k(3)])
  then have "(of_nat ?k :: size_t) \<noteq> 0"
    using k(1) by auto
  then have "q' = q1" "serve_batch env rpush clk 0 (take ?k (contents q)) (pod, r) = Some (pod', r')"
    using assms(4) q1(1) by (auto simp: worker_iteration_def)
  then obtain rs where "results r' = results r @ rs" "length rs = ?k"
    using serve_batch_answers k(2) results_fold_push by (metis length_take list_all2_lengthD min.absorb2)
  then show ?thesis
    using \<open>q' = q1\<close> q1(2) k assms(2) by (simp add: diff_less)
qed

text \<open>With a batch size of zero no turn takes a task.\<close>

lemma iteration_zero_batch:
  assumes "inv q" "worker_iteration pop_batch rpush env clk 0 (q, pod, r) = Some (q', pod', r')"
  shows "inv q' \<and> contents q' = contents q \<and> r' = r"
proof (cases "contents q = []")
  case True
  then show ?thesis
    using pop_batch_none [OF assms(1) True, of "[]" 0] assms by (auto simp: worker_iteration_def)
next
  case False
  then show ?thesis
    using pop_batch_some [OF assms(1) False, of "[]" 0] assms(2) by (auto simp: worker_iteration_def)
qed

lemma loop_zero_batch:
  "inv q \<Longrightarrow> worker_loop pop_batch rpush env clk 0 reads (q, pod, r) = Some (fin, q', pod', r') \<Longrightarrow>
     contents q' = contents q \<and> r' = r"
proof (induction reads arbitrary: q pod r)
  case (Cons stopped reads)
  show ?case
  proof (cases stopped)
    case False
    then obtain q1 pod1 r1 where one: "worker_iteration pop_batch rpush env (clk (length reads)) 0 (q, pod, r) = Some (q1, pod1, r1)"
      and rest: "worker_loop pop_batch rpush env clk 0 reads (q1, pod1, r1) = Some (fin, q', pod', r')"
      using Cons.prems(2) by (auto split: option.splits)
    then show ?thesis
      using iteration_zero_batch [OF Cons.prems(1) one] Cons.IH [OF _ rest] by auto
  qed (use Cons.prems in auto)
qed auto

end



subsection \<open>The arena of a pod between tasks\<close>

text \<open>
  \<open>touched\<close> relates the allocator of a pod before and after any use through its interface:
  an arena changes by its own operations only.
\<close>

definition touched :: "'h pod_allocator \<Rightarrow> 'h pod_allocator \<Rightarrow> bool" where
  "touched pa pa' \<longleftrightarrow>
     (case (pa, pa') of
        (ArenaPod a m, ArenaPod a' m') \<Rightarrow>
          m' = m \<and> (\<exists>ops. a' = the_arena (fold arena_do ops (life_start a)))
      | (StandardPod _, StandardPod _) \<Rightarrow> True
      | _ \<Rightarrow> False)"

text \<open>The runtime uses the pod's allocator through its interface and nothing else.\<close>

definition session_uses_interface :: "'h pod_allocator ort_session \<Rightarrow> bool" where
  "session_uses_interface sess \<longleftrightarrow> (\<forall>inp out pa. touched pa (snd (run_session sess inp out pa)))"

lemma touched_refl: "touched pa pa"
  by (cases pa) (auto simp: touched_def life_start_def intro: exI [of _ "[]"])

lemma touched_ArenaI:
  "a' = the_arena (fold arena_do ops (life_start a)) \<Longrightarrow> touched (ArenaPod a m) (ArenaPod a' m)"
  by (auto simp: touched_def)

lemma arena_do_cong: "the_arena l = the_arena l' \<Longrightarrow> the_arena (arena_do op l) = the_arena (arena_do op l')"
  by (cases op) (simp_all split: prod.splits)

lemma arena_fold_cong:
  "the_arena l = the_arena l' \<Longrightarrow> the_arena (fold arena_do ops l) = the_arena (fold arena_do ops l')"
proof (induction ops arbitrary: l l')
  case (Cons op ops)
  show ?case
    unfolding fold_simps by (rule Cons.IH [OF arena_do_cong [OF Cons.prems]])
qed simp

lemma the_arena_fold_start:
  "the_arena (fold arena_do ops (life_start (the_arena l))) = the_arena (fold arena_do ops l)"
  by (rule arena_fold_cong) (simp add: life_start_def)

lemma touched_trans: "touched pa pb \<Longrightarrow> touched pb pc \<Longrightarrow> touched pa pc"
proof -
  assume ab: "touched pa pb" and bc: "touched pb pc"
  show ?thesis
  proof (cases pa)
    case (ArenaPod a m)
    obtain b ops where b: "pb = ArenaPod b m" "b = the_arena (fold arena_do ops (life_start a))"
      using ab ArenaPod by (auto simp: touched_def split: pod_allocator.splits)
    obtain c ops' where c: "pc = ArenaPod c m" "c = the_arena (fold arena_do ops' (life_start b))"
      using bc b(1) by (auto simp: touched_def split: pod_allocator.splits)
    have "c = the_arena (fold arena_do (ops @ ops') (life_start a))"
      unfolding c(2) b(2) by (simp add: the_arena_fold_start)
    then show ?thesis
      unfolding ArenaPod c(1) by (rule touched_ArenaI)
  next
    case (StandardPod s)
    then show ?thesis
      using ab bc by (auto simp: touched_def split: pod_allocator.splits)
  qed
qed

lemma touched_Alloc: "pod_Alloc oa n pa = (p, pa') \<Longrightarrow> touched pa pa'"
proof (cases pa)
  case (ArenaPod a m)
  assume run: "pod_Alloc oa n pa = (p, pa')"
  have "snd (arena_Alloc n a) = the_arena (fold arena_do [OpAlloc n 64] (life_start a))"
    by (simp add: arena_Alloc_def life_start_def split: prod.splits)
  from touched_ArenaI [OF this, of m] show ?thesis
    using run ArenaPod by (cases "arena_Alloc n a") (auto simp: pod_Alloc_def)
qed (auto simp: pod_Alloc_def touched_def split: prod.splits)

lemma touched_Free: "touched pa (scoped_free (pod_Free fr) p pa)"
  using touched_refl [of pa]
  by (cases pa) (auto simp: scoped_free_def pod_Free_def arena_Free_def touched_def)

lemma run_model_touched:
  assumes "session_uses_interface sess"
  shows "touched pa (snd (run_model sess clk task tr inp q out n shape pa))"
  using assms touched_refl by (auto simp: run_model_state session_uses_interface_def)

lemma engine_run_touched:
  assumes ifc: "session_uses_interface sess"
    and run: "engine_run (pod_Alloc oa) (pod_Free fr) sess g clk eng mem task pa = (oc, pa')"
    and fin: "oc \<noteq> Undefined"
  shows "touched pa pa'"
proof -
  obtain ish osh where shapes: "engine_shapes eng mem = Some (ish, osh)"
    using run fin by (cases "engine_shapes eng mem") (auto simp: engine_run_def)
  show ?thesis
  proof (cases "of_nat (length (task_data task)) < element_count ish")
    case True
    then show ?thesis
      using run shapes touched_refl by (auto simp: engine_run_def)
  next
    case False
    obtain p s1 q s2 where al: "pod_Alloc oa (element_count ish * float_bytes) pa = (p, s1)"
      "pod_Alloc oa (element_count osh * float_bytes) s1 = (q, s2)"
      by (metis surj_pair)
    then obtain inp pre where pre: "task_pre task = Some pre" "4 \<le> length ish"
      "transform (task_data task) (buffer_at p (element_count ish * float_bytes) g) (ish ! 3) (ish ! 2) = Some inp"
      using run fin shapes False
      by (auto simp: engine_run_def Let_def split: if_splits option.splits prod.splits)
    note step = engine_run_transformed [OF shapes False al(1) pre al(2), of "pod_Free fr" sess clk]
    let ?r = "run_model sess clk task (timed (\<lambda>d t. t\<lparr>preprocess_ms := d\<rparr>) (clk 0) (clk 1) (task_trace task))
      inp q (output_at q (element_count osh * float_bytes) g) (element_count osh) osh s2"
    have s1: "touched pa s1" and "touched s1 s2"
      using touched_Alloc al by blast+
    then have "touched pa (snd ?r)"
      by (rule touched_trans [OF touched_trans run_model_touched [OF ifc]])
    then have "touched pa (scoped_free (pod_Free fr) p (scoped_free (pod_Free fr) q (snd ?r)))"
      by (rule touched_trans [OF touched_trans [OF _ touched_Free] touched_Free])
    moreover have "touched pa (scoped_free (pod_Free fr) p s1)"
      by (rule touched_trans [OF s1 touched_Free])
    ultimately show ?thesis
      using run step by (simp add: Let_def split: if_splits)
  qed
qed

end
