(* ===== verification/Pool_Workers.thy ===== *)
theory Pool_Workers
  imports Thread_Pool Naive_Queue SPSC_Queue MPMC_Queue
begin

section \<open>Workers on the queues of the engine\<close>

text \<open>
  The worker of \<^verbatim>\<open>Thread_Pool\<close> on each of the three task queues with the result queue of the
  server: the interpretations of the worker's locale, and what follows for the pool.
\<close>

interpretation nw: pool_worker naive_push naive_pop naive_pop_batch naive_shutdown nq_data
  "\<lambda>_. True" "\<lambda>_. True" rq_push rq_pop rq_pop_immediate rq_size rq_empty rq_data
  by (intro pool_worker.intro nq.task_queue_axioms rq.result_queue_axioms)

interpretation sw: pool_worker spsc_push spsc_pop spsc_pop_batch spsc_shutdown spsc_contents
  spsc_accepts spsc_inv rq_push rq_pop rq_pop_immediate rq_size rq_empty rq_data
  by (intro pool_worker.intro sq.task_queue_axioms rq.result_queue_axioms)

interpretation mw: pool_worker mpmc_push mpmc_pop mpmc_pop_batch mpmc_shutdown mpmc_contents
  mpmc_accepts mpmc_inv rq_push rq_pop rq_pop_immediate rq_size rq_empty rq_data
  by (intro pool_worker.intro mq.task_queue_axioms rq.result_queue_axioms)


subsection \<open>A small pod\<close>

definition example_env :: "unit pod_env" where
  "example_env =
     \<lparr>env_alloc = (\<lambda>n h. (4096, h)), env_free = (\<lambda>p h. h), env_session = example_session, env_garbage = 0\<rparr>"

definition example_pod :: "unit WorkerPod" where
  "example_pod =
     \<lparr>allocator = StandardPod \<lparr>default_ort_allocator = (), current_allocated_bytes = 0\<rparr>,
      engine = example_engine [1, 3, 1, 2]\<rparr>"

definition example_runtime :: "'s ort_runtime" where
  "example_runtime =
     \<lparr>register_allocator = True, open_plain = Some example_session, open_arena = (\<lambda>am. Some (example_session, am))\<rparr>"

lemma example_runtime_pod: "make_pod aa ci av () example_runtime STANDARD = Built example_pod"
  by (simp add: make_pod_def engine_construct_def open_session_def example_runtime_def engine_new_def engine_read_model_def
      example_session_def example_pod_def example_engine_def no_arrays_def)

lemma example_pod_serves:
  "serve_batch example_env push_result clk i [example_task 5] (example_pod, r) =
     Some (example_pod, push_result (new_result 7 payload_error None) r)"
  by (simp add: serve_task_def pod_run_def engine_run_def example_pod_def stamp_wait_def example_task_def
      pod_reset_def element_count_def new_task_def)


subsection \<open>Counting pods\<close>

lemma make_pods_length: "make_pods mk st i n = Built pods \<Longrightarrow> length pods = n"
  by (induction n arbitrary: i pods) (auto simp: unwind_def split: ctor.splits if_splits)

lemma pool_thread_count_pos: "0 < unat (pool_thread_count hw c)"
  by (simp add: pool_thread_count_def unat_gt_0)

lemma pool_new_Built:
  assumes "pool_new mk st hw c tq rq = Built pool"
  shows "length (worker_pods pool) = unat (pool_thread_count hw c)" "task_queue pool = tq"
    "response_queue pool = rq" "\<not> stop pool" "joinable pool = replicate (length (worker_pods pool)) True"
  using assms by (auto simp: pool_new_def make_pods_length split: ctor.splits)


subsection \<open>Properties\<close>

text \<open>C25: a worker on the multi-producer queue, over any number of turns and any batch size: the tasks
  that have left the queue are its front, each has exactly one result, for its client and with
  its trace, and the results are in the order of the tasks. An inference that does not return
  ends the worker and is not covered.\<close>

theorem mpmc_worker_answers_in_order:
  assumes "mpmc_inv q"
    "worker_loop mpmc_pop_batch rq_push env clk bs reads (q, pod, r) = Some (fin, q', pod', r')"
  shows "\<exists>ts rs. mpmc_contents q = ts @ mpmc_contents q' \<and> rq_data r' = rq_data r @ rs \<and> list_all2 answers rs ts"
  using mw.loop_answers [OF assms] by blast

lemma mpmc_one_task: "\<exists>q. mpmc_inv q \<and> mpmc_contents q = [example_task 5]"
proof -
  have "mpmc_accepts mpmc_new"
    using mpmc_new_inv(2) by (simp add: mpmc_accepts_def mpmc_new_def)
  then show ?thesis
    using mq.push_taken [OF mpmc_new_inv(1), of "example_task 5"] mpmc_new_inv(2) by auto
qed

theorem mpmc_worker_answers_in_order_witness:
  "\<exists>q q' pod' r'. mpmc_contents q = [example_task 5] \<and>
     worker_loop mpmc_pop_batch rq_push example_env (\<lambda>i j k. 0) 8 [False, True] (q, example_pod, rq_new) =
       Some (True, q', pod', r') \<and>
     (\<exists>ts rs. [example_task 5] = ts @ mpmc_contents q' \<and> rq_data r' = rs \<and> list_all2 answers rs ts)"
proof -
  obtain q where q: "mpmc_inv q" "mpmc_contents q = [example_task 5]"
    using mpmc_one_task by blast
  obtain q' where "mpmc_pop_batch [] 8 q = Returns (1, [example_task 5], q')"
    using mq.pop_batch_some [OF q(1), of "[]" 8] q(2) by (auto simp: batch_count_def)
  then have run: "worker_loop mpmc_pop_batch rq_push example_env (\<lambda>i j k. 0) 8 [False, True] (q, example_pod, rq_new) =
      Some (True, q', example_pod, rq_push (new_result 7 payload_error None) rq_new)"
    using example_pod_serves [of rq_push "\<lambda>j k. 0" 0 rq_new]
    by (simp add: worker_iteration_def del: serve_batch.simps)
  show ?thesis
    using mpmc_worker_answers_in_order [OF q(1) run] run q(2) by (auto simp: rq_new_def)
qed

text \<open>A turn of a worker on a non-empty single-producer queue, with a positive batch size, that does
  not end in an exception makes progress: the queue gets shorter and the results longer.\<close>

theorem spsc_worker_progress:
  assumes "spsc_inv q" "spsc_contents q \<noteq> []" "bs \<noteq> 0"
    "worker_iteration spsc_pop_batch rq_push env clk bs (q, pod, r) = Some (q', pod', r')"
  shows "length (spsc_contents q') < length (spsc_contents q) \<and> rq_size r < rq_size r'"
  using sw.iteration_progress [OF assms] by (simp add: rq_size_def)

lemma spsc_one_task: "\<exists>q. spsc_inv q \<and> spsc_contents q = [example_task 5]"
proof -
  have "spsc_accepts spsc_new"
    using spsc_new_inv(2) by (simp add: spsc_accepts_def spsc_new_def)
  then show ?thesis
    using sq.push_taken [OF spsc_new_inv(1), of "example_task 5"] spsc_new_inv(2) by auto
qed

theorem spsc_worker_progress_witness:
  "\<exists>q q' pod' r'. spsc_contents q = [example_task 5] \<and>
     worker_iteration spsc_pop_batch rq_push example_env (\<lambda>j k. 0) 1 (q, example_pod, rq_new) =
       Some (q', pod', r') \<and> spsc_contents q' = [] \<and> 0 < rq_size r'"
proof -
  obtain q where q: "spsc_inv q" "spsc_contents q = [example_task 5]"
    using spsc_one_task by blast
  obtain q' where "spsc_pop_batch [] 1 q = Returns (1, [example_task 5], q')"
    using sq.pop_batch_some [OF q(1), of "[]" 1] q(2) by (auto simp: batch_count_def)
  then have run: "worker_iteration spsc_pop_batch rq_push example_env (\<lambda>j k. 0) 1 (q, example_pod, rq_new) =
      Some (q', example_pod, rq_push (new_result 7 payload_error None) rq_new)"
    using example_pod_serves [of rq_push "\<lambda>j k. 0" 0 rq_new]
    by (simp add: worker_iteration_def del: serve_batch.simps)
  have less: "length (spsc_contents q') < length (spsc_contents q) \<and>
      rq_size rq_new < rq_size (rq_push (new_result 7 payload_error None) rq_new)"
    by (rule spsc_worker_progress [OF q(1) _ _ run]) (simp_all add: q(2))
  then have "spsc_contents q' = []" "0 < rq_size (rq_push (new_result 7 payload_error None) rq_new)"
    using q(2) by (auto simp: rq_size_def simp del: length_spsc_contents)
  then show ?thesis
    using q(2) run by blast
qed

text \<open>With a batch size of zero, which the configuration does not exclude, a worker on the mutex
  queue takes no task in any number of turns: whatever is queued stays there unanswered.\<close>

theorem zero_batch_size_starves:
  assumes "worker_loop naive_pop_batch rq_push env clk 0 reads (q, pod, r) = Some (fin, q', pod', r')"
  shows "nq_data q' = nq_data q \<and> r' = r"
  using nw.loop_zero_batch [OF TrueI assms] .

theorem zero_batch_size_starves_witness:
  "\<exists>q' pod' r'. worker_loop naive_pop_batch rq_push example_env (\<lambda>i j k. 0) 0 [False, True]
      (naive_new\<lparr>nq_data := [example_task 5]\<rparr>, example_pod, rq_new) = Some (True, q', pod', r') \<and>
      nq_data q' = [example_task 5] \<and> r' = rq_new"
proof -
  let ?q = "naive_new\<lparr>nq_data := [example_task 5]\<rparr>"
  have run: "worker_loop naive_pop_batch rq_push example_env (\<lambda>i j k. 0) 0 [False, True] (?q, example_pod, rq_new) =
      Some (True, ?q, example_pod, rq_new)"
    by (simp add: worker_iteration_def naive_defs)
  show ?thesis
    using zero_batch_size_starves [OF run] run by auto
qed

text \<open>C26: a pod's arena is the same before every request after the first. Serving any batch on a pod
  whose arena has been reset leaves exactly that arena, when the runtime uses the arena through
  its interface only.\<close>

theorem served_batch_restores_arena:
  assumes "session_uses_interface (env_session env)"
    "allocator pod = ArenaPod (arena_reset a) m"
    "serve_batch env rpush clk i tasks (pod, r) = Some (pod', r')"
  shows "allocator pod' = ArenaPod (arena_reset a) m"
  using assms(2,3)
proof (induction tasks arbitrary: i pod r)
  case (Cons task tasks)
  obtain pod1 r1 where one: "serve_task env rpush (clk i 0) (\<lambda>k. clk i (Suc k)) task (pod, r) = Some (pod1, r1)"
    and rest: "serve_batch env rpush clk (Suc i) tasks (pod1, r1) = Some (pod', r')"
    using Cons.prems(2) by (auto split: option.splits)
  obtain res pa where run: "pod_run env (\<lambda>k. clk i (Suc k)) (stamp_wait (clk i 0) task) pod = (Finished res, pa)"
    and pod1: "allocator pod1 = pod_reset pa"
    using one by (auto simp: serve_task_def split: prod.splits engine_outcome.splits)
  have "touched (ArenaPod (arena_reset a) m) pa"
    using engine_run_touched [OF assms(1) run [unfolded pod_run_def]] Cons.prems(1) by simp
  then obtain a' ops where pa: "pa = ArenaPod a' m" "a' = the_arena (fold arena_do ops (life_start (arena_reset a)))"
    by (auto simp: touched_def split: pod_allocator.splits)
  have "arena_reset a' = arena_reset (arena_reset a)"
    unfolding pa(2) by (subst fold_do_reset) (simp_all add: life_start_def)
  also have "\<dots> = arena_reset a"
    by (simp add: arena_reset_def Let_def)
  finally have "allocator pod1 = ArenaPod (arena_reset a) m"
    using pod1 pa(1) by (simp add: pod_reset_def)
  then show ?case
    using Cons.IH rest by blast
qed simp

lemma example_session_interface: "session_uses_interface example_session"
  by (simp add: session_uses_interface_def run_session_def example_session_def touched_refl split: option.split)

theorem served_batch_restores_arena_witness:
  "\<exists>pod' r'. serve_batch example_env rq_push (\<lambda>j k. 0) 0 [example_task 5]
       (example_pod\<lparr>allocator := ArenaPod (arena_reset arena_example) Map.empty\<rparr>, rq_new) = Some (pod', r') \<and>
     allocator pod' = ArenaPod (arena_reset arena_example) Map.empty"
proof -
  let ?pod = "example_pod\<lparr>allocator := ArenaPod (arena_reset arena_example) Map.empty\<rparr>"
  have "\<exists>pod' r'. serve_batch example_env rq_push (\<lambda>j k. 0) 0 [example_task 5] (?pod, rq_new) = Some (pod', r')"
    by (simp add: serve_task_def pod_run_def engine_run_def example_pod_def stamp_wait_def example_task_def
        pod_reset_def element_count_def new_task_def)
  then obtain pod' r' where run: "serve_batch example_env rq_push (\<lambda>j k. 0) 0 [example_task 5] (?pod, rq_new) = Some (pod', r')"
    by blast
  have "allocator pod' = ArenaPod (arena_reset arena_example) Map.empty"
    by (rule served_batch_restores_arena [OF _ _ run]) (simp_all add: example_env_def example_session_interface)
  then show ?thesis
    using run by blast
qed

text \<open>The pool never has more than one consumer on the single-consumer queue. For any configuration
  file, if the loaded configuration selects that queue, a pool that is constructed has exactly
  one pod, so one worker; with any other queue it has at least one.\<close>

theorem spsc_pool_has_one_worker:
  assumes "pool_new mk st hw c tq rq = Built pool"
    "c = fst (load_from_file fc parse file config_defaults)"
  shows "1 \<le> length (worker_pods pool) \<and> (m_queue_type c = SPSC \<longrightarrow> length (worker_pods pool) = 1)"
proof -
  have "spsc_single c"
    using load_json_spsc [of config_defaults] assms(2)
    by (auto simp: load_from_file_json spsc_single_def config_defaults_def split: option.splits)
  then show ?thesis
    using pool_new_Built(1) [OF assms(1)] pool_thread_count_pos [of hw c]
    by (auto simp: spsc_single_def pool_thread_count_def)
qed

theorem spsc_pool_has_one_worker_witness:
  "\<exists>pool. pool_new (\<lambda>i. Built example_pod) (\<lambda>i. True) 8
      (fst (load_from_file (\<lambda>d. 0) (\<lambda>s. Some spsc_file) (Some '''') config_defaults)) naive_new rq_new = Built pool \<and>
     length (worker_pods pool) = 1"
proof -
  let ?c = "fst (load_from_file (\<lambda>d. 0) (\<lambda>s. Some spsc_file) (Some '''') config_defaults)"
  have c: "m_queue_type ?c = SPSC" "m_thread_count ?c = 1"
    by (simp_all add: load_from_file_json spsc_file_def config_defaults_def load_defs)
  then have "\<exists>pool. pool_new (\<lambda>i. Built example_pod) (\<lambda>i. True) 8 ?c naive_new rq_new = Built pool"
    by (simp add: pool_new_def pool_thread_count_def)
  then obtain pool where pool: "pool_new (\<lambda>i. Built example_pod) (\<lambda>i. True) 8 ?c naive_new rq_new = Built pool"
    by blast
  have "length (worker_pods pool) = 1"
    using spsc_pool_has_one_worker [OF pool refl] c(1) by simp
  then show ?thesis
    using pool by blast
qed

end
