(* ===== verification/Server_System.thy ===== *)
theory Server_System
  imports Server_Requests Pool_Workers "HOL-Library.Multiset"
begin

unbundle bit_operations_syntax

section \<open>The server and its workers together\<close>

text \<open>
  The server thread of \<^verbatim>\<open>Server\<close> and any number of worker threads, interleaved. The two
  queues are the only state they share, so an access to a queue is one step and what the
  server does between two accesses belongs to the step. \<open>Draining\<close> is the loop of
  \<^verbatim>\<open>handle_responses\<close>, \<open>Polling\<close> the call of \<^verbatim>\<open>poll\<close>, \<open>Serving i n\<close> the loop over the poll set
  with position \<open>i\<close> and \<open>n\<close> entries left. A worker takes a batch into its hands and later pushes
  one result for one of the tasks it holds.

  The task queue of the server is paired with a log of the tasks offered to it. The operating
  system keeps the documented contract of each call: \<^verbatim>\<open>poll\<close> reports readable or writable only
  where asked, \<^verbatim>\<open>accept\<close> gives a descriptor that is not open.
\<close>

subsection \<open>The step relation\<close>

datatype server_phase = Draining | Polling | Serving nat nat

record 'q lumen_system =
  server :: "('q \<times> InferenceTask list) TCPServer"
  at_phase :: server_phase
  in_hand :: "InferenceTask list"

definition logged ::
  "(InferenceTask \<Rightarrow> 'q \<Rightarrow> (bool \<times> 'q) call) \<Rightarrow> InferenceTask \<Rightarrow> 'q \<times> InferenceTask list \<Rightarrow>
   (bool \<times> 'q \<times> InferenceTask list) call" where
  "logged psh t = (\<lambda>(q, h).
     case psh t q of Returns (ok, q') \<Rightarrow> Returns (ok, q', h @ [t]) | Waits \<Rightarrow> Waits)"

definition poll_contract :: "net \<Rightarrow> pollfd list \<Rightarrow> bool" where
  "poll_contract net ps \<longleftrightarrow>
     (\<forall>p \<in> set ps. poll_revents net (pfd_fd p) AND (POLLIN OR POLLOUT) AND NOT (pfd_events p) = 0)"

definition accept_contract :: "net \<Rightarrow> pollfd list \<Rightarrow> bool" where
  "accept_contract net ps \<longleftrightarrow> accept_ret net = -1 \<or> accept_ret net \<notin> pfd_fd ` set ps"

inductive system_step ::
  "(InferenceTask \<Rightarrow> 'q \<Rightarrow> (bool \<times> 'q) call) \<Rightarrow>
   (InferenceTask list \<Rightarrow> size_t \<Rightarrow> 'q \<Rightarrow> (size_t \<times> InferenceTask list \<times> 'q) call) \<Rightarrow>
   (InferenceTask \<Rightarrow> InferenceResult \<Rightarrow> bool) \<Rightarrow> 'q lumen_system \<Rightarrow> 'q lumen_system \<Rightarrow> bool"
  for psh bat work where
  respond: "at_phase \<sigma> = Draining \<Longrightarrow> rq_pop_immediate (srv_results (server \<sigma>)) = (Some r, q) \<Longrightarrow>
     system_step psh bat work \<sigma> (\<sigma>\<lparr>server := deliver t r ((server \<sigma>)\<lparr>srv_results := q\<rparr>)\<rparr>)"
| drained: "at_phase \<sigma> = Draining \<Longrightarrow> rq_pop_immediate (srv_results (server \<sigma>)) = (None, q) \<Longrightarrow>
     srv1 = (server \<sigma>)\<lparr>srv_results := q\<rparr> \<Longrightarrow>
     system_step psh bat work \<sigma>
       (\<sigma>\<lparr>server := update_events 1 (length (pollfds srv1) - 1) srv1, at_phase := Polling\<rparr>)"
| poll_idle: "at_phase \<sigma> = Polling \<Longrightarrow> poll_count (net :: net) \<le> 0 \<Longrightarrow>
     system_step psh bat work \<sigma> (\<sigma>\<lparr>at_phase := Draining\<rparr>)"
| poll_ready: "at_phase \<sigma> = Polling \<Longrightarrow> 0 < poll_count net \<Longrightarrow> poll_contract net (pollfds (server \<sigma>)) \<Longrightarrow>
     system_step psh bat work \<sigma>
       (\<sigma>\<lparr>server := do_poll net (server \<sigma>), at_phase := Serving 0 (length (pollfds (server \<sigma>)))\<rparr>)"
| serve: "at_phase \<sigma> = Serving i (Suc n) \<Longrightarrow> net_ok net \<Longrightarrow>
     (pfd_fd (pollfds (server \<sigma>) ! i) = sockfd (server \<sigma>) \<longrightarrow> accept_contract net (pollfds (server \<sigma>))) \<Longrightarrow>
     service_entry (logged psh) net i (server \<sigma>) = (gone, srv1) \<Longrightarrow>
     system_step psh bat work \<sigma> (\<sigma>\<lparr>server := srv1, at_phase := Serving (if gone then i else Suc i) n\<rparr>)"
| served: "at_phase \<sigma> = Serving i 0 \<Longrightarrow> system_step psh bat work \<sigma> (\<sigma>\<lparr>at_phase := Draining\<rparr>)"
| worker_takes: "srv_tasks (server \<sigma>) = (q, h) \<Longrightarrow> bat [] m q = Returns (k, ts, q') \<Longrightarrow>
     system_step psh bat work \<sigma>
       (\<sigma>\<lparr>server := (server \<sigma>)\<lparr>srv_tasks := (q', h)\<rparr>, in_hand := in_hand \<sigma> @ ts\<rparr>)"
| worker_answers: "in_hand \<sigma> = xs @ t # ys \<Longrightarrow> work t r \<Longrightarrow>
     system_step psh bat work \<sigma>
       (\<sigma>\<lparr>server := (server \<sigma>)\<lparr>srv_results := rq_push r (srv_results (server \<sigma>))\<rparr>, in_hand := xs @ ys\<rparr>)"

text \<open>The last task a connection has offered.\<close>

definition last_task :: "int \<Rightarrow> InferenceTask list \<Rightarrow> InferenceTask option" where
  "last_task fd h = find (\<lambda>t. client_fd t = fd) (rev h)"

lemma last_task_snoc [simp]:
  "last_task fd (h @ [t]) = (if client_fd t = fd then Some t else last_task fd h)"
  by (simp add: last_task_def)

lemma last_task_client: "last_task fd h = Some t \<Longrightarrow> client_fd t = fd \<and> t \<in> set h"
  by (metis (mono_tags, lifting) find_Some_iff last_task_def nth_mem set_rev)


subsection \<open>The poll set\<close>

text \<open>
  The listening socket is at index 0; the descriptors are distinct; the sessions are those of
  the other entries.
\<close>

definition pollset_ok :: "'q TCPServer \<Rightarrow> bool" where
  "pollset_ok srv \<longleftrightarrow>
     (case pollfds srv of
        [] \<Rightarrow> False
      | p # ps \<Rightarrow> pfd_fd p = sockfd srv \<and> pfd_events p = POLLIN \<and> distinct (map pfd_fd (p # ps)) \<and>
                  dom (sessions srv) = pfd_fd ` set ps)"

lemma pollset_okE:
  assumes "pollset_ok srv"
  obtains p ps where "pollfds srv = p # ps" "pfd_fd p = sockfd srv" "pfd_events p = POLLIN"
    "distinct (map pfd_fd (p # ps))" "dom (sessions srv) = pfd_fd ` set ps"
  using assms by (auto simp: pollset_ok_def split: list.splits)

lemma pollset_ok_put: "pollset_ok srv \<Longrightarrow> fd \<in> dom (sessions srv) \<Longrightarrow> pollset_ok (put_session fd s srv)"
  by (auto simp: pollset_ok_def split: list.splits)

lemma pollset_ok_cong:
  "pollfds srv' = pollfds srv \<Longrightarrow> sockfd srv' = sockfd srv \<Longrightarrow> sessions srv' = sessions srv \<Longrightarrow>
     pollset_ok srv' = pollset_ok srv"
  by (simp add: pollset_ok_def split: list.splits)

lemma entry_session:
  assumes "pollset_ok srv" "i < length (pollfds srv)" "pfd_fd (pollfds srv ! i) \<noteq> sockfd srv"
  shows "0 < i" "pfd_fd (pollfds srv ! i) \<in> dom (sessions srv)"
  using assms by (auto elim!: pollset_okE simp: nth_Cons split: nat.splits)

lemma put_same_session: "fd \<in> dom (sessions srv) \<Longrightarrow> put_session fd (session_of srv fd) srv = srv"
  by (auto simp: put_session_def session_of_def fun_upd_idem)

text \<open>Closing moves the last entry into the hole: the other entries stay, in another order.\<close>

lemma swap_remove:
  assumes "i < length xs"
  shows "\<exists>zs. butlast (xs[i := last xs]) = take i xs @ zs \<and> mset zs = mset (drop (Suc i) xs)"
proof (cases "drop (Suc i) xs" rule: rev_cases)
  case Nil
  then have "Suc i = length xs"
    using assms by simp
  then show ?thesis
    by (intro exI [of _ "[]"]) (simp add: butlast_list_update butlast_conv_take flip: \<open>Suc i = length xs\<close>)
next
  case (snoc zs z)
  have xs: "xs = take i xs @ xs ! i # zs @ [z]"
    using id_take_nth_drop [OF assms] snoc by simp
  then have "xs[i := last xs] = take i xs @ z # zs @ [z]"
    using upd_conv_take_nth_drop [OF assms, of z] snoc by (metis append_is_Nil_conv last_ConsR last_appendR last_snoc list.distinct(1))
  then have "butlast (xs[i := last xs]) = take i xs @ z # zs"
    by (simp add: butlast_append)
  then show ?thesis
    using snoc by (intro exI [of _ "z # zs"]) simp
qed

lemma close_pollfds:
  assumes "pollset_ok srv" "i < length (pollfds srv)" "0 < i"
  obtains p zs where "pollfds (close_connection fd i srv) = p # take (i - 1) (tl (pollfds srv)) @ zs"
    "pfd_fd p = sockfd srv" "pfd_events p = POLLIN" "hd (pollfds srv) = p"
    "mset zs = mset (drop (Suc i) (pollfds srv))"
proof -
  obtain p ps where p: "pollfds srv = p # ps" "pfd_fd p = sockfd srv" "pfd_events p = POLLIN"
    using assms(1) by (elim pollset_okE)
  obtain zs where "butlast ((pollfds srv)[i := last (pollfds srv)]) = take i (pollfds srv) @ zs"
      "mset zs = mset (drop (Suc i) (pollfds srv))"
    using swap_remove [OF assms(2)] by blast
  then show thesis
    using p assms(3) by (intro that [of p zs]) (auto simp: close_connection_def take_Cons')
qed

lemma pollset_ok_close:
  assumes ok: "pollset_ok srv" and i: "i < length (pollfds srv)" "pfd_fd (pollfds srv ! i) \<noteq> sockfd srv"
  shows "pollset_ok (close_connection (pfd_fd (pollfds srv ! i)) i srv)"
    "set (drop i (pollfds (close_connection (pfd_fd (pollfds srv ! i)) i srv))) = set (drop (Suc i) (pollfds srv))"
    "length (pollfds (close_connection (pfd_fd (pollfds srv ! i)) i srv)) = length (pollfds srv) - 1"
proof -
  let ?fd = "pfd_fd (pollfds srv ! i)" and ?srv = "close_connection (pfd_fd (pollfds srv ! i)) i srv"
  have i0: "0 < i"
    using entry_session(1) [OF ok i] .
  then obtain k where k: "i = Suc k"
    by (cases i) auto
  obtain p zs where cl: "pollfds ?srv = p # take (i - 1) (tl (pollfds srv)) @ zs" "hd (pollfds srv) = p"
      "pfd_fd p = sockfd srv" "pfd_events p = POLLIN" "mset zs = mset (drop (Suc i) (pollfds srv))"
    by (rule close_pollfds [OF ok i(1) i0])
  obtain ps where ps: "pollfds srv = p # ps" "distinct (map pfd_fd (p # ps))" "dom (sessions srv) = pfd_fd ` set ps"
    using ok cl(2) by (elim pollset_okE) auto
  have split: "ps = take k ps @ ps ! k # drop (Suc k) ps"
    using i(1) ps(1) k by (intro id_take_nth_drop) simp
  have zs: "mset zs = mset (drop (Suc k) ps)"
    using cl(5) ps(1) k by simp
  have set_zs: "set zs = set (drop (Suc k) ps)"
    using zs by (rule mset_eq_setD)
  have pfs: "pollfds ?srv = p # take k ps @ zs"
    using cl(1) ps(1) k by simp
  have d: "distinct (map pfd_fd (p # take k ps @ ps ! k # drop (Suc k) ps))"
    unfolding split [symmetric] by (rule ps(2))
  have "mset (map pfd_fd zs) = mset (map pfd_fd (drop (Suc k) ps))"
    using zs by (metis mset_map)
  note dzs' = mset_eq_imp_distinct_iff [OF this]
  have dzs: "distinct (map pfd_fd zs)"
    unfolding dzs' using d by simp
  have "set ps = insert (ps ! k) (set (take k ps) \<union> set zs)"
    using arg_cong [OF split, of set] set_zs by auto
  moreover have "?fd = pfd_fd (ps ! k)"
    using ps(1) k by simp
  ultimately have "dom (sessions ?srv) = pfd_fd ` set (take k ps @ zs)"
    using ps(3) d set_zs by (simp add: close_connection_def image_Un insert_Diff_if)
  then show "pollset_ok ?srv"
    using d dzs pfs cl(3,4) set_zs by (auto simp: pollset_ok_def close_connection_def)
  show "set (drop i (pollfds ?srv)) = set (drop (Suc i) (pollfds srv))"
    using pfs k ps(1) set_zs i(1) by simp
  show "length (pollfds ?srv) = length (pollfds srv) - 1"
    by (simp add: close_connection_def)
qed

lemma pollset_ok_new_connection:
  assumes "pollset_ok srv" "accept_contract net (pollfds srv)"
  shows "pollset_ok (handle_new_connection net srv)"
proof -
  obtain p ps where p: "pollfds srv = p # ps" "pfd_fd p = sockfd srv" "pfd_events p = POLLIN"
      "distinct (map pfd_fd (p # ps))" "dom (sessions srv) = pfd_fd ` set ps"
    using assms(1) by (elim pollset_okE)
  then show ?thesis
    using assms by (auto simp: handle_new_connection_def Let_def pollset_ok_def accept_contract_def)
qed

lemma pollset_ok_poll: "pollset_ok srv \<Longrightarrow> pollset_ok (do_poll net srv)"
  by (auto simp: pollset_ok_def do_poll_def comp_def image_image split: list.splits)

text \<open>Setting the events changes nothing but the events of the clients.\<close>

lemma update_events_eq:
  assumes "\<forall>k < n. pfd_fd (pollfds srv ! (i + k)) \<in> dom (sessions srv)" "i + n \<le> length (pollfds srv)"
  shows "update_events i n srv =
    srv\<lparr>pollfds := take i (pollfds srv) @
         map (\<lambda>p. p\<lparr>pfd_events := wanted_events (state (session_of srv (pfd_fd p)))\<rparr>) (take n (drop i (pollfds srv))) @
         drop (i + n) (pollfds srv)\<rparr>"
  using assms
proof (induction n arbitrary: i srv)
  case (Suc n)
  let ?p = "pollfds srv ! i"
  let ?f = "\<lambda>p. p\<lparr>pfd_events := wanted_events (state (session_of srv (pfd_fd p)))\<rparr>"
  let ?srv = "srv\<lparr>pollfds := (pollfds srv)[i := ?f ?p]\<rparr>"
  have same: "put_session (pfd_fd ?p) (session_of srv (pfd_fd ?p)) srv = srv"
    using Suc.prems(1) by (intro put_same_session) (metis add_0_right zero_less_Suc)
  have i: "i < length (pollfds srv)"
    using Suc.prems(2) by simp
  have so: "session_of ?srv = session_of srv"
    by (rule ext) (simp add: session_of_def)
  have "\<forall>k < n. pfd_fd (pollfds ?srv ! (Suc i + k)) \<in> dom (sessions ?srv)"
    using Suc.prems(1) by (metis (no_types, lifting) Suc_less_eq TCPServer.select_convs(2) TCPServer.select_convs(7)
        TCPServer.surjective TCPServer.update_convs(2) add_Suc_shift less_add_Suc1 nat_neq_iff nth_list_update_neq)
  then have "update_events (Suc i) n ?srv =
      ?srv\<lparr>pollfds := take (Suc i) (pollfds ?srv) @ map ?f (take n (drop (Suc i) (pollfds ?srv))) @
        drop (Suc i + n) (pollfds ?srv)\<rparr>"
    using Suc.IH [of ?srv "Suc i"] Suc.prems(2) so by simp
  moreover have "take (Suc n) (drop i (pollfds srv)) = ?p # take n (drop (Suc i) (pollfds srv))"
    using i by (simp add: Cons_nth_drop_Suc [symmetric])
  ultimately show ?case
    using same i by (simp add: Let_def take_Suc_conv_app_nth)
qed simp

definition with_events :: "'q TCPServer \<Rightarrow> pollfd \<Rightarrow> pollfd" where
  "with_events srv p = p\<lparr>pfd_events := wanted_events (state (session_of srv (pfd_fd p)))\<rparr>"

lemma update_all_events:
  assumes "pollset_ok srv" "pollfds srv = p # ps"
  shows "update_events 1 (length (pollfds srv) - 1) srv = srv\<lparr>pollfds := p # map (with_events srv) ps\<rparr>"
proof -
  have "dom (sessions srv) = pfd_fd ` set ps"
    using assms by (elim pollset_okE) simp
  then have "\<forall>k < length ps. pfd_fd (pollfds srv ! (1 + k)) \<in> dom (sessions srv)"
    using assms(2) by simp
  then show ?thesis
    using update_events_eq [of "length ps" srv 1] assms(2)
    by (simp add: with_events_def [abs_def])
qed

lemma pollset_ok_events:
  "pollset_ok srv \<Longrightarrow> pollfds srv = p # ps \<Longrightarrow> pollset_ok (srv\<lparr>pollfds := p # map (with_events srv) ps\<rparr>)"
  by (auto simp: pollset_ok_def with_events_def comp_def image_image)


subsection \<open>What one event does to a session\<close>

text \<open>
  A readable connection either changes its own session, which stays short of \<open>INFERENCE_PENDING\<close>
  and does not touch the response, or its body is complete and its task is offered.
\<close>

definition reads_on :: "ClientSession \<Rightarrow> ClientSession \<Rightarrow> bool" where
  "reads_on s s' \<longleftrightarrow> s' = s \<or>
     state s \<in> {HEADER_PENDING, BODY_PENDING} \<and> state s' \<in> {HEADER_PENDING, BODY_PENDING}"

lemma process_header_effect:
  assumes "state (session_of srv fd) = HEADER_PENDING" "fd \<in> dom (sessions srv)"
  shows "\<exists>s'. snd (process_header net fd srv) = put_session fd s' srv \<and> reads_on (session_of srv fd) s'"
proof (cases "recv_ret net fd (unat (4 - header_bytes_received (session_of srv fd)))")
  case (Received d)
  have "reads_on (session_of srv fd) (header_step d (session_of srv fd))"
    using assms(1) by (simp add: reads_on_def header_step_def Let_def)
  then show ?thesis
    using process_header_Received [OF Received] by blast
next
  case PeerClosed
  then show ?thesis
    using assms by (intro exI [of _ "session_of srv fd"]) (simp add: process_header_def put_same_session reads_on_def)
next
  case (RecvFailed again)
  then show ?thesis
    using assms by (intro exI [of _ "session_of srv fd"]) (simp add: process_header_def put_same_session reads_on_def)
qed

lemma process_body_effect:
  assumes "state (session_of srv fd) = BODY_PENDING" "fd \<in> dom (sessions srv)"
  shows "(\<exists>s'. snd (process_body psh net fd srv) = put_session fd s' srv \<and> reads_on (session_of srv fd) s') \<or>
    (\<exists>s' g t. process_body psh net fd srv =
       (1, put_session fd s' (srv\<lparr>trace_id_gen := g, srv_tasks := push_task psh t (srv_tasks srv)\<rparr>)) \<and>
       state s' = INFERENCE_PENDING \<and> client_fd t = fd)"
proof (cases "body_buffer (session_of srv fd) = []")
  case False
  show ?thesis
  proof (cases "recv_ret net fd (unat (ucast (expected_size (session_of srv fd)) - bytes_received (session_of srv fd)))")
    case (Received d)
    show ?thesis
    proof (cases "bytes_received (session_of srv fd) + of_nat (length d) = ucast (expected_size (session_of srv fd))")
      case True
      then show ?thesis
        using False Received
        by (intro disjI2) (simp add: process_body_def Let_def finalize_put new_task_def, (intro exI conjI, rule refl, simp_all))
    next
      case neq: False
      then show ?thesis
        using assms(1) by (intro disjI1 exI [of _ "body_step d (session_of srv fd)"])
          (simp add: process_body_Received [OF False Received] Let_def body_step_def reads_on_def)
    qed
  next
    case PeerClosed
    then show ?thesis
      using assms False
      by (intro disjI1 exI [of _ "session_of srv fd"]) (simp add: process_body_def put_same_session reads_on_def)
  next
    case (RecvFailed again)
    then show ?thesis
      using assms False
      by (intro disjI1 exI [of _ "session_of srv fd"]) (simp add: process_body_def put_same_session reads_on_def)
  qed
next
  case True
  then show ?thesis
    using assms
    by (intro disjI1 exI [of _ "session_of srv fd"]) (simp add: process_body_def put_same_session reads_on_def)
qed

lemma client_data_effect:
  assumes "session_ok (session_of srv fd)" "fd \<in> dom (sessions srv)"
  shows "(\<exists>s'. snd (handle_client_data psh net fd srv) = put_session fd s' srv \<and> reads_on (session_of srv fd) s') \<or>
    (\<exists>s' g t. handle_client_data psh net fd srv =
       (1, put_session fd s' (srv\<lparr>trace_id_gen := g, srv_tasks := push_task psh t (srv_tasks srv)\<rparr>)) \<and>
       state (session_of srv fd) = BODY_PENDING \<and> state s' = INFERENCE_PENDING \<and> client_fd t = fd)"
proof -
  have "state (session_of srv fd) \<noteq> READY_FOR_INFERENCE"
    using assms(1) by (simp add: session_ok_def)
  then consider "state (session_of srv fd) = HEADER_PENDING" | "state (session_of srv fd) = BODY_PENDING"
    | "handle_client_data psh net fd srv = (1, srv)"
    using put_same_session [OF assms(2)] by (cases "state (session_of srv fd)") (auto simp: handle_client_data_def Let_def)
  then show ?thesis
  proof cases
    case 1
    then show ?thesis
      using process_header_effect [OF _ assms(2)] put_same_session [OF assms(2)]
      by (simp add: handle_client_data_def Let_def)
  next
    case 2
    then show ?thesis
      using process_body_effect [OF _ assms(2), of psh net] put_same_session [OF assms(2)]
      by (simp add: handle_client_data_def Let_def)
  next
    case 3
    then show ?thesis
      using put_same_session [OF assms(2)] by (intro disjI1 exI [of _ "session_of srv fd"]) (simp add: reads_on_def)
  qed
qed

text \<open>A send moves on only in \<open>RESPONSE_SENDING\<close>, and keeps the response.\<close>

definition sends_on :: "ClientSession \<Rightarrow> ClientSession \<Rightarrow> bool" where
  "sends_on s s' \<longleftrightarrow> s' = s \<or>
     state s = RESPONSE_SENDING \<and> state s' \<in> {RESPONSE_SENDING, HEADER_PENDING} \<and>
     response_buffer s' = response_buffer s"

lemma send_effect:
  assumes "session_ok (session_of srv fd)" "net_ok net"
  obtains s' w where "snd (send_response net fd srv) = put_session fd s' (srv\<lparr>wire := w\<rparr>)" "sends_on (session_of srv fd) s'"
proof -
  let ?s = "session_of srv fd"
  obtain sent again where send:
      "send_ret net fd (unat (of_nat (length (response_buffer ?s)) - bytes_sent ?s)) = (sent, again)"
    by fastforce
  show thesis
  proof (cases "0 < sent")
    case True
    have "state ?s = RESPONSE_SENDING"
      by (rule sent_count(3) [OF assms(1) True net_ok_send [OF assms(2) send]])
    then have "sends_on ?s (send_step sent ?s)"
      by (simp add: sends_on_def send_step_def Let_def session_reset_def)
    then show thesis
      using True by (intro that) (simp_all add: send_response_eq send put_on_wire_def)
  next
    case False
    then show thesis
      by (intro that [of ?s "wire srv"]) (simp_all add: send_response_eq send sends_on_def)
  qed
qed


subsection \<open>The invariant of the system\<close>

definition awaits :: "'q TCPServer \<Rightarrow> int \<Rightarrow> bool" where
  "awaits srv fd \<longleftrightarrow> (\<exists>s. sessions srv fd = Some s \<and> state s = INFERENCE_PENDING)"

text \<open>The clients of the tasks and results that are under way.\<close>

definition outstanding ::
  "('q \<Rightarrow> InferenceTask list) \<Rightarrow> InferenceTask list \<Rightarrow> ('q \<times> InferenceTask list) TCPServer \<Rightarrow> int list" where
  "outstanding cont hand srv =
     map client_fd (cont (fst (srv_tasks srv)) @ hand) @ map res_client_fd (rq_data (srv_results srv))"

definition answers_last ::
  "(InferenceTask \<Rightarrow> InferenceResult \<Rightarrow> bool) \<Rightarrow> InferenceTask list \<Rightarrow> int \<Rightarrow> string \<Rightarrow> bool" where
  "answers_last work h fd txt \<longleftrightarrow> (\<exists>t r. last_task fd h = Some t \<and> work t r \<and> response r = txt)"

text \<open>
  Every connection has at most one request under way, and then it waits; what is under way for
  a connection, and the response it is being sent, belong to the last request it made.
\<close>

definition core ::
  "('q \<Rightarrow> InferenceTask list) \<Rightarrow> ('q \<Rightarrow> bool) \<Rightarrow> (InferenceTask \<Rightarrow> InferenceResult \<Rightarrow> bool) \<Rightarrow>
   InferenceTask list \<Rightarrow> ('q \<times> InferenceTask list) TCPServer \<Rightarrow> bool" where
  "core cont qinv work hand srv \<longleftrightarrow>
     server_ok srv \<and> pollset_ok srv \<and> qinv (fst (srv_tasks srv)) \<and>
     distinct (outstanding cont hand srv) \<and> (\<forall>fd \<in> set (outstanding cont hand srv). awaits srv fd) \<and>
     (\<forall>t \<in> set (cont (fst (srv_tasks srv)) @ hand). last_task (client_fd t) (snd (srv_tasks srv)) = Some t) \<and>
     (\<forall>r \<in> set (rq_data (srv_results srv)). answers_last work (snd (srv_tasks srv)) (res_client_fd r) (response r)) \<and>
     (\<forall>fd s. sessions srv fd = Some s \<longrightarrow> state s = RESPONSE_SENDING \<longrightarrow>
        answers_last work (snd (srv_tasks srv)) fd (response_buffer s))"

text \<open>An entry whose reported events concern a connection that can handle them.\<close>

definition calm :: "'q TCPServer \<Rightarrow> pollfd \<Rightarrow> bool" where
  "calm srv p \<longleftrightarrow>
     (pfd_fd p = sockfd srv \<longrightarrow> pfd_revents p AND POLLOUT = 0) \<and>
     (awaits srv (pfd_fd p) \<longrightarrow> pfd_revents p AND POLLIN = 0 \<and> pfd_revents p AND POLLOUT = 0)"

definition phase_ok :: "server_phase \<Rightarrow> 'q TCPServer \<Rightarrow> bool" where
  "phase_ok ph srv \<longleftrightarrow>
     (case ph of
        Draining \<Rightarrow> True
      | Polling \<Rightarrow> (\<forall>p \<in> set (tl (pollfds srv)). pfd_events p = wanted_events (state (session_of srv (pfd_fd p))))
      | Serving i n \<Rightarrow> i + n \<le> length (pollfds srv) \<and> (\<forall>p \<in> set (drop i (pollfds srv)). calm srv p))"

lemma service_entry_calm_cases:
  assumes "calm srv (pollfds srv ! i)"
  obtains "pfd_fd (pollfds srv ! i) = sockfd srv" "service_entry psh net i srv = (False, handle_new_connection net srv)"
  | fd r srv1 where "fd = pfd_fd (pollfds srv ! i)" "fd \<noteq> sockfd srv" "\<not> awaits srv fd"
      "handle_client_data psh net fd srv = (r, srv1)"
      "service_entry psh net i srv =
         (if r \<le> 0 then (True, close_connection (pfd_fd (pollfds srv1 ! i)) i srv1) else (False, srv1))"
  | fd fails srv1 where "fd = pfd_fd (pollfds srv ! i)" "fd \<noteq> sockfd srv" "\<not> awaits srv fd"
      "send_response net fd srv = (fails, srv1)"
      "service_entry psh net i srv = (if fails then (True, close_connection fd i srv1) else (False, srv1))"
  | "service_entry psh net i srv = (False, srv)"
proof -
  let ?p = "pollfds srv ! i"
  obtain r srv1 where h: "handle_client_data psh net (pfd_fd ?p) srv = (r, srv1)"
    by fastforce
  obtain f srv2 where sd: "send_response net (pfd_fd ?p) srv = (f, srv2)"
    by fastforce
  consider "pfd_revents ?p AND POLLIN \<noteq> 0" "pfd_fd ?p = sockfd srv"
    | "pfd_revents ?p AND POLLIN \<noteq> 0" "pfd_fd ?p \<noteq> sockfd srv"
    | "pfd_revents ?p AND POLLIN = 0" "pfd_revents ?p AND POLLOUT \<noteq> 0"
    | "pfd_revents ?p AND POLLIN = 0" "pfd_revents ?p AND POLLOUT = 0"
    by blast
  then show thesis
  proof cases
    case 1
    then show thesis
      by (intro that(1)) (simp_all add: service_entry_def)
  next
    case 2
    then show thesis
      using assms by (intro that(2) [OF refl _ _ h]) (auto simp: service_entry_def h calm_def)
  next
    case 3
    then show thesis
      using assms by (intro that(3) [OF refl _ _ sd]) (auto simp: service_entry_def sd calm_def)
  next
    case 4
    then show thesis
      by (intro that(4)) (simp add: service_entry_def)
  qed
qed

lemma awaits_put: "awaits (put_session fd s srv) x \<longleftrightarrow> (if x = fd then state s = INFERENCE_PENDING else awaits srv x)"
  by (simp add: awaits_def)

lemma not_awaits_session: "fd \<in> dom (sessions srv) \<Longrightarrow> \<not> awaits srv fd \<longleftrightarrow> state (session_of srv fd) \<noteq> INFERENCE_PENDING"
  by (auto simp: awaits_def session_of_def)

lemma awaits_cong: "sessions srv' = sessions srv \<Longrightarrow> awaits srv' = awaits srv"
  by (simp add: awaits_def fun_eq_iff)

lemma calm_cong:
  "sockfd srv' = sockfd srv \<Longrightarrow> (awaits srv' (pfd_fd p) \<Longrightarrow> awaits srv (pfd_fd p)) \<Longrightarrow> calm srv p \<Longrightarrow> calm srv' p"
  by (auto simp: calm_def)

locale lumen_service = task_queue push pop pop_batch shutdown contents accepts inv
  for push :: "InferenceTask \<Rightarrow> 'q \<Rightarrow> (bool \<times> 'q) call"
    and pop :: "'q \<Rightarrow> (InferenceTask option \<times> 'q) call"
    and pop_batch :: "InferenceTask list \<Rightarrow> size_t \<Rightarrow> 'q \<Rightarrow> (size_t \<times> InferenceTask list \<times> 'q) call"
    and shutdown :: "'q \<Rightarrow> 'q"
    and contents :: "'q \<Rightarrow> InferenceTask list"
    and accepts :: "'q \<Rightarrow> bool"
    and inv :: "'q \<Rightarrow> bool" +
  fixes work :: "InferenceTask \<Rightarrow> InferenceResult \<Rightarrow> bool"
  assumes work_client: "work t r \<Longrightarrow> res_client_fd r = client_fd t"
    and work_length: "work t r \<Longrightarrow> length (response r) < 18446744073709551616"
begin

lemma push_logged:
  assumes "inv q"
  obtains q' xs where "push_task (logged push) t (q, h) = (q', h @ [t])" "inv q'" "contents q' = contents q @ xs"
    "xs = [t] \<or> xs = []" "accepts q \<Longrightarrow> xs = [t]" "\<not> accepts q \<Longrightarrow> xs = []"
proof (cases "accepts q")
  case True
  then obtain q' where "push t q = Returns (True, q')" "inv q'" "contents q' = contents q @ [t]"
    using push_taken [OF assms] by blast
  then show thesis
    using True by (intro that [of q' "[t]"]) (simp_all add: push_task_def logged_def)
next
  case False
  then have "push t q = Returns (False, q)"
    using push_refused [OF assms] by blast
  then show thesis
    using False assms by (intro that [of q "[]"]) (simp_all add: push_task_def logged_def)
qed

lemma awaits_wire [simp]:
  "awaits (srv\<lparr>wire := w\<rparr>) x = awaits srv x" "session_of (srv\<lparr>wire := w\<rparr>) x = session_of srv x"
  by (simp_all add: awaits_def session_of_def)

text \<open>What was sent before plays no part in what is kept.\<close>

lemma core_wire: "core contents inv work hand (srv\<lparr>wire := w\<rparr>) = core contents inv work hand srv"
  by (simp add: core_def server_ok_def pollset_ok_def outstanding_def split: list.split)

lemma core_put:
  assumes c: "core contents inv work hand srv" and fd: "fd \<in> dom (sessions srv)" "\<not> awaits srv fd"
    and s: "session_ok s" "state s \<noteq> INFERENCE_PENDING"
      "state s = RESPONSE_SENDING \<Longrightarrow>
         state (session_of srv fd) = RESPONSE_SENDING \<and> response_buffer s = response_buffer (session_of srv fd)"
  shows "core contents inv work hand (put_session fd s srv)"
proof -
  have out: "outstanding contents hand (put_session fd s srv) = outstanding contents hand srv"
    by (simp add: outstanding_def)
  have "fd \<notin> set (outstanding contents hand srv)"
    using c fd(2) by (auto simp: core_def)
  then have aw: "\<forall>x \<in> set (outstanding contents hand srv). awaits (put_session fd s srv) x"
    using c by (auto simp: core_def awaits_put)
  have "answers_last work (snd (srv_tasks srv)) fd (response_buffer s)" if "state s = RESPONSE_SENDING"
    using s(3) [OF that] c fd(1) by (auto simp: core_def session_of_def)
  then show ?thesis
    using c aw server_ok_put [OF _ s(1)] pollset_ok_put [OF _ fd(1)]
    unfolding core_def out by (auto split: if_splits)
qed



lemma core_push:
  assumes c: "core contents inv work hand srv" and fd: "fd \<in> dom (sessions srv)" "\<not> awaits srv fd"
    and s: "session_ok s" "state s = INFERENCE_PENDING" and t: "client_fd t = fd"
  shows "core contents inv work hand
    (put_session fd s (srv\<lparr>trace_id_gen := g, srv_tasks := push_task (logged push) t (srv_tasks srv)\<rparr>))"
proof -
  obtain q h where qh: "srv_tasks srv = (q, h)"
    by fastforce
  have "inv q"
    using c qh by (simp add: core_def)
  then obtain q' xs where q': "push_task (logged push) t (q, h) = (q', h @ [t])" "inv q'"
      "contents q' = contents q @ xs" "xs = [t] \<or> xs = []"
    by (rule push_logged)
  let ?srv = "put_session fd s (srv\<lparr>trace_id_gen := g, srv_tasks := (q', h @ [t])\<rparr>)"
  have nin: "fd \<notin> set (outstanding contents hand srv)"
    using c fd(2) by (auto simp: core_def)
  let ?mid = "srv\<lparr>trace_id_gen := g, srv_tasks := (q', h @ [t])\<rparr>"
  have mid: "server_ok ?mid" "pollset_ok ?mid" "fd \<in> dom (sessions ?mid)"
    using c fd(1) server_ok_cong [of ?mid srv] pollset_ok_cong [of ?mid srv] by (simp_all add: core_def)
  have out: "outstanding contents hand ?srv =
      map client_fd (contents q @ xs @ hand) @ map res_client_fd (rq_data (srv_results srv))"
    by (simp add: outstanding_def q'(3))
  have old: "outstanding contents hand srv = map client_fd (contents q @ hand) @ map res_client_fd (rq_data (srv_results srv))"
    by (simp add: outstanding_def qh)
  have aw: "awaits ?srv x" if "x \<in> set (outstanding contents hand srv) \<or> x = fd" for x
    using that c s(2) by (auto simp: core_def awaits_def)
  have "server_ok ?srv" "pollset_ok ?srv"
    by (rule server_ok_put [OF mid(1) s(1)], rule pollset_ok_put [OF mid(2,3)])
  moreover have "distinct (outstanding contents hand ?srv)"
  proof -
    have "distinct (outstanding contents hand srv)"
      using c by (simp add: core_def)
    then show ?thesis
      using nin q'(4) t unfolding out old by (elim disjE) (simp_all del: Int_Un_distrib image_Un)
  qed
  moreover have "\<forall>x \<in> set (outstanding contents hand ?srv). awaits ?srv x"
  proof
    fix x assume "x \<in> set (outstanding contents hand ?srv)"
    then have "x \<in> set (outstanding contents hand srv) \<or> x = fd"
      using q'(4) t unfolding out old by auto
    then show "awaits ?srv x"
      by (rule aw)
  qed
  moreover have "\<forall>t' \<in> set (contents q' @ hand). last_task (client_fd t') (h @ [t]) = Some t'"
    using c nin q'(3,4) t qh by (auto simp: core_def outstanding_def)
  moreover have "\<forall>r \<in> set (rq_data (srv_results srv)). answers_last work (h @ [t]) (res_client_fd r) (response r)"
    using c nin t qh by (auto simp: core_def outstanding_def answers_last_def)
  moreover have "answers_last work (h @ [t]) x (response_buffer s')"
    if "sessions ?srv x = Some s'" "state s' = RESPONSE_SENDING" for x s'
    using that c t qh s(2) by (auto simp: core_def answers_last_def split: if_splits)
  ultimately show ?thesis
    unfolding core_def qh q'(1) using q'(2) by simp
qed

lemma core_close:
  assumes c: "core contents inv work hand srv" and i: "i < length (pollfds srv)" "fd = pfd_fd (pollfds srv ! i)"
    and fd: "fd \<noteq> sockfd srv" "\<not> awaits srv fd"
  shows "core contents inv work hand (close_connection fd i srv)"
proof -
  let ?srv = "close_connection fd i srv"
  have f: "srv_tasks ?srv = srv_tasks srv" "srv_results ?srv = srv_results srv" "sessions ?srv = (sessions srv)(fd := None)"
    by (simp_all add: close_connection_def)
  have out: "outstanding contents hand ?srv = outstanding contents hand srv"
    by (simp add: outstanding_def f)
  have "pollset_ok ?srv"
    using pollset_ok_close(1) [of srv i] c i fd(1) by (simp add: core_def)
  moreover have "server_ok ?srv"
    using c server_ok_close by (auto simp: core_def)
  moreover have "\<forall>x \<in> set (outstanding contents hand srv). awaits ?srv x"
    using c fd(2) by (auto simp: core_def awaits_def f)
  ultimately show ?thesis
    using c unfolding core_def out f by auto
qed

lemma core_new_connection:
  assumes c: "core contents inv work hand srv" and a: "accept_contract net (pollfds srv)"
  shows "core contents inv work hand (handle_new_connection net srv)"
proof (cases "accept_ret net = -1")
  case False
  let ?srv = "handle_new_connection net srv"
  have f: "srv_tasks ?srv = srv_tasks srv" "srv_results ?srv = srv_results srv"
      "sessions ?srv = (sessions srv)(accept_ret net \<mapsto> new_session)"
    using False by (simp_all add: handle_new_connection_def Let_def)
  have out: "outstanding contents hand ?srv = outstanding contents hand srv"
    by (simp add: outstanding_def f)
  have "accept_ret net \<notin> dom (sessions srv)"
    using c a False by (auto simp: core_def accept_contract_def elim!: pollset_okE) (metis domI)
  then have "\<forall>x \<in> set (outstanding contents hand srv). awaits ?srv x"
    using c by (auto simp: core_def awaits_def f)
  moreover have "pollset_ok ?srv" "server_ok ?srv"
    using c a pollset_ok_new_connection server_ok_new_connection by (auto simp: core_def)
  moreover have "state new_session \<noteq> RESPONSE_SENDING"
    by (simp add: new_session_def)
  ultimately show ?thesis
    using c unfolding core_def out f by (auto split: if_splits)
qed (use c in \<open>simp add: handle_new_connection_def\<close>)

lemma core_deliver:
  assumes c: "core contents inv work hand srv" and r: "rq_data (srv_results srv) = r # rs"
  shows "core contents inv work hand (deliver t r (srv\<lparr>srv_results := (srv_results srv)\<lparr>rq_data := rs\<rparr>\<rparr>))"
proof -
  let ?mid = "srv\<lparr>srv_results := (srv_results srv)\<lparr>rq_data := rs\<rparr>\<rparr>"
  have "res_client_fd r \<in> set (outstanding contents hand srv)"
    by (simp add: outstanding_def r)
  then obtain s where s: "sessions srv (res_client_fd r) = Some s"
    using c by (auto simp: core_def awaits_def)
  let ?s = "s\<lparr>response_buffer := response r, state := RESPONSE_SENDING, bytes_sent := 0\<rparr>"
  let ?srv = "deliver t r ?mid"
  have f: "srv_tasks ?srv = srv_tasks srv" "rq_data (srv_results ?srv) = rs" "pollfds ?srv = pollfds srv"
      "sockfd ?srv = sockfd srv" "sessions ?srv = (sessions srv)(res_client_fd r \<mapsto> ?s)"
    using s by (simp_all add: deliver_def Let_def split: option.splits)
  have "length (response r) < 18446744073709551616"
    using c r by (simp add: core_def server_ok_def)
  then have "server_ok ?srv"
    using c r by (intro server_ok_deliver) (auto simp: core_def server_ok_def)
  moreover have "pollset_ok ?srv"
    using c s f(3-5) by (auto simp: core_def pollset_ok_def split: list.splits)
  moreover have "distinct (outstanding contents hand ?srv)" "\<forall>x \<in> set (outstanding contents hand ?srv). awaits ?srv x"
    using c r by (auto simp: core_def outstanding_def f awaits_def)
  ultimately show ?thesis
    using c r unfolding core_def f by auto
qed

lemma core_cong:
  assumes "core contents inv work hand srv" "sessions srv' = sessions srv" "srv_tasks srv' = srv_tasks srv"
    "srv_results srv' = srv_results srv" "pollset_ok srv'"
  shows "core contents inv work hand srv'"
  using assms server_ok_cong [of srv' srv] awaits_cong [of srv' srv] by (auto simp: core_def outstanding_def)

lemma core_takes:
  assumes c: "core contents inv work hand srv" and q: "srv_tasks srv = (q, h)" "pop_batch [] m q = Returns (k, ts, q')"
  shows "core contents inv work (hand @ ts) (srv\<lparr>srv_tasks := (q', h)\<rparr>)"
proof -
  let ?srv = "srv\<lparr>srv_tasks := (q', h)\<rparr>"
  have "inv q"
    using c q(1) by (simp add: core_def)
  then have q': "inv q'" "contents q = ts @ contents q'"
    using pop_batch_returns [OF _ q(2)] by auto
  have "server_ok ?srv" "pollset_ok ?srv" "awaits ?srv = awaits srv"
    using c by (auto simp: core_def server_ok_def pollset_ok_def awaits_def fun_eq_iff split: list.splits)
  then show ?thesis
    using c q(1) q' by (auto simp: core_def outstanding_def)
qed

lemma core_answers:
  assumes c: "core contents inv work (xs @ t # ys) srv" and r: "work t r"
  shows "core contents inv work (xs @ ys) (srv\<lparr>srv_results := rq_push r (srv_results srv)\<rparr>)"
proof -
  let ?srv = "srv\<lparr>srv_results := rq_push r (srv_results srv)\<rparr>"
  have fd: "res_client_fd r = client_fd t"
    by (rule work_client [OF r])
  have "server_ok ?srv" "pollset_ok ?srv" "awaits ?srv = awaits srv"
    using c work_length [OF r]
    by (auto simp: core_def server_ok_def pollset_ok_def awaits_def fun_eq_iff rq_push_def split: list.splits)
  moreover have "answers_last work (snd (srv_tasks srv)) (res_client_fd r) (response r)"
    using c r fd by (auto simp: core_def answers_last_def)
  ultimately show ?thesis
    using c fd by (auto simp: core_def outstanding_def rq_push_def)
qed

end


subsection \<open>Every step keeps the invariant\<close>

definition system_inv ::
  "('q \<Rightarrow> InferenceTask list) \<Rightarrow> ('q \<Rightarrow> bool) \<Rightarrow> (InferenceTask \<Rightarrow> InferenceResult \<Rightarrow> bool) \<Rightarrow> 'q lumen_system \<Rightarrow> bool" where
  "system_inv cont qinv work \<sigma> \<longleftrightarrow>
     core cont qinv work (in_hand \<sigma>) (server \<sigma>) \<and> phase_ok (at_phase \<sigma>) (server \<sigma>)"

text \<open>Entries other than the one being served stay calm.\<close>

lemma calm_rest:
  assumes "\<forall>p \<in> set (drop i (pollfds srv)). calm srv p" "sockfd srv1 = sockfd srv"
    and "\<And>x. x \<noteq> pfd_fd (pollfds srv ! i) \<Longrightarrow> awaits srv1 x = awaits srv x"
    and "distinct (map pfd_fd (pollfds srv))" "i < length (pollfds srv)" "p \<in> set (drop (Suc i) (pollfds srv))"
  shows "calm srv1 p"
proof -
  have d: "drop i (pollfds srv) = pollfds srv ! i # drop (Suc i) (pollfds srv)"
    using assms(5) by (simp add: Cons_nth_drop_Suc)
  then have "calm srv p"
    using assms(1,6) by simp
  moreover have "distinct (map pfd_fd (drop i (pollfds srv)))"
    using assms(4) by (metis distinct_drop drop_map)
  then have "pfd_fd p \<noteq> pfd_fd (pollfds srv ! i)"
    using assms(6) unfolding d by (simp, metis image_eqI)
  ultimately show ?thesis
    using calm_cong assms(2,3) by metis
qed

lemma pollset_distinct: "pollset_ok srv \<Longrightarrow> distinct (map pfd_fd (pollfds srv))"
  by (elim pollset_okE) simp

text \<open>
  The poll part of the invariant after an entry was served: \<open>srv1\<close> is the server after the
  handler, whose connection may then be closed.
\<close>

lemma phase_after_entry:
  fixes srv srv1 :: "'q TCPServer"
  assumes ok: "pollset_ok srv" and ph: "phase_ok (Serving i (Suc n)) srv"
    and fd: "fd = pfd_fd (pollfds srv ! i)"
    and srv1: "pollfds srv1 = pollfds srv" "sockfd srv1 = sockfd srv" "pollset_ok srv1"
      "\<And>x. x \<noteq> fd \<Longrightarrow> awaits srv1 x = awaits srv x"
  shows "phase_ok (Serving (Suc i) n) srv1"
    "fd \<noteq> sockfd srv \<Longrightarrow> phase_ok (Serving i n) (close_connection fd i srv1)"
proof -
  have i: "i < length (pollfds srv)" "i + Suc n \<le> length (pollfds srv)" "\<forall>p \<in> set (drop i (pollfds srv)). calm srv p"
    using ph by (simp_all add: phase_ok_def)
  have calm: "calm srv2 p"
    if "p \<in> set (drop (Suc i) (pollfds srv))" "sockfd srv2 = sockfd srv" "\<And>x. x \<noteq> fd \<Longrightarrow> awaits srv2 x = awaits srv x"
    for p and srv2 :: "'q TCPServer"
    by (rule calm_rest [OF i(3) that(2) that(3) [unfolded fd] pollset_distinct [OF ok] i(1) that(1)])
  show "phase_ok (Serving (Suc i) n) srv1"
    using i(2) calm [OF _ srv1(2,4)] srv1(1) by (auto simp: phase_ok_def)
  show "phase_ok (Serving i n) (close_connection fd i srv1)" if "fd \<noteq> sockfd srv"
  proof -
    let ?srv = "close_connection fd i srv1"
    have "awaits ?srv x = awaits srv x" if "x \<noteq> fd" for x
      using srv1(4) [OF that] that by (simp add: awaits_def close_connection_def)
    moreover have "sockfd ?srv = sockfd srv"
      by (simp add: close_connection_def srv1(2))
    moreover have "set (drop i (pollfds ?srv)) = set (drop (Suc i) (pollfds srv))"
        "length (pollfds ?srv) = length (pollfds srv) - 1"
      using pollset_ok_close(2,3) [OF srv1(3), of i] srv1(1,2) i(1) that fd by auto
    ultimately show ?thesis
      using calm i(2) by (auto simp: phase_ok_def)
  qed
qed

lemma phase_after_accept:
  assumes ok: "pollset_ok srv" and ph: "phase_ok (Serving i (Suc n)) srv" and a: "accept_contract net (pollfds srv)"
  shows "phase_ok (Serving (Suc i) n) (handle_new_connection net srv)"
proof (cases "accept_ret net = -1")
  case True
  then show ?thesis
    using phase_after_entry(1) [OF ok ph refl _ _ ok] by (simp add: handle_new_connection_def)
next
  case False
  let ?srv = "handle_new_connection net srv" and ?fd = "accept_ret net"
  have i: "i < length (pollfds srv)" "i + Suc n \<le> length (pollfds srv)" "\<forall>p \<in> set (drop i (pollfds srv)). calm srv p"
    using ph by (simp_all add: phase_ok_def)
  have fresh: "?fd \<notin> pfd_fd ` set (pollfds srv)"
    using a False by (simp add: accept_contract_def)
  have f: "pollfds ?srv = pollfds srv @ [\<lparr>pfd_fd = ?fd, pfd_events = POLLIN, pfd_revents = stale_revents net\<rparr>]"
      "sockfd ?srv = sockfd srv" "sessions ?srv = (sessions srv)(?fd \<mapsto> new_session)"
    using False by (simp_all add: handle_new_connection_def Let_def)
  have aw: "awaits ?srv x \<longleftrightarrow> x \<noteq> ?fd \<and> awaits srv x" for x
    by (simp add: awaits_def f(3) new_session_def)
  have "sockfd srv \<in> pfd_fd ` set (pollfds srv)"
    using ok by (auto elim!: pollset_okE)
  then have "calm ?srv \<lparr>pfd_fd = ?fd, pfd_events = POLLIN, pfd_revents = stale_revents net\<rparr>"
    using fresh by (auto simp: calm_def f(2) aw)
  moreover have "calm ?srv p" if "p \<in> set (drop (Suc i) (pollfds srv))" for p
  proof (rule calm_cong [OF f(2)])
    show "calm srv p"
      using i that by (metis Cons_nth_drop_Suc list.set_intros(2))
  qed (simp add: aw)
  ultimately show ?thesis
    using i(2) by (auto simp: phase_ok_def f(1))
qed

context lumen_service
begin

lemma core_reads:
  assumes c: "core contents inv work hand srv" and net: "net_ok net"
    and fd: "fd \<in> dom (sessions srv)" "\<not> awaits srv fd"
    and h: "handle_client_data (logged push) net fd srv = (r, srv1)"
  shows "core contents inv work hand srv1" "pollfds srv1 = pollfds srv" "sockfd srv1 = sockfd srv"
    "x \<noteq> fd \<Longrightarrow> awaits srv1 x = awaits srv x" "r \<le> 0 \<Longrightarrow> \<not> awaits srv1 fd"
    "set (outstanding contents hand srv1) \<subseteq> insert fd (set (outstanding contents hand srv))"
    "set (outstanding contents hand srv) \<subseteq> set (outstanding contents hand srv1)"
    "accepts (fst (srv_tasks srv)) \<Longrightarrow> awaits srv1 fd \<Longrightarrow> fd \<in> set (outstanding contents hand srv1)"
proof -
  have ok: "server_ok srv"
    using c by (simp add: core_def)
  note sok = server_ok_session [OF ok, of fd]
  have "server_ok srv1"
    using server_ok_client_data [OF ok net, of "logged push" fd] h by simp
  then have ok1: "session_ok (session_of srv1 fd)"
    by (rule server_ok_session)
  have nw: "state (session_of srv fd) \<noteq> INFERENCE_PENDING"
    using fd not_awaits_session by blast
  consider s' where "srv1 = put_session fd s' srv" "reads_on (session_of srv fd) s'"
    | s' g t where "r = 1" "srv1 = put_session fd s' (srv\<lparr>trace_id_gen := g, srv_tasks := push_task (logged push) t (srv_tasks srv)\<rparr>)"
      "state s' = INFERENCE_PENDING" "client_fd t = fd"
    using client_data_effect [OF sok fd(1), of "logged push" net] h by auto
  then have "core contents inv work hand srv1 \<and> pollfds srv1 = pollfds srv \<and> sockfd srv1 = sockfd srv \<and>
      (x \<noteq> fd \<longrightarrow> awaits srv1 x = awaits srv x) \<and> (r \<le> 0 \<longrightarrow> \<not> awaits srv1 fd) \<and>
      set (outstanding contents hand srv1) \<subseteq> insert fd (set (outstanding contents hand srv)) \<and>
      set (outstanding contents hand srv) \<subseteq> set (outstanding contents hand srv1) \<and>
      (accepts (fst (srv_tasks srv)) \<longrightarrow> awaits srv1 fd \<longrightarrow> fd \<in> set (outstanding contents hand srv1))"
  proof cases
    case 1
    have "core contents inv work hand (put_session fd s' srv)"
      using 1 ok1 nw by (intro core_put [OF c fd]) (auto simp: reads_on_def)
    moreover have "state s' \<noteq> INFERENCE_PENDING"
      using 1(2) nw by (auto simp: reads_on_def)
    ultimately show ?thesis
      by (auto simp: 1(1) awaits_put outstanding_def)
  next
    case 2
    obtain q h where qh: "srv_tasks srv = (q, h)" and q: "inv q"
      using c by (cases "srv_tasks srv") (simp add: core_def)
    obtain q' xs where "push_task (logged push) t (q, h) = (q', h @ [t])" "contents q' = contents q @ xs" "xs = [t] \<or> xs = []"
        "accepts q \<Longrightarrow> xs = [t]"
      using push_logged [OF q, of t h thesis] by blast
    then have "set (outstanding contents hand srv1) \<subseteq> insert fd (set (outstanding contents hand srv))"
        "set (outstanding contents hand srv) \<subseteq> set (outstanding contents hand srv1)"
        "accepts (fst (srv_tasks srv)) \<Longrightarrow> fd \<in> set (outstanding contents hand srv1)"
      using 2(2,4) qh by (auto simp: outstanding_def)
    then show ?thesis
      using 2 core_push [OF c fd _ 2(3,4), of g] ok1 by (simp add: awaits_def)
  qed
  then show "core contents inv work hand srv1" "pollfds srv1 = pollfds srv" "sockfd srv1 = sockfd srv"
    "x \<noteq> fd \<Longrightarrow> awaits srv1 x = awaits srv x" "r \<le> 0 \<Longrightarrow> \<not> awaits srv1 fd"
    "set (outstanding contents hand srv1) \<subseteq> insert fd (set (outstanding contents hand srv))"
    "set (outstanding contents hand srv) \<subseteq> set (outstanding contents hand srv1)"
    "accepts (fst (srv_tasks srv)) \<Longrightarrow> awaits srv1 fd \<Longrightarrow> fd \<in> set (outstanding contents hand srv1)"
    by auto
qed

lemma core_sends:
  assumes c: "core contents inv work hand srv" and net: "net_ok net"
    and fd: "fd \<in> dom (sessions srv)" "\<not> awaits srv fd"
    and h: "send_response net fd srv = (fails, srv1)"
  shows "core contents inv work hand srv1" "pollfds srv1 = pollfds srv" "sockfd srv1 = sockfd srv"
    "x \<noteq> fd \<Longrightarrow> awaits srv1 x = awaits srv x" "\<not> awaits srv1 fd"
    "outstanding contents hand srv1 = outstanding contents hand srv"
proof -
  have ok: "server_ok srv"
    using c by (simp add: core_def)
  have "server_ok srv1"
    using server_ok_send [OF ok net, of fd] h by simp
  then have ok1: "session_ok (session_of srv1 fd)"
    by (rule server_ok_session)
  have nw: "state (session_of srv fd) \<noteq> INFERENCE_PENDING"
    using fd not_awaits_session by blast
  obtain s' w where s': "srv1 = put_session fd s' (srv\<lparr>wire := w\<rparr>)" "sends_on (session_of srv fd) s'"
    using send_effect [OF server_ok_session [OF ok] net, of fd] h by auto
  then have "state s' \<noteq> INFERENCE_PENDING"
    using nw by (auto simp: sends_on_def)
  then show "pollfds srv1 = pollfds srv" "sockfd srv1 = sockfd srv"
      "x \<noteq> fd \<Longrightarrow> awaits srv1 x = awaits srv x" "\<not> awaits srv1 fd"
      "outstanding contents hand srv1 = outstanding contents hand srv"
    by (simp_all add: s'(1) awaits_put outstanding_def)
  have "core contents inv work hand (srv\<lparr>wire := w\<rparr>)"
    using c by (simp add: core_wire)
  then show "core contents inv work hand srv1"
    unfolding s'(1) using s' ok1 nw fd
    by (intro core_put) (auto simp: sends_on_def)
qed

text \<open>
  What serving an entry can be: a new connection, an event of a connection, which then may be
  closed, or nothing. Receiving and sending need not be told apart any more.
\<close>

lemma serve_cases:
  assumes c: "core contents inv work hand srv" and ph: "phase_ok (Serving i (Suc n)) srv" and net: "net_ok net"
    and e: "service_entry (logged push) net i srv = (gone, srv1)"
  obtains (accept) "pfd_fd (pollfds srv ! i) = sockfd srv" "\<not> gone" "srv1 = handle_new_connection net srv"
  | (handled) fd srv2 where "fd = pfd_fd (pollfds srv ! i)" "fd \<noteq> sockfd srv" "fd \<in> dom (sessions srv)" "\<not> awaits srv fd"
      "core contents inv work hand srv2" "pollfds srv2 = pollfds srv" "sockfd srv2 = sockfd srv"
      "\<And>x. x \<noteq> fd \<Longrightarrow> awaits srv2 x = awaits srv x" "gone \<Longrightarrow> \<not> awaits srv2 fd"
      "set (outstanding contents hand srv2) \<subseteq> insert fd (set (outstanding contents hand srv))"
      "set (outstanding contents hand srv) \<subseteq> set (outstanding contents hand srv2)"
      "accepts (fst (srv_tasks srv)) \<Longrightarrow> awaits srv2 fd \<Longrightarrow> fd \<in> set (outstanding contents hand srv2)"
      "srv1 = (if gone then close_connection fd i srv2 else srv2)"
  | (idle) "\<not> gone" "srv1 = srv"
proof -
  have ps: "pollset_ok srv"
    using c by (simp add: core_def)
  have i: "i < length (pollfds srv)" "\<forall>p \<in> set (drop i (pollfds srv)). calm srv p"
    using ph by (simp_all add: phase_ok_def)
  then have "calm srv (pollfds srv ! i)"
    by (metis Cons_nth_drop_Suc list.set_intros(1))
  then show thesis
  proof (cases rule: service_entry_calm_cases [where psh = "logged push" and net = net])
    case 1
    then show thesis
      using e by (intro accept) auto
  next
    case (2 fd r srv2)
    have dom: "fd \<in> dom (sessions srv)"
      using entry_session(2) [OF ps i(1)] 2(1,2) by simp
    note rd = core_reads [OF c net dom 2(3,4)]
    show thesis
      by (rule handled [OF 2(1,2) dom 2(3) rd(1-3)]) (use rd(2,4-8) e 2(1,5) in \<open>auto split: if_splits\<close>)
  next
    case (3 fd fails srv2)
    have dom: "fd \<in> dom (sessions srv)"
      using entry_session(2) [OF ps i(1)] 3(1,2) by simp
    note sd = core_sends [OF c net dom 3(3,4)]
    show thesis
      by (rule handled [OF 3(1,2) dom 3(3) sd(1-3)]) (use sd(4-6) e 3(5) in \<open>auto split: if_splits\<close>)
  next
    case 4
    then show thesis
      using e by (intro idle) auto
  qed
qed

lemma serve_keeps:
  assumes c: "core contents inv work hand srv" and ph: "phase_ok (Serving i (Suc n)) srv"
    and net: "net_ok net" "pfd_fd (pollfds srv ! i) = sockfd srv \<longrightarrow> accept_contract net (pollfds srv)"
    and e: "service_entry (logged push) net i srv = (gone, srv1)"
  shows "core contents inv work hand srv1 \<and> phase_ok (Serving (if gone then i else Suc i) n) srv1"
proof -
  have ps: "pollset_ok srv" and i: "i < length (pollfds srv)"
    using c ph by (simp_all add: core_def phase_ok_def)
  from c ph net(1) e show ?thesis
  proof (cases rule: serve_cases)
    case accept
    then show ?thesis
      using core_new_connection [OF c, of net] phase_after_accept [OF ps ph, of net] net(2) by auto
  next
    case (handled fd srv2)
    have "pollset_ok srv2"
      using handled(5) by (simp add: core_def)
    note after = phase_after_entry [OF ps ph handled(1,6,7) this handled(8)]
    show ?thesis
      using after handled(2,5,13) core_close [OF handled(5), of i fd] handled(1,6,7,9) i by (cases gone) auto
  next
    case idle
    then show ?thesis
      using c phase_after_entry(1) [OF ps ph refl refl refl ps] by auto
  qed
qed

end


lemma poll_mask_out: "(r :: poll_mask) AND (POLLIN OR POLLOUT) AND NOT POLLIN = 0 \<Longrightarrow> r AND POLLOUT = 0"
  by (simp add: POLLIN_def POLLOUT_def)

lemma poll_mask_none:
  assumes "(r :: poll_mask) AND (POLLIN OR POLLOUT) AND NOT 0 = 0"
  shows "r AND POLLIN = 0" "r AND POLLOUT = 0"
proof -
  have r: "r AND (POLLIN OR POLLOUT) = 0"
    using assms by simp
  have "(r AND (POLLIN OR POLLOUT)) AND POLLIN = r AND POLLIN" "(r AND (POLLIN OR POLLOUT)) AND POLLOUT = r AND POLLOUT"
    by (simp_all add: POLLIN_def POLLOUT_def and.assoc)
  then show "r AND POLLIN = 0" "r AND POLLOUT = 0"
    by (simp_all add: r)
qed

lemma phase_after_events:
  assumes "pollset_ok srv" "pollfds srv = p # ps"
  shows "phase_ok Polling (srv\<lparr>pollfds := p # map (with_events srv) ps\<rparr>)"
  by (auto simp: phase_ok_def with_events_def session_of_def)

lemma phase_after_poll:
  assumes ok: "pollset_ok srv" and ph: "phase_ok Polling srv" and po: "poll_contract net (pollfds srv)"
  shows "phase_ok (Serving 0 (length (pollfds srv))) (do_poll net srv)"
proof -
  obtain p ps where p: "pollfds srv = p # ps" "pfd_fd p = sockfd srv" "pfd_events p = POLLIN"
      "distinct (map pfd_fd (p # ps))" "dom (sessions srv) = pfd_fd ` set ps"
    using ok by (elim pollset_okE)
  have aw: "awaits (do_poll net srv) = awaits srv"
    by (rule awaits_cong) (simp add: do_poll_def)
  have sock: "sockfd (do_poll net srv) = sockfd srv"
    by (simp add: do_poll_def)
  have "calm (do_poll net srv) (q\<lparr>pfd_revents := poll_revents net (pfd_fd q)\<rparr>)" if q: "q \<in> set (p # ps)" for q
  proof (cases "q = p")
    case True
    have "\<not> awaits srv (pfd_fd p)"
      using p(4,5) by (auto simp: awaits_def)
    moreover have "poll_revents net (pfd_fd p) AND POLLOUT = 0"
      using po p(1,3) by (intro poll_mask_out) (simp add: poll_contract_def)
    ultimately show ?thesis
      using True p(2) sock by (simp add: calm_def aw)
  next
    case False
    then have "q \<in> set ps"
      using q by simp
    then have "pfd_fd q \<noteq> sockfd srv" "pfd_events q = wanted_events (state (session_of srv (pfd_fd q)))"
      using p(1,2,4) ph by (simp_all add: phase_ok_def) (metis image_eqI)
    moreover have "poll_revents net (pfd_fd q) AND (POLLIN OR POLLOUT) AND NOT (pfd_events q) = 0"
      using po \<open>q \<in> set ps\<close> p(1) by (simp add: poll_contract_def)
    moreover have "pfd_events q = 0" if "awaits srv (pfd_fd q)"
      using that calculation(2) by (auto simp: awaits_def session_of_def wanted_events_def)
    ultimately show ?thesis
      using poll_mask_none [of "poll_revents net (pfd_fd q)"] sock by (auto simp: calm_def aw)
  qed
  then show ?thesis
    using p(1) by (auto simp: phase_ok_def do_poll_def)
qed

lemma phase_ok_cong:
  "pollfds srv' = pollfds srv \<Longrightarrow> sessions srv' = sessions srv \<Longrightarrow> sockfd srv' = sockfd srv \<Longrightarrow>
     phase_ok ph srv \<Longrightarrow> phase_ok ph srv'"
  using awaits_cong [of srv' srv]
  by (auto simp: phase_ok_def calm_def session_of_def split: server_phase.splits)

context lumen_service
begin

text \<open>Setting the events and polling touch the poll set only.\<close>

lemma core_update_events:
  assumes c: "core contents inv work hand srv"
  shows "core contents inv work hand (update_events 1 (length (pollfds srv) - 1) srv) \<and>
    phase_ok Polling (update_events 1 (length (pollfds srv) - 1) srv)"
proof -
  have ps: "pollset_ok srv"
    using c by (simp add: core_def)
  then obtain p ps' where p: "pollfds srv = p # ps'"
    by (elim pollset_okE)
  have "core contents inv work hand (srv\<lparr>pollfds := p # map (with_events srv) ps'\<rparr>)"
    by (rule core_cong [OF c]) (simp_all add: pollset_ok_events [OF ps p])
  then show ?thesis
    using update_all_events [OF ps p] phase_after_events [OF ps p] by simp
qed

lemma core_poll:
  assumes c: "core contents inv work hand srv" and "phase_ok Polling srv" "poll_contract net (pollfds srv)"
  shows "core contents inv work hand (do_poll net srv) \<and> phase_ok (Serving 0 (length (pollfds srv))) (do_poll net srv)"
proof -
  have ps: "pollset_ok srv"
    using c by (simp add: core_def)
  have "core contents inv work hand (do_poll net srv)"
    by (rule core_cong [OF c]) (simp_all add: pollset_ok_poll [OF ps], simp_all add: do_poll_def)
  then show ?thesis
    using phase_after_poll [OF ps assms(2,3)] by simp
qed

lemma step_keeps:
  assumes "system_step push pop_batch work \<sigma> \<sigma>'" "system_inv contents inv work \<sigma>"
  shows "system_inv contents inv work \<sigma>'"
  using assms
proof (induction rule: system_step.induct)
  case (respond \<sigma> r q t)
  then obtain rs where "rq_data (srv_results (server \<sigma>)) = r # rs" "q = (srv_results (server \<sigma>))\<lparr>rq_data := rs\<rparr>"
    by (auto simp: rq_pop_immediate_def split: list.splits)
  then show ?case
    using respond core_deliver by (auto simp: system_inv_def phase_ok_def)
next
  case (drained \<sigma> q srv1)
  then have srv1: "srv1 = server \<sigma>"
    by (auto simp: rq_pop_immediate_def split: list.splits)
  have "core contents inv work (in_hand \<sigma>) (server \<sigma>)"
    using drained by (simp add: system_inv_def)
  from core_update_events [OF this] show ?case
    by (simp add: srv1 system_inv_def)
next
  case (poll_idle \<sigma> net)
  then show ?case
    by (simp add: system_inv_def phase_ok_def)
next
  case (poll_ready \<sigma> net)
  then have "core contents inv work (in_hand \<sigma>) (server \<sigma>)" "phase_ok Polling (server \<sigma>)"
    by (simp_all add: system_inv_def)
  from core_poll [OF this poll_ready(3)] show ?case
    by (simp add: system_inv_def)
next
  case (serve \<sigma> i n net gone srv1)
  then have "core contents inv work (in_hand \<sigma>) (server \<sigma>)" "phase_ok (Serving i (Suc n)) (server \<sigma>)"
    by (simp_all add: system_inv_def)
  from serve_keeps [OF this serve(2,3,4)] show ?case
    by (simp add: system_inv_def)
next
  case (served \<sigma> i)
  then show ?case
    by (simp add: system_inv_def phase_ok_def)
next
  case (worker_takes \<sigma> q h m k ts q')
  then show ?case
    using core_takes [OF _ worker_takes(1,2)] phase_ok_cong [of "(server \<sigma>)\<lparr>srv_tasks := (q', h)\<rparr>" "server \<sigma>"]
    by (simp add: system_inv_def)
next
  case (worker_answers \<sigma> xs t ys r)
  then show ?case
    using core_answers [of xs t ys "server \<sigma>" r]
      phase_ok_cong [of "(server \<sigma>)\<lparr>srv_results := rq_push r (srv_results (server \<sigma>))\<rparr>" "server \<sigma>"]
    by (simp add: system_inv_def)
qed

lemma steps_keep:
  "(system_step push pop_batch work)\<^sup>*\<^sup>* \<sigma> \<sigma>' \<Longrightarrow> system_inv contents inv work \<sigma> \<Longrightarrow> system_inv contents inv work \<sigma>'"
  by (induction rule: rtranclp_induct) (auto intro: step_keeps)

lemma init_inv:
  assumes "server_new addrs listens stale (q, []) rq_new pr po = (cl, Inr srv)" "inv q" "contents q = []"
  shows "system_inv contents inv work \<lparr>server = srv, at_phase = Draining, in_hand = []\<rparr>"
  using assms
  by (auto simp: server_new_def system_inv_def phase_ok_def core_def server_ok_def pollset_ok_def outstanding_def rq_new_def
      split: option.splits prod.splits if_splits)

text \<open>There are never more requests under way than connections.\<close>

lemma outstanding_bound:
  assumes "system_inv contents inv work \<sigma>"
  shows "length (contents (fst (srv_tasks (server \<sigma>)))) + length (in_hand \<sigma>) + length (rq_data (srv_results (server \<sigma>)))
    \<le> card (dom (sessions (server \<sigma>)))"
proof -
  let ?out = "outstanding contents (in_hand \<sigma>) (server \<sigma>)"
  have d: "distinct ?out" and aw: "\<forall>fd \<in> set ?out. awaits (server \<sigma>) fd" and ps: "pollset_ok (server \<sigma>)"
    using assms by (simp_all add: system_inv_def core_def)
  have "finite (dom (sessions (server \<sigma>)))"
    using ps by (elim pollset_okE) simp
  moreover have "set ?out \<subseteq> dom (sessions (server \<sigma>))"
    using aw by (auto simp: awaits_def)
  ultimately have "card (set ?out) \<le> card (dom (sessions (server \<sigma>)))"
    by (rule card_mono)
  then show ?thesis
    using distinct_card [OF d] by (simp add: outstanding_def)
qed

end

end
