(* ===== verification/Server_Progress.thy ===== *)
theory Server_Progress
  imports Server_System
begin

unbundle bit_operations_syntax

section \<open>What becomes of a request\<close>

text \<open>
  Over the invariant of \<^verbatim>\<open>Server_System\<close>: a connection that waits while nothing is under way for
  it stays so for ever; with a queue that has room for one request of each connection no
  connection gets there; and one iteration of the event loop, with no worker in between, is a
  run of the system.
\<close>

subsection \<open>A connection that is forgotten\<close>

text \<open>A connection that waits with nothing under way.\<close>

definition forgotten :: "('q \<Rightarrow> InferenceTask list) \<Rightarrow> int \<Rightarrow> 'q lumen_system \<Rightarrow> bool" where
  "forgotten cont fd \<sigma> \<longleftrightarrow>
     awaits (server \<sigma>) fd \<and> fd \<notin> set (outstanding cont (in_hand \<sigma>) (server \<sigma>))"


context lumen_service
begin

text \<open>Serving an entry neither wakes nor closes another connection, nor adds a request for it.\<close>

lemma closed_others:
  "x \<noteq> fd \<Longrightarrow> awaits (close_connection x i srv) fd = awaits srv fd"
  "\<not> awaits (close_connection x i srv) x"
  "outstanding cont hand (close_connection x i srv) = outstanding cont hand srv"
  by (simp_all add: awaits_def outstanding_def close_connection_def)

lemma serve_others:
  assumes c: "core contents inv work hand srv" and ph: "phase_ok (Serving i (Suc n)) srv"
    and net: "net_ok net" "pfd_fd (pollfds srv ! i) = sockfd srv \<longrightarrow> accept_contract net (pollfds srv)"
    and e: "service_entry (logged push) net i srv = (gone, srv1)"
    and fd: "awaits srv fd" "fd \<notin> set (outstanding contents hand srv)"
  shows "awaits srv1 fd \<and> fd \<notin> set (outstanding contents hand srv1)"
  using c ph net(1) e
proof (cases rule: serve_cases)
  case accept
  have "fd \<in> dom (sessions srv)"
    using fd(1) by (auto simp: awaits_def)
  moreover have "pollset_ok srv"
    using c by (simp add: core_def)
  then obtain p qs where "pollfds srv = p # qs" "dom (sessions srv) = pfd_fd ` set qs"
    by (elim pollset_okE)
  ultimately have "accept_ret net = -1 \<or> accept_ret net \<noteq> fd"
    using net(2) accept(1) by (auto simp: accept_contract_def)
  then show ?thesis
    using fd accept(3) by (auto simp: handle_new_connection_def Let_def awaits_def outstanding_def)
next
  case (handled x srv2)
  then have "x \<noteq> fd"
    using fd(1) by auto
  then have "awaits srv2 fd \<and> fd \<notin> set (outstanding contents hand srv2)"
    using handled(8,10) fd by auto
  then show ?thesis
    using handled(13) \<open>x \<noteq> fd\<close> by (auto simp: closed_others)
qed (use fd in auto)

text \<open>Only serving an entry can forget a connection or take note of one.\<close>

lemma forgotten_unchanged:
  assumes "system_step push pop_batch work \<sigma> \<sigma>'" "system_inv contents inv work \<sigma>"
  shows "(\<forall>fd. forgotten contents fd \<sigma>' = forgotten contents fd \<sigma>) \<or>
    (\<exists>i n net gone. at_phase \<sigma> = Serving i (Suc n) \<and> net_ok net \<and>
       (pfd_fd (pollfds (server \<sigma>) ! i) = sockfd (server \<sigma>) \<longrightarrow> accept_contract net (pollfds (server \<sigma>))) \<and>
       service_entry (logged push) net i (server \<sigma>) = (gone, server \<sigma>') \<and> in_hand \<sigma>' = in_hand \<sigma>)"
  using assms
proof (induction rule: system_step.induct)
  case (respond \<sigma> r q t)
  then obtain rs where "rq_data (srv_results (server \<sigma>)) = r # rs" "q = (srv_results (server \<sigma>))\<lparr>rq_data := rs\<rparr>"
    by (auto simp: rq_pop_immediate_def split: list.splits)
  then show ?case
    by (intro disjI1 allI)
      (auto simp: forgotten_def outstanding_def awaits_def deliver_def Let_def split: option.splits if_splits)
next
  case (drained \<sigma> q srv1)
  then have srv1: "srv1 = server \<sigma>"
    by (auto simp: rq_pop_immediate_def split: list.splits)
  have ps: "pollset_ok srv1"
    using drained(4) srv1 by (simp add: system_inv_def core_def)
  then obtain p ps where p: "pollfds srv1 = p # ps"
    by (elim pollset_okE)
  show ?case
    using srv1 update_all_events [OF ps p] by (simp add: forgotten_def outstanding_def awaits_def)
next
  case (serve \<sigma> i n net gone srv1)
  then show ?case
    by (intro disjI2 exI [of _ i] exI [of _ n] exI [of _ net] exI [of _ gone]) simp
next
  case (worker_takes \<sigma> q h m k ts q')
  then have "inv q"
    by (simp add: system_inv_def core_def)
  then show ?case
    using pop_batch_returns(2) [OF _ worker_takes(2)] worker_takes(1)
    by (intro disjI1 allI) (auto simp: forgotten_def outstanding_def awaits_def)
next
  case (worker_answers \<sigma> xs t ys r)
  then show ?case
    using work_client [OF worker_answers(2)]
    by (intro disjI1 allI) (auto simp: forgotten_def outstanding_def awaits_def rq_push_def)
qed (simp_all add: forgotten_def outstanding_def awaits_def do_poll_def)

lemma forgotten_step:
  assumes step: "system_step push pop_batch work \<sigma> \<sigma>'" "system_inv contents inv work \<sigma>" and fd: "forgotten contents fd \<sigma>"
  shows "forgotten contents fd \<sigma>'"
  using forgotten_unchanged [OF step]
proof (elim disjE exE conjE)
  fix i n net gone
  assume ph: "at_phase \<sigma> = Serving i (Suc n)" and net: "net_ok net"
    "pfd_fd (pollfds (server \<sigma>) ! i) = sockfd (server \<sigma>) \<longrightarrow> accept_contract net (pollfds (server \<sigma>))"
    and e: "service_entry (logged push) net i (server \<sigma>) = (gone, server \<sigma>')" and hand: "in_hand \<sigma>' = in_hand \<sigma>"
  have "core contents inv work (in_hand \<sigma>) (server \<sigma>)" "phase_ok (Serving i (Suc n)) (server \<sigma>)"
    using step(2) ph by (simp_all add: system_inv_def)
  from serve_others [OF this net e] show ?thesis
    using fd hand by (simp add: forgotten_def)
qed (use fd in simp)

lemma forgotten_steps:
  assumes "(system_step push pop_batch work)\<^sup>*\<^sup>* \<sigma> \<sigma>'" "system_inv contents inv work \<sigma>" "forgotten contents fd \<sigma>"
  shows "forgotten contents fd \<sigma>'"
  using assms(1)
proof (induction rule: rtranclp_induct)
  case (step \<tau> \<upsilon>)
  then show ?case
    using forgotten_step steps_keep [OF step(1) assms(2)] by blast
qed (rule assms(3))

text \<open>
  The last bytes of a request arrive while the queue refuses a push: the entry is served without
  a close, and its connection is forgotten.
\<close>

lemma refused_push: "inv q \<Longrightarrow> \<not> accepts q \<Longrightarrow> push_task (logged push) t (q, h) = (q, h @ [t])"
  by (simp add: push_task_def logged_def push_refused)

lemma refused_is_forgotten:
  assumes inv: "system_inv contents inv work \<sigma>"
    and s: "fd = pfd_fd (pollfds (server \<sigma>) ! i)" "sessions (server \<sigma>) fd = Some s" "state s = BODY_PENDING" "body_buffer s \<noteq> []"
    and readable: "pfd_revents (pollfds (server \<sigma>) ! i) AND POLLIN \<noteq> 0"
    and rest: "recv_ret net fd (wanted s) = Received d" "length d = wanted s"
    and refused: "\<not> accepts (fst (srv_tasks (server \<sigma>)))"
    and e: "service_entry (logged push) net i (server \<sigma>) = (gone, srv1)"
  shows "\<not> gone \<and> fd \<noteq> sockfd (server \<sigma>) \<and> forgotten contents fd (\<sigma>\<lparr>server := srv1, at_phase := ph\<rparr>)"
proof -
  let ?srv = "server \<sigma>"
  have c: "server_ok ?srv" "pollset_ok ?srv" "inv (fst (srv_tasks ?srv))" "\<forall>x \<in> set (outstanding contents (in_hand \<sigma>) ?srv). awaits ?srv x"
    using inv by (simp_all add: system_inv_def core_def)
  have fd: "fd \<noteq> sockfd ?srv"
    using c(2) s(2) by (elim pollset_okE) (metis domI imageE distinct.simps(2) list.simps(9) list.set_map image_eqI)
  have ss: "session_of ?srv fd = s"
    using s(2) by (simp add: session_of_def)
  have sok: "session_ok s"
    using server_ok_session [OF c(1), of fd] ss by simp
  have full: "bytes_received (body_step d s) = ucast (expected_size (body_step d s))"
  proof -
    have le: "length d \<le> unat (ucast (expected_size s) - bytes_received s)"
      using rest(2) s(3) by (simp add: wanted_def)
    have "unat (bytes_received s) < unat (expected_size s)"
      using sok s(3,4) by (auto simp: session_ok_def)
    then have "unat (ucast (expected_size s) - bytes_received s) = unat (expected_size s) - unat (bytes_received s)"
      by (subst unat_diff_size_t) simp_all
    then show ?thesis
      using body_count(1) [OF sok s(3,4) le] rest(2) s(3) \<open>unat (bytes_received s) < _\<close>
      by (simp add: body_step_def eq_ucast_iff wanted_def)
  qed
  obtain r srv2 where h: "handle_client_data (logged push) net fd ?srv = (r, srv2)"
    by fastforce
  have "srv2 = snd (handle_client_data (logged push) net fd ?srv)"
    by (simp add: h)
  also obtain t where "\<dots> = put_session fd ((body_step d s)\<lparr>body_buffer := [], state := INFERENCE_PENDING\<rparr>)
      (?srv\<lparr>trace_id_gen := trace_id_gen ?srv + 1, srv_tasks := push_task (logged push) t (srv_tasks ?srv)\<rparr>)"
    using client_data_body [of ?srv fd net d "logged push"] s(3,4) rest(1) full unfolding ss by (simp add: Let_def)
  finally have srv2: "awaits srv2 fd" "fst (srv_tasks srv2) = fst (srv_tasks ?srv)" "srv_results srv2 = srv_results ?srv"
    using refused_push [OF c(3) refused, of t "snd (srv_tasks ?srv)"] by (simp_all add: awaits_put)
  have "r = 1"
    using h s(3,4) rest(1) full ss
    by (simp add: handle_client_data_def process_body_def finalize_request_def Let_def wanted_def body_step_def)
  then have "gone = False" "srv1 = srv2"
    using e h fd readable s(1) by (simp_all add: service_entry_def Let_def)
  moreover have "fd \<notin> set (outstanding contents (in_hand \<sigma>) ?srv)"
    using c(4) s(2,3) by (auto simp: awaits_def)
  ultimately show ?thesis
    using fd srv2 by (simp add: forgotten_def outstanding_def)
qed

end



subsection \<open>An iteration of the event loop is a run of the system\<close>

lemma same_server: "server \<sigma> = srv \<Longrightarrow> \<sigma>\<lparr>server := srv\<rparr> = \<sigma>"
  by (cases \<sigma>) simp

lemma same_phase: "at_phase \<sigma> = ph \<Longrightarrow> \<sigma>\<lparr>server := srv, at_phase := ph\<rparr> = \<sigma>\<lparr>server := srv\<rparr>"
  by (cases \<sigma>) simp

lemma listener_first:
  assumes "pollset_ok srv" "i < length (pollfds srv)"
  shows "pfd_fd (pollfds srv ! i) = sockfd srv \<longleftrightarrow> i = 0"
proof -
  obtain p ps where p: "pollfds srv = p # ps" "pfd_fd p = sockfd srv" "distinct (map pfd_fd (p # ps))"
    using assms(1) by (elim pollset_okE)
  then show ?thesis
    using assms(2) by (cases i) (simp_all, metis image_eqI nth_mem)
qed

context lumen_service
begin

lemma respond_steps:
  "at_phase \<sigma> = Draining \<Longrightarrow> server \<sigma> = srv \<Longrightarrow>
     (system_step push pop_batch work)\<^sup>*\<^sup>* \<sigma> (\<sigma>\<lparr>server := handle_responses net srv\<rparr>)"
proof (induction "rq_data (srv_results srv)" arbitrary: srv \<sigma>)
  case Nil
  then have "handle_responses net srv = srv"
    by (simp add: handle_responses_empty)
  then show ?case
    using Nil by (simp add: same_server)
next
  case (Cons r rs)
  let ?q = "(srv_results srv)\<lparr>rq_data := rs\<rparr>"
  let ?srv = "deliver (now net) r (srv\<lparr>srv_results := ?q\<rparr>)"
  have r: "rq_pop_immediate (srv_results (server \<sigma>)) = (Some r, ?q)"
    using Cons(2,4) by (simp add: rq_pop_immediate_def flip: Cons(2) split: list.splits)
  have "system_step push pop_batch work \<sigma> (\<sigma>\<lparr>server := ?srv\<rparr>)"
    using system_step.respond [OF Cons(3) r, of push pop_batch work "now net"] Cons(4) by simp
  moreover have "(system_step push pop_batch work)\<^sup>*\<^sup>* (\<sigma>\<lparr>server := ?srv\<rparr>)
      (\<sigma>\<lparr>server := ?srv\<rparr>\<lparr>server := handle_responses net ?srv\<rparr>)"
    using Cons(3) by (intro Cons(1)) simp_all
  ultimately show ?case
    using handle_responses_Cons [OF Cons(2) [symmetric], of net] by (simp add: converse_rtranclp_into_rtranclp)
qed

lemma service_steps:
  assumes net: "net_ok net"
  shows "system_inv contents inv work \<sigma> \<Longrightarrow> at_phase \<sigma> = Serving i n \<Longrightarrow>
    (i = 0 \<longrightarrow> accept_contract net (pollfds (server \<sigma>))) \<Longrightarrow>
    (system_step push pop_batch work)\<^sup>*\<^sup>* \<sigma>
      (\<sigma>\<lparr>server := service_loop (logged push) net i n (server \<sigma>), at_phase := Draining\<rparr>)"
proof (induction n arbitrary: i \<sigma>)
  case 0
  then show ?case
    using system_step.served [of \<sigma> i push pop_batch work] by auto
next
  case (Suc n)
  obtain gone srv1 where e: "service_entry (logged push) net i (server \<sigma>) = (gone, srv1)"
    by fastforce
  let ?\<sigma> = "\<sigma>\<lparr>server := srv1, at_phase := Serving (if gone then i else Suc i) n\<rparr>"
  have ps: "pollset_ok (server \<sigma>)" and i: "i < length (pollfds (server \<sigma>))" "calm (server \<sigma>) (pollfds (server \<sigma>) ! i)"
    using Suc.prems(1,2) by (auto simp: system_inv_def core_def phase_ok_def)
      (metis Cons_nth_drop_Suc Suc_le_lessD list.set_intros(1) add_leD1 add_Suc)
  have acc: "pfd_fd (pollfds (server \<sigma>) ! i) = sockfd (server \<sigma>) \<longrightarrow> accept_contract net (pollfds (server \<sigma>))"
  proof
    assume "pfd_fd (pollfds (server \<sigma>) ! i) = sockfd (server \<sigma>)"
    then have "i = 0"
      using listener_first [OF ps i(1)] by blast
    then show "accept_contract net (pollfds (server \<sigma>))"
      using Suc.prems(3) by simp
  qed
  have step: "system_step push pop_batch work \<sigma> ?\<sigma>"
    by (rule system_step.serve [OF Suc.prems(2) net acc e])
  have "\<not> (gone \<and> i = 0)"
    using i(2) listener_first [OF ps i(1)] e
    by (cases rule: service_entry_calm_cases [where psh = "logged push" and net = net]) auto
  then have "(system_step push pop_batch work)\<^sup>*\<^sup>* ?\<sigma>
      (?\<sigma>\<lparr>server := service_loop (logged push) net (if gone then i else Suc i) n (server ?\<sigma>), at_phase := Draining\<rparr>)"
    by (intro Suc.IH step_keeps [OF step Suc.prems(1)]) auto
  then show ?case
    using step e by (simp add: converse_rtranclp_into_rtranclp)
qed

lemma fds_of_iteration:
  "pollset_ok srv \<Longrightarrow> pfd_fd ` set (pollfds (do_poll net (update_events 1 (length (pollfds srv) - 1) srv))) = pfd_fd ` set (pollfds srv)"
proof -
  assume ok: "pollset_ok srv"
  then obtain p ps where p: "pollfds srv = p # ps"
    by (elim pollset_okE)
  show ?thesis
    using update_all_events [OF ok p] p by (simp add: do_poll_def with_events_def image_image)
qed

lemma iteration_steps:
  assumes inv: "system_inv contents inv work \<sigma>" "at_phase \<sigma> = Draining" and net: "net_ok net"
    and acc: "accept_contract net (pollfds (handle_responses net (server \<sigma>)))"
    and po: "poll_contract net (pollfds (update_events 1 (length (pollfds (handle_responses net (server \<sigma>))) - 1)
      (handle_responses net (server \<sigma>))))"
  shows "(system_step push pop_batch work)\<^sup>*\<^sup>* \<sigma> (\<sigma>\<lparr>server := server_iteration (logged push) net (server \<sigma>)\<rparr>)"
proof -
  let ?R = "system_step push pop_batch work"
  define srv1 where "srv1 = handle_responses net (server \<sigma>)"
  define srv2 where "srv2 = update_events 1 (length (pollfds srv1) - 1) srv1"
  let ?\<sigma>1 = "\<sigma>\<lparr>server := srv1\<rparr>" and ?\<sigma>2 = "\<sigma>\<lparr>server := srv2, at_phase := Polling\<rparr>"
  have r1: "?R\<^sup>*\<^sup>* \<sigma> ?\<sigma>1"
    unfolding srv1_def by (rule respond_steps [OF inv(2) refl])
  have ps1: "pollset_ok srv1"
    using steps_keep [OF r1 inv(1)] by (simp add: system_inv_def core_def)
  have "rq_data (srv_results srv1) = []"
    unfolding srv1_def using handle_responses_invariant [of "\<lambda>_. True"] by simp
  then have pop: "rq_pop_immediate (srv_results srv1) = (None, srv_results srv1)"
    by (simp add: rq_pop_immediate_def)
  have "?R ?\<sigma>1 ?\<sigma>2"
    using system_step.drained [of ?\<sigma>1 "srv_results srv1" srv1 push pop_batch work] inv(2) pop by (simp add: srv2_def)
  then have r2: "?R\<^sup>*\<^sup>* \<sigma> ?\<sigma>2"
    using r1 by (rule rtranclp.rtrancl_into_rtrancl [rotated])
  show ?thesis
  proof (cases "poll_count net \<le> 0")
    case True
    have "?R ?\<sigma>2 (?\<sigma>2\<lparr>at_phase := Draining\<rparr>)"
      by (rule system_step.poll_idle [OF _ True]) simp
    then have "?R\<^sup>*\<^sup>* \<sigma> (?\<sigma>2\<lparr>at_phase := Draining\<rparr>)"
      by (rule rtranclp.rtrancl_into_rtrancl [OF r2])
    then show ?thesis
      using True inv(2) by (simp add: server_iteration_def Let_def srv1_def srv2_def same_phase)
  next
    case False
    let ?\<sigma>3 = "\<sigma>\<lparr>server := do_poll net srv2, at_phase := Serving 0 (length (pollfds srv2))\<rparr>"
    have "?R ?\<sigma>2 ?\<sigma>3"
      using system_step.poll_ready [of ?\<sigma>2 net push pop_batch work] False po by (simp add: srv1_def srv2_def)
    then have r3: "?R\<^sup>*\<^sup>* \<sigma> ?\<sigma>3"
      by (rule rtranclp.rtrancl_into_rtrancl [OF r2])
    have "accept_contract net (pollfds (do_poll net srv2))"
      using acc fds_of_iteration [OF ps1, of net] by (simp add: accept_contract_def srv1_def srv2_def)
    then have "?R\<^sup>*\<^sup>* ?\<sigma>3 (?\<sigma>3\<lparr>server := service_loop (logged push) net 0 (length (pollfds srv2)) (server ?\<sigma>3), at_phase := Draining\<rparr>)"
      by (intro service_steps [OF net steps_keep [OF r3 inv(1)]]) simp_all
    with r3 have "?R\<^sup>*\<^sup>* \<sigma> (?\<sigma>3\<lparr>server := service_loop (logged push) net 0 (length (pollfds srv2)) (server ?\<sigma>3), at_phase := Draining\<rparr>)"
      by (rule rtranclp_trans)
    then show ?thesis
      using False inv(2) by (simp add: server_iteration_def Let_def srv1_def srv2_def do_poll_def same_phase)
  qed
qed

end



subsection \<open>A queue that has room forgets nobody\<close>

context lumen_service
begin

lemma idle_bound:
  assumes c: "core contents inv work hand srv" and fd: "fd \<in> dom (sessions srv)" "\<not> awaits srv fd"
  shows "length (contents (fst (srv_tasks srv))) < card (dom (sessions srv))"
proof -
  let ?out = "outstanding contents hand srv"
  have d: "distinct ?out" and aw: "\<forall>x \<in> set ?out. awaits srv x" and ps: "pollset_ok srv"
    using c by (simp_all add: core_def)
  have "finite (dom (sessions srv))"
    using ps by (elim pollset_okE) simp
  moreover have "set ?out \<subset> dom (sessions srv)"
    using aw fd by (auto simp: awaits_def)
  ultimately have "card (set ?out) < card (dom (sessions srv))"
    by (rule psubset_card_mono)
  then show ?thesis
    using distinct_card [OF d] by (simp add: outstanding_def)
qed

lemma serve_remembers:
  assumes c: "core contents inv work hand srv" and ph: "phase_ok (Serving i (Suc n)) srv" and net: "net_ok net"
    and e: "service_entry (logged push) net i srv = (gone, srv1)"
    and room: "length (contents (fst (srv_tasks srv))) < card (dom (sessions srv)) \<Longrightarrow> accepts (fst (srv_tasks srv))"
    and all: "\<And>x. awaits srv x \<Longrightarrow> x \<in> set (outstanding contents hand srv)"
    and fd: "awaits srv1 fd"
  shows "fd \<in> set (outstanding contents hand srv1)"
  using c ph net e
proof (cases rule: serve_cases)
  case accept
  then show ?thesis
    using fd all by (auto simp: handle_new_connection_def Let_def awaits_def outstanding_def new_session_def split: if_splits)
next
  case (handled x srv2)
  have "accepts (fst (srv_tasks srv))"
    by (rule room [OF idle_bound [OF c handled(3,4)]])
  then have "fd \<in> set (outstanding contents hand srv2)" if "awaits srv2 fd"
    using that handled(8,11,12) all by (cases "fd = x") auto
  then show ?thesis
    using handled(13) fd by (cases "fd = x") (auto simp: closed_others split: if_splits)
qed (use fd all in auto)

lemma remembered_step:
  assumes step: "system_step push pop_batch work \<sigma> \<sigma>'" "system_inv contents inv work \<sigma>"
    and room: "length (contents (fst (srv_tasks (server \<sigma>)))) < card (dom (sessions (server \<sigma>))) \<Longrightarrow>
           accepts (fst (srv_tasks (server \<sigma>)))"
    and all: "\<And>x. \<not> forgotten contents x \<sigma>"
  shows "\<not> forgotten contents fd \<sigma>'"
  using forgotten_unchanged [OF step]
proof (elim disjE exE conjE)
  fix i n net gone
  assume ph: "at_phase \<sigma> = Serving i (Suc n)" and net: "net_ok net"
    and e: "service_entry (logged push) net i (server \<sigma>) = (gone, server \<sigma>')" and hand: "in_hand \<sigma>' = in_hand \<sigma>"
  have "core contents inv work (in_hand \<sigma>) (server \<sigma>)" "phase_ok (Serving i (Suc n)) (server \<sigma>)"
    using step(2) ph by (simp_all add: system_inv_def)
  from serve_remembers [OF this net e room] show ?thesis
    using all hand by (simp add: forgotten_def)
qed (use all in simp)

lemma remembered_steps:
  assumes "(\<lambda>\<sigma> \<sigma>'. system_step push pop_batch work \<sigma> \<sigma>' \<and>
      (length (contents (fst (srv_tasks (server \<sigma>)))) < card (dom (sessions (server \<sigma>))) \<longrightarrow>
         accepts (fst (srv_tasks (server \<sigma>)))))\<^sup>*\<^sup>* \<sigma> \<sigma>'"
    and inv: "system_inv contents inv work \<sigma>" and all: "\<And>x. \<not> forgotten contents x \<sigma>"
  shows "\<not> forgotten contents fd \<sigma>'"
proof -
  have "system_inv contents inv work \<sigma>' \<and> (\<forall>x. \<not> forgotten contents x \<sigma>')"
    using assms(1)
  proof (induction rule: rtranclp_induct)
    case (step \<tau> \<upsilon>)
    then show ?case
      using step_keeps remembered_step by blast
  qed (use inv all in blast)
  then show ?thesis
    by blast
qed

end

end
