(* ===== verification/Service.thy ===== *)
theory Service
  imports Server_Progress
begin

unbundle bit_operations_syntax

section \<open>The service as a client sees it\<close>

text \<open>
  The system of server and workers on the three task queues: the interpretations of
  \<open>lumen_service\<close>, with the workers' answers given by the inference engine of a pod, and the
  properties a client relies on. An executable scheduler gives concrete runs.
\<close>

subsection \<open>The answers of the pods\<close>

text \<open>A result that some pod with the given runtime gives for a task, at some time.\<close>

definition pod_answers :: "'h pod_env \<Rightarrow> InferenceTask \<Rightarrow> InferenceResult \<Rightarrow> bool" where
  "pod_answers env t r \<longleftrightarrow>
     (\<exists>now clk pod. fst (pod_run env clk (stamp_wait now t) pod) = Finished r) \<and>
     length (response r) < 18446744073709551616"

lemma pod_answers_client: "pod_answers env t r \<Longrightarrow> res_client_fd r = client_fd t"
proof -
  assume "pod_answers env t r"
  then obtain now clk pod where "fst (pod_run env clk (stamp_wait now t) pod) = Finished r"
    by (auto simp: pod_answers_def)
  then obtain pa where "pod_run env clk (stamp_wait now t) pod = (Finished r, pa)"
    by (metis prod.collapse)
  then have "answers r (stamp_wait now t)"
    unfolding pod_run_def by (rule engine_run_answers_task)
  then show ?thesis
    by (simp add: answers_def stamp_wait_def)
qed

lemma pod_answers_length: "pod_answers env t r \<Longrightarrow> length (response r) < 18446744073709551616"
  by (simp add: pod_answers_def)

interpretation nsv: lumen_service naive_push naive_pop naive_pop_batch naive_shutdown nq_data
  "\<lambda>_. True" "\<lambda>_. True" "pod_answers env" for env
  by (intro lumen_service.intro nq.task_queue_axioms lumen_service_axioms.intro)
    (auto dest: pod_answers_client pod_answers_length)

interpretation ssv: lumen_service spsc_push spsc_pop spsc_pop_batch spsc_shutdown spsc_contents
  spsc_accepts spsc_inv "pod_answers env" for env
  by (intro lumen_service.intro sq.task_queue_axioms lumen_service_axioms.intro)
    (auto dest: pod_answers_client pod_answers_length)

interpretation msv: lumen_service mpmc_push mpmc_pop mpmc_pop_batch mpmc_shutdown mpmc_contents
  mpmc_accepts mpmc_inv "pod_answers env" for env
  by (intro lumen_service.intro mq.task_queue_axioms lumen_service_axioms.intro)
    (auto dest: pod_answers_client pod_answers_length)

definition system_start :: "('q \<times> InferenceTask list) TCPServer \<Rightarrow> 'q lumen_system" where
  "system_start srv = \<lparr>server = srv, at_phase = Draining, in_hand = []\<rparr>"


subsection \<open>A scheduler\<close>

datatype choice =
    Respond time_point
  | Drain
  | Poll net
  | Serve net
  | Finish
  | Take size_t
  | Answer nat InferenceResult

fun exec_step ::
  "(InferenceTask \<Rightarrow> 'q \<Rightarrow> (bool \<times> 'q) call) \<Rightarrow>
   (InferenceTask list \<Rightarrow> size_t \<Rightarrow> 'q \<Rightarrow> (size_t \<times> InferenceTask list \<times> 'q) call) \<Rightarrow>
   choice \<Rightarrow> 'q lumen_system \<Rightarrow> 'q lumen_system option" where
  "exec_step psh bat (Respond t) \<sigma> =
     (case rq_pop_immediate (srv_results (server \<sigma>)) of
        (Some r, q) \<Rightarrow>
          if at_phase \<sigma> = Draining then Some (\<sigma>\<lparr>server := deliver t r ((server \<sigma>)\<lparr>srv_results := q\<rparr>)\<rparr>) else None
      | (None, q) \<Rightarrow> None)"
| "exec_step psh bat Drain \<sigma> =
     (case rq_pop_immediate (srv_results (server \<sigma>)) of
        (Some r, q) \<Rightarrow> None
      | (None, q) \<Rightarrow>
          if at_phase \<sigma> = Draining
          then let srv1 = (server \<sigma>)\<lparr>srv_results := q\<rparr>
               in Some (\<sigma>\<lparr>server := update_events 1 (length (pollfds srv1) - 1) srv1, at_phase := Polling\<rparr>)
          else None)"
| "exec_step psh bat (Poll net) \<sigma> =
     (if at_phase \<sigma> = Polling
      then if poll_count net \<le> 0 then Some (\<sigma>\<lparr>at_phase := Draining\<rparr>)
           else if poll_contract net (pollfds (server \<sigma>))
           then Some (\<sigma>\<lparr>server := do_poll net (server \<sigma>), at_phase := Serving 0 (length (pollfds (server \<sigma>)))\<rparr>)
           else None
      else None)"
| "exec_step psh bat (Serve net) \<sigma> =
     (case at_phase \<sigma> of
        Serving i (Suc n) \<Rightarrow>
          if pfd_fd (pollfds (server \<sigma>) ! i) = sockfd (server \<sigma>) \<longrightarrow> accept_contract net (pollfds (server \<sigma>))
          then (case service_entry (logged psh) net i (server \<sigma>) of
                  (gone, srv1) \<Rightarrow> Some (\<sigma>\<lparr>server := srv1, at_phase := Serving (if gone then i else Suc i) n\<rparr>))
          else None
      | _ \<Rightarrow> None)"
| "exec_step psh bat Finish \<sigma> =
     (case at_phase \<sigma> of Serving i 0 \<Rightarrow> Some (\<sigma>\<lparr>at_phase := Draining\<rparr>) | _ \<Rightarrow> None)"
| "exec_step psh bat (Take m) \<sigma> =
     (case srv_tasks (server \<sigma>) of
        (q, h) \<Rightarrow>
          (case bat [] m q of
             Returns (k, ts, q') \<Rightarrow>
               Some (\<sigma>\<lparr>server := (server \<sigma>)\<lparr>srv_tasks := (q', h)\<rparr>, in_hand := in_hand \<sigma> @ ts\<rparr>)
           | Waits \<Rightarrow> None))"
| "exec_step psh bat (Answer k r) \<sigma> =
     (if k < length (in_hand \<sigma>)
      then Some (\<sigma>\<lparr>server := (server \<sigma>)\<lparr>srv_results := rq_push r (srv_results (server \<sigma>))\<rparr>,
                   in_hand := take k (in_hand \<sigma>) @ drop (Suc k) (in_hand \<sigma>)\<rparr>)
      else None)"

text \<open>What the environment has to keep for a choice to be a step.\<close>

definition choice_ok :: "(InferenceTask \<Rightarrow> InferenceResult \<Rightarrow> bool) \<Rightarrow> choice \<Rightarrow> 'q lumen_system \<Rightarrow> bool" where
  "choice_ok work c \<sigma> \<longleftrightarrow>
     (case c of Serve net \<Rightarrow> net_ok net | Answer k r \<Rightarrow> work (in_hand \<sigma> ! k) r | _ \<Rightarrow> True)"

lemma exec_step_sound:
  assumes "exec_step psh bat c \<sigma> = Some \<sigma>'" "choice_ok work c \<sigma>"
  shows "system_step psh bat work \<sigma> \<sigma>'"
proof (cases c)
  case (Respond t)
  then show ?thesis
    using assms(1) by (auto intro: system_step.respond split: prod.splits option.splits if_splits)
next
  case Drain
  then show ?thesis
    using assms(1) system_step.drained [OF _ _ refl, of \<sigma> _ psh bat work]
    by (auto simp: Let_def split: prod.splits option.splits if_splits)
next
  case (Poll net)
  then show ?thesis
    using assms(1) by (auto intro: system_step.poll_idle system_step.poll_ready split: if_splits)
next
  case (Serve net)
  then obtain i n where "at_phase \<sigma> = Serving i (Suc n)"
    using assms(1) by (auto split: server_phase.splits nat.splits)
  then show ?thesis
    using assms Serve system_step.serve [of \<sigma> i n net psh _ _ bat work]
    by (auto simp: choice_ok_def split: prod.splits if_splits)
next
  case Finish
  then show ?thesis
    using assms(1) by (auto intro: system_step.served split: server_phase.splits nat.splits)
next
  case (Take m)
  then show ?thesis
    using assms(1) by (auto intro: system_step.worker_takes split: prod.splits call.splits)
next
  case (Answer k r)
  then have "in_hand \<sigma> = take k (in_hand \<sigma>) @ in_hand \<sigma> ! k # drop (Suc k) (in_hand \<sigma>)"
    using assms(1) by (auto intro: id_take_nth_drop split: if_splits)
  then show ?thesis
    using assms Answer system_step.worker_answers [of \<sigma> "take k (in_hand \<sigma>)" "in_hand \<sigma> ! k" "drop (Suc k) (in_hand \<sigma>)" work r psh bat]
    by (auto simp: choice_ok_def split: if_splits)
qed

fun exec_run ::
  "(InferenceTask \<Rightarrow> 'q \<Rightarrow> (bool \<times> 'q) call) \<Rightarrow>
   (InferenceTask list \<Rightarrow> size_t \<Rightarrow> 'q \<Rightarrow> (size_t \<times> InferenceTask list \<times> 'q) call) \<Rightarrow>
   choice list \<Rightarrow> 'q lumen_system \<Rightarrow> 'q lumen_system option" where
  "exec_run psh bat [] \<sigma> = Some \<sigma>"
| "exec_run psh bat (c # cs) \<sigma> =
     (case exec_step psh bat c \<sigma> of None \<Rightarrow> None | Some \<sigma>' \<Rightarrow> exec_run psh bat cs \<sigma>')"

text \<open>The environment keeps its part along a whole run, and a guard holds in every state of it.\<close>

fun run_ok ::
  "(InferenceTask \<Rightarrow> 'q \<Rightarrow> (bool \<times> 'q) call) \<Rightarrow>
   (InferenceTask list \<Rightarrow> size_t \<Rightarrow> 'q \<Rightarrow> (size_t \<times> InferenceTask list \<times> 'q) call) \<Rightarrow>
   (InferenceTask \<Rightarrow> InferenceResult \<Rightarrow> bool) \<Rightarrow> ('q lumen_system \<Rightarrow> bool) \<Rightarrow>
   choice list \<Rightarrow> 'q lumen_system \<Rightarrow> bool" where
  "run_ok psh bat work guard [] \<sigma> \<longleftrightarrow> True"
| "run_ok psh bat work guard (c # cs) \<sigma> \<longleftrightarrow>
     choice_ok work c \<sigma> \<and> guard \<sigma> \<and>
     (case exec_step psh bat c \<sigma> of None \<Rightarrow> True | Some \<sigma>' \<Rightarrow> run_ok psh bat work guard cs \<sigma>')"

lemma exec_run_guarded:
  "exec_run psh bat cs \<sigma> = Some \<sigma>' \<Longrightarrow> run_ok psh bat work guard cs \<sigma> \<Longrightarrow>
     (\<lambda>\<sigma> \<sigma>'. system_step psh bat work \<sigma> \<sigma>' \<and> guard \<sigma>)\<^sup>*\<^sup>* \<sigma> \<sigma>'"
proof (induction cs arbitrary: \<sigma>)
  case (Cons c cs)
  then obtain \<sigma>1 where "exec_step psh bat c \<sigma> = Some \<sigma>1" "choice_ok work c \<sigma>" "guard \<sigma>"
      "exec_run psh bat cs \<sigma>1 = Some \<sigma>'" "run_ok psh bat work guard cs \<sigma>1"
    by (auto split: option.splits)
  then show ?case
    using exec_step_sound [of psh bat c \<sigma> \<sigma>1 work] Cons.IH [of \<sigma>1]
    by (intro converse_rtranclp_into_rtranclp [of _ \<sigma> \<sigma>1]) auto
qed simp

lemma unguarded: "(\<lambda>\<sigma> \<sigma>'. R \<sigma> \<sigma>' \<and> guard \<sigma>)\<^sup>*\<^sup>* \<sigma> \<sigma>' \<Longrightarrow> R\<^sup>*\<^sup>* \<sigma> \<sigma>'"
  by (erule rtranclp_mono [THEN predicate2D, rotated]) auto

lemmas exec_run_sound = exec_run_guarded [THEN unguarded]



subsection \<open>A sample run\<close>

text \<open>
  One client connects, sends a request with a body of one byte, a worker answers it and the
  answer reaches the client's session.
\<close>

definition accept_net :: net where
  "accept_net =
     \<lparr>accept_ret = 7, recv_ret = (\<lambda>fd n. RecvFailed True), send_ret = (\<lambda>fd n. (0, False)), poll_count = 1,
      poll_revents = (\<lambda>fd. if fd = 3 then POLLIN else 0), stale_revents = 0, now = 0\<rparr>"

definition bytes_net :: "byte list \<Rightarrow> net" where
  "bytes_net bs =
     \<lparr>accept_ret = -1, recv_ret = (\<lambda>fd n. if take n bs = [] then RecvFailed True else Received (take n bs)),
      send_ret = (\<lambda>fd n. (0, False)), poll_count = 1,
      poll_revents = (\<lambda>fd. if fd = 7 then POLLIN else 0), stale_revents = 0, now = 0\<rparr>"

lemma accept_net_ok: "net_ok accept_net"
  by (simp add: net_ok_def accept_net_def recv_contract_def send_contract_def)

lemma bytes_net_ok: "length bs \<le> 4 \<Longrightarrow> net_ok (bytes_net bs)"
  by (auto simp: net_ok_def bytes_net_def recv_contract_def send_contract_def)

definition one_candidate :: "candidate list" where
  "one_candidate = [\<lparr>cand_socket = 3, cand_nonblock = True, cand_bind = True\<rparr>]"

definition start_server :: "'q \<Rightarrow> ('q \<times> InferenceTask list) TCPServer" where
  "start_server q =
     \<lparr>sockfd = 3, pollfds = [\<lparr>pfd_fd = 3, pfd_events = POLLIN, pfd_revents = 0\<rparr>],
      srv_pre = None, srv_post = None, srv_tasks = (q, []), srv_results = rq_new,
      sessions = Map.empty, trace_id_gen = 0, captured = [], closed_fds = [], wire = []\<rparr>"

lemma start_server_new:
  "server_new (Some one_candidate) True 0 (q, []) rq_new None None = ([], Inr (start_server q))"
  by (simp add: server_new_def one_candidate_def start_server_def)

definition read_run :: "choice list" where
  "read_run =
     [Drain, Poll accept_net, Serve accept_net, Finish,
      Drain, Poll (bytes_net [0, 0, 0, 1]), Serve (bytes_net [0, 0, 0, 1]), Serve (bytes_net [0, 0, 0, 1]), Finish,
      Drain, Poll (bytes_net [9]), Serve (bytes_net [9]), Serve (bytes_net [9]), Finish]"

lemmas run_simps = system_start_def start_server_def rq_new_def rq_pop_immediate_def Let_def
  session_of_def put_session_def new_session_def wanted_events_def POLLIN_def POLLOUT_def do_poll_def
  poll_contract_def accept_contract_def service_entry_def handle_new_connection_def handle_client_data_def
  process_header_def process_body_def finalize_request_def push_task_def logged_def new_task_def
  write_at_def resize_def accept_net_def bytes_net_def

lemma sample_header: "ntohl (load_uint32 [0, 0, 0, 1]) = 1"
  by (simp add: ntohl_def load_uint32_def push_bit_eq_mult drop_bit_eq_div)

definition sample_task :: InferenceTask where
  "sample_task = new_task 7 [9] None None (Some (new_trace 0 0))"

definition waiting_server :: "'q \<Rightarrow> ('q \<times> InferenceTask list) TCPServer" where
  "waiting_server q =
     (start_server q)\<lparr>
       pollfds := [\<lparr>pfd_fd = 3, pfd_events = POLLIN, pfd_revents = 0\<rparr>, \<lparr>pfd_fd = 7, pfd_events = POLLIN, pfd_revents = POLLIN\<rparr>],
       srv_tasks := (q, [sample_task]), trace_id_gen := 1,
       sessions := [7 \<mapsto> new_session\<lparr>state := INFERENCE_PENDING, expected_size := 1, bytes_received := 1,
                       header_buffer := [0, 0, 0, 1], header_bytes_received := 4\<rparr>]\<rparr>"

lemma sample_read:
  assumes "psh sample_task q = Returns (ok, q')"
  shows "exec_run psh bat read_run (system_start (start_server q)) = Some (system_start (waiting_server q'))"
    "(\<And>\<sigma>. fst (srv_tasks (server \<sigma>)) = q \<Longrightarrow> card (dom (sessions (server \<sigma>))) \<le> 1 \<Longrightarrow> guard \<sigma>) \<Longrightarrow>
       (\<And>\<sigma>. fst (srv_tasks (server \<sigma>)) = q' \<Longrightarrow> card (dom (sessions (server \<sigma>))) \<le> 1 \<Longrightarrow> guard \<sigma>) \<Longrightarrow>
       run_ok psh bat work guard read_run (system_start (start_server q))"
proof -
  have psh: "psh \<lparr>client_fd = 7, task_data = [9], task_pre = None, task_post = None, task_trace = Some (new_trace 0 0)\<rparr> q =
      Returns (ok, q')"
    using assms by (simp add: sample_task_def new_task_def)
  show "exec_run psh bat read_run (system_start (start_server q)) = Some (system_start (waiting_server q'))"
    using psh by (simp add: read_run_def run_simps sample_header waiting_server_def sample_task_def new_task_def)
  assume "\<And>\<sigma>. fst (srv_tasks (server \<sigma>)) = q \<Longrightarrow> card (dom (sessions (server \<sigma>))) \<le> 1 \<Longrightarrow> guard \<sigma>"
    "\<And>\<sigma>. fst (srv_tasks (server \<sigma>)) = q' \<Longrightarrow> card (dom (sessions (server \<sigma>))) \<le> 1 \<Longrightarrow> guard \<sigma>"
  then show "run_ok psh bat work guard read_run (system_start (start_server q))"
    using psh bytes_net_ok [of "[0, 0, 0, 1]"] bytes_net_ok [of "[9]"] accept_net_ok
    by (simp add: read_run_def run_simps sample_header waiting_server_def sample_task_def new_task_def choice_ok_def)
qed


text \<open>The worker's part: the task is taken and answered.\<close>

lemma sample_answer: "pod_answers example_env sample_task (new_result 7 payload_error (task_trace (stamp_wait 0 sample_task)))"
proof -
  have "fst (pod_run example_env (\<lambda>_. 0) (stamp_wait 0 sample_task) example_pod) =
      Finished (new_result 7 payload_error (task_trace (stamp_wait 0 sample_task)))"
    by (simp add: pod_run_def engine_run_def example_pod_def stamp_wait_def sample_task_def element_count_def new_task_def)
  then show ?thesis
    by (auto simp: pod_answers_def payload_error_def)
qed

lemma sample_response:
  assumes push: "psh sample_task q = Returns (ok, q')" and batch: "bat [] 1 q' = Returns (k, [sample_task], q'')"
  shows "\<exists>\<sigma> s. (system_step psh bat (pod_answers example_env))\<^sup>*\<^sup>* (system_start (start_server q)) \<sigma> \<and>
     sessions (server \<sigma>) 7 = Some s \<and> state s = RESPONSE_SENDING \<and> response_buffer s = payload_error"
proof -
  let ?r = "new_result 7 payload_error (task_trace (stamp_wait 0 sample_task))"
  let ?cs = "[Take 1, Answer 0 ?r, Respond 0]" and ?\<sigma> = "system_start (waiting_server q')"
  let ?R = "system_step psh bat (pod_answers example_env)"
  have "?R\<^sup>*\<^sup>* (system_start (start_server q)) ?\<sigma>"
    by (rule exec_run_sound [where guard = "\<lambda>_. True", OF sample_read(1) [where psh = psh, OF push]
        sample_read(2) [where psh = psh, OF push]]) simp_all
  moreover obtain \<sigma>' s where \<sigma>': "exec_run psh bat ?cs ?\<sigma> = Some \<sigma>'" "sessions (server \<sigma>') 7 = Some s"
      "state s = RESPONSE_SENDING" "response_buffer s = payload_error"
    using batch by (simp add: system_start_def waiting_server_def start_server_def rq_new_def rq_push_def
        rq_pop_immediate_def deliver_def Let_def put_session_def stamp_wait_def sample_task_def new_task_def)
  have "run_ok psh bat (pod_answers example_env) (\<lambda>_. True) ?cs ?\<sigma>"
    using batch sample_answer by (simp add: system_start_def waiting_server_def start_server_def rq_new_def rq_push_def
        rq_pop_immediate_def choice_ok_def)
  then have "?R\<^sup>*\<^sup>* ?\<sigma> \<sigma>'"
    by (rule exec_run_sound [OF \<sigma>'(1)])
  ultimately show ?thesis
    using \<sigma>'(2-4) by (intro exI [of _ \<sigma>'] exI [of _ s]) (auto intro: rtranclp_trans)
qed

lemma naive_sample:
  "naive_push sample_task naive_new = Returns (True, naive_new\<lparr>nq_data := [sample_task]\<rparr>)"
  "naive_pop_batch [] 1 (naive_new\<lparr>nq_data := [sample_task]\<rparr>) = Returns (1, [sample_task], naive_new)"
  by (simp_all add: naive_push_def naive_pop_batch_def naive_ready_def naive_new_def)


subsection \<open>Reachable states\<close>

lemma naive_system_inv:
  assumes "server_new addrs listens stale (q, []) rq_new pr po = (cl, Inr srv)" "nq_data q = []"
    and "(system_step naive_push naive_pop_batch (pod_answers env))\<^sup>*\<^sup>* (system_start srv) \<sigma>"
  shows "system_inv nq_data (\<lambda>_. True) (pod_answers env) \<sigma>"
  by (rule nsv.steps_keep [OF assms(3)]) (unfold system_start_def, rule nsv.init_inv [OF assms(1)], simp_all add: assms(2))

lemma spsc_system_inv:
  assumes "server_new addrs listens stale (q, []) rq_new pr po = (cl, Inr srv)" "spsc_inv q" "spsc_contents q = []"
    and "(system_step spsc_push spsc_pop_batch (pod_answers env))\<^sup>*\<^sup>* (system_start srv) \<sigma>"
  shows "system_inv spsc_contents spsc_inv (pod_answers env) \<sigma>"
  by (rule ssv.steps_keep [OF assms(4)]) (unfold system_start_def, rule ssv.init_inv [OF assms(1-3)])

lemma mpmc_system_inv:
  assumes "server_new addrs listens stale (q, []) rq_new pr po = (cl, Inr srv)" "mpmc_inv q" "mpmc_contents q = []"
    and "(system_step mpmc_push mpmc_pop_batch (pod_answers env))\<^sup>*\<^sup>* (system_start srv) \<sigma>"
  shows "system_inv mpmc_contents mpmc_inv (pod_answers env) \<sigma>"
  by (rule msv.steps_keep [OF assms(4)]) (unfold system_start_def, rule msv.init_inv [OF assms(1-3)])

text \<open>The sample run on the other two queues, up to the offer of the task.\<close>

lemma spsc_sample:
  assumes "spsc_push sample_task q = Returns (ok, q')"
    "sp_stop q' = sp_stop q" "guard = (\<lambda>\<sigma>. card (dom (sessions (server \<sigma>))) \<le> 1023 \<and> sp_stop (fst (srv_tasks (server \<sigma>))) = sp_stop q)"
  shows "(\<lambda>\<sigma> \<sigma>'. system_step spsc_push spsc_pop_batch (pod_answers example_env) \<sigma> \<sigma>' \<and> guard \<sigma>)\<^sup>*\<^sup>*
    (system_start (start_server q)) (system_start (waiting_server q'))"
  by (rule exec_run_guarded [OF sample_read(1) [where psh = spsc_push, OF assms(1)]
        sample_read(2) [where psh = spsc_push, OF assms(1)]])
    (simp_all add: assms(2,3))

lemma mpmc_sample:
  assumes "mpmc_push sample_task q = Returns (ok, q')"
  shows "(system_step mpmc_push mpmc_pop_batch (pod_answers example_env))\<^sup>*\<^sup>*
    (system_start (start_server q)) (system_start (waiting_server q'))"
  by (rule exec_run_sound [where guard = "\<lambda>_. True", OF sample_read(1) [where psh = mpmc_push, OF assms(1)]
        sample_read(2) [where psh = mpmc_push, OF assms(1)]]) simp_all

lemma waiting_awaits: "awaits (waiting_server q) 7"
  by (simp add: awaits_def waiting_server_def)


subsection \<open>Properties\<close>

text \<open>
  Whatever the server and any number of workers do, in whatever order, the response a
  connection is being sent is the engine's answer to the last request of that very connection:
  no client ever gets the answer to another client's request or to an earlier one. Descriptors
  are closed and reused along the way.
\<close>

theorem response_reaches_its_client:
  assumes "server_new addrs listens stale (q, []) rq_new pr po = (cl, Inr srv)" "nq_data q = []"
    and "(system_step naive_push naive_pop_batch (pod_answers env))\<^sup>*\<^sup>* (system_start srv) \<sigma>"
    and "sessions (server \<sigma>) fd = Some s" "state s = RESPONSE_SENDING"
  shows "\<exists>t r. last_task fd (snd (srv_tasks (server \<sigma>))) = Some t \<and> client_fd t = fd \<and>
    pod_answers env t r \<and> response_buffer s = response r"
proof -
  have "system_inv nq_data (\<lambda>_. True) (pod_answers env) \<sigma>"
    by (rule naive_system_inv [OF assms(1-3)])
  then obtain t r where "last_task fd (snd (srv_tasks (server \<sigma>))) = Some t" "pod_answers env t r" "response r = response_buffer s"
    using assms(4,5) unfolding system_inv_def core_def answers_last_def by blast
  then show ?thesis
    using last_task_client by metis
qed

theorem response_reaches_its_client_witness:
  "\<exists>\<sigma> s t r. (system_step naive_push naive_pop_batch (pod_answers example_env))\<^sup>*\<^sup>* (system_start (start_server naive_new)) \<sigma> \<and>
     sessions (server \<sigma>) 7 = Some s \<and> state s = RESPONSE_SENDING \<and> client_fd t = 7 \<and>
     pod_answers example_env t r \<and> response_buffer s = response r"
proof -
  obtain \<sigma> s where run: "(system_step naive_push naive_pop_batch (pod_answers example_env))\<^sup>*\<^sup>* (system_start (start_server naive_new)) \<sigma>"
      "sessions (server \<sigma>) 7 = Some s" "state s = RESPONSE_SENDING"
    using sample_response [where psh = naive_push and bat = naive_pop_batch, OF naive_sample] by blast
  have "nq_data naive_new = []"
    by (simp add: naive_new_def)
  from response_reaches_its_client [OF start_server_new this run] run show ?thesis
    by blast
qed


text \<open>
  At every moment the requests under way on the multi-producer queue, queued, in the hands
  of workers or answered and not yet delivered, are of different connections, each of them
  open and waiting for its answer. So their number is at most the number of connections.
\<close>

theorem one_request_per_connection:
  assumes "server_new addrs listens stale (q, []) rq_new pr po = (cl, Inr srv)" "mpmc_inv q" "mpmc_contents q = []"
    and "(system_step mpmc_push mpmc_pop_batch (pod_answers env))\<^sup>*\<^sup>* (system_start srv) \<sigma>"
  shows "distinct (outstanding mpmc_contents (in_hand \<sigma>) (server \<sigma>)) \<and>
    (\<forall>fd \<in> set (outstanding mpmc_contents (in_hand \<sigma>) (server \<sigma>)). awaits (server \<sigma>) fd) \<and>
    length (mpmc_contents (fst (srv_tasks (server \<sigma>)))) + length (in_hand \<sigma>) +
      length (rq_data (srv_results (server \<sigma>))) \<le> card (dom (sessions (server \<sigma>)))"
proof -
  have inv: "system_inv mpmc_contents mpmc_inv (pod_answers env) \<sigma>"
    by (rule mpmc_system_inv [OF assms])
  show ?thesis
    using msv.outstanding_bound [OF inv] inv by (simp add: system_inv_def core_def)
qed

theorem one_request_per_connection_witness:
  "\<exists>q. mpmc_contents q = [sample_task] \<and>
     distinct (outstanding mpmc_contents [] (waiting_server q)) \<and> length (mpmc_contents q) \<le> 1"
proof -
  have "mpmc_accepts mpmc_new"
    by (simp add: mpmc_accepts_def mpmc_new_inv(2) del: length_mpmc_contents) (simp add: mpmc_new_def)
  then obtain q where q: "mpmc_push sample_task mpmc_new = Returns (True, q)" "mpmc_contents q = [sample_task]"
    using mq.push_taken [OF mpmc_new_inv(1)] mpmc_new_inv(2) by fastforce
  from one_request_per_connection [OF start_server_new mpmc_new_inv mpmc_sample [OF q(1)]]
  show ?thesis
    using q(2) by (intro exI [of _ q]) (simp add: system_start_def waiting_server_def start_server_def rq_new_def)
qed

text \<open>
  C9: with the single-producer queue of 1023 places, as long as there are at most 1023
  connections and the queue is not shut down, no request is ever refused: every connection
  that waits for an answer has its request in the queue, at a worker, or answered.
\<close>

theorem no_request_is_forgotten:
  assumes "server_new addrs listens stale (q, []) rq_new pr po = (cl, Inr srv)" "spsc_inv q" "spsc_contents q = []"
    and "(\<lambda>\<sigma> \<sigma>'. system_step spsc_push spsc_pop_batch (pod_answers env) \<sigma> \<sigma>' \<and>
      card (dom (sessions (server \<sigma>))) \<le> 1023 \<and> \<not> sp_stop (fst (srv_tasks (server \<sigma>))))\<^sup>*\<^sup>* (system_start srv) \<sigma>"
    and "awaits (server \<sigma>) fd"
  shows "fd \<in> set (outstanding spsc_contents (in_hand \<sigma>) (server \<sigma>))"
proof -
  have inv: "system_inv spsc_contents spsc_inv (pod_answers env) (system_start srv)"
    by (rule spsc_system_inv [OF assms(1-3)]) simp
  have "sessions srv = Map.empty"
    using assms(1) by (auto simp: server_new_def split: option.splits prod.splits if_splits)
  then have none: "\<not> forgotten spsc_contents x (system_start srv)" for x
    by (simp add: forgotten_def awaits_def system_start_def)
  have "(\<lambda>\<sigma> \<sigma>'. system_step spsc_push spsc_pop_batch (pod_answers env) \<sigma> \<sigma>' \<and>
      (length (spsc_contents (fst (srv_tasks (server \<sigma>)))) < card (dom (sessions (server \<sigma>))) \<longrightarrow>
         spsc_accepts (fst (srv_tasks (server \<sigma>)))))\<^sup>*\<^sup>* (system_start srv) \<sigma>"
    using assms(4) by (rule rtranclp_mono [THEN predicate2D, rotated]) (auto simp: spsc_accepts_def)
  from ssv.remembered_steps [OF this inv none] show ?thesis
    using assms(5) by (simp add: forgotten_def)
qed

lemma spsc_new_push:
  obtains q where "spsc_push sample_task spsc_new = Returns (True, q)" "spsc_contents q = [sample_task]" "sp_stop q = sp_stop spsc_new"
proof -
  have "spsc_accepts spsc_new"
    by (simp add: spsc_accepts_def spsc_new_inv(2) del: length_spsc_contents) (simp add: spsc_new_def)
  then obtain q where q: "spsc_push sample_task spsc_new = Returns (True, q)" "spsc_contents q = [sample_task]"
    using sq.push_taken [OF spsc_new_inv(1)] spsc_new_inv(2) by fastforce
  then show thesis
    by (intro that [of q]) (auto simp: spsc_push_def Let_def split: if_splits)
qed

theorem no_request_is_forgotten_witness:
  "\<exists>q. awaits (waiting_server q) 7 \<and> 7 \<in> set (outstanding spsc_contents [] (waiting_server q))"
proof -
  obtain q where q: "spsc_push sample_task spsc_new = Returns (True, q)" "sp_stop q = sp_stop spsc_new"
    by (rule spsc_new_push)
  have "\<not> sp_stop spsc_new"
    by (simp add: spsc_new_def)
  then have "(\<lambda>\<sigma> \<sigma>'. system_step spsc_push spsc_pop_batch (pod_answers example_env) \<sigma> \<sigma>' \<and>
      card (dom (sessions (server \<sigma>))) \<le> 1023 \<and> \<not> sp_stop (fst (srv_tasks (server \<sigma>))))\<^sup>*\<^sup>*
      (system_start (start_server spsc_new)) (system_start (waiting_server q))"
    using spsc_sample [OF q refl] by simp
  from no_request_is_forgotten [OF start_server_new spsc_new_inv this] show ?thesis
    using waiting_awaits [of q] by (intro exI [of _ q]) (simp add: system_start_def)
qed

text \<open>
  C40: the result of the push in \<^verbatim>\<open>finalize_request\<close> is ignored. Stated for the single-producer
  queue: in every reachable state of the event loop in which the last bytes of a request arrive
  while the queue is full or shut down, serving the connection leaves it open and waiting with
  nothing under way for it; and then, whatever happens later, it stays so: the connection is
  never answered, never closed and never read from again.
\<close>

theorem refused_request_waits_forever:
  assumes "server_new addrs listens stale (q, []) rq_new pr po = (cl, Inr srv)" "spsc_inv q" "spsc_contents q = []"
    and "(system_step spsc_push spsc_pop_batch (pod_answers env))\<^sup>*\<^sup>* (system_start srv) \<sigma>" "at_phase \<sigma> = Serving i (Suc n)"
    and "fd = pfd_fd (pollfds (server \<sigma>) ! i)" "pfd_revents (pollfds (server \<sigma>) ! i) AND POLLIN \<noteq> 0"
    and "sessions (server \<sigma>) fd = Some s" "state s = BODY_PENDING" "body_buffer s \<noteq> []"
    and "net_ok net" "recv_ret net fd (wanted s) = Received d" "length d = wanted s"
    and "\<not> spsc_accepts (fst (srv_tasks (server \<sigma>)))"
    and "service_entry (logged spsc_push) net i (server \<sigma>) = (gone, srv1)"
    and "(system_step spsc_push spsc_pop_batch (pod_answers env))\<^sup>*\<^sup>*
      (\<sigma>\<lparr>server := srv1, at_phase := Serving (if gone then i else Suc i) n\<rparr>) \<sigma>'"
  shows "\<not> gone \<and> awaits (server \<sigma>') fd \<and> fd \<notin> set (outstanding spsc_contents (in_hand \<sigma>') (server \<sigma>'))"
proof -
  let ?\<sigma>1 = "\<sigma>\<lparr>server := srv1, at_phase := Serving (if gone then i else Suc i) n\<rparr>"
  note inv = spsc_system_inv [OF assms(1-4)]
  note lost = ssv.refused_is_forgotten [OF inv assms(6,8-10,7,12-15)]
  have "system_step spsc_push spsc_pop_batch (pod_answers env) \<sigma> ?\<sigma>1"
    using lost assms(6) by (intro system_step.serve [OF assms(5,11) _ assms(15)]) blast
  then have "(system_step spsc_push spsc_pop_batch (pod_answers env))\<^sup>*\<^sup>* (system_start srv) ?\<sigma>1"
    using assms(4) by simp
  from ssv.forgotten_steps [OF assms(16) spsc_system_inv [OF assms(1-3) this]] show ?thesis
    using lost by (simp add: forgotten_def)
qed

text \<open>The request of the sample run, up to its last byte, with a queue that was shut down.\<close>

lemma sample_refused:
  "\<exists>\<sigma> s. (system_step spsc_push spsc_pop_batch (pod_answers example_env))\<^sup>*\<^sup>* (system_start (start_server (spsc_shutdown spsc_new))) \<sigma> \<and>
     at_phase \<sigma> = Serving 1 (Suc 0) \<and> pollfds (server \<sigma>) ! 1 = \<lparr>pfd_fd = 7, pfd_events = POLLIN, pfd_revents = POLLIN\<rparr> \<and>
     sessions (server \<sigma>) 7 = Some s \<and> state s = BODY_PENDING \<and> body_buffer s \<noteq> [] \<and> wanted s = 1 \<and>
     fst (srv_tasks (server \<sigma>)) = spsc_shutdown spsc_new"
proof -
  let ?cs = "take 12 read_run" and ?\<sigma> = "system_start (start_server (spsc_shutdown spsc_new))"
  have "\<exists>\<sigma> s. exec_run spsc_push spsc_pop_batch ?cs ?\<sigma> = Some \<sigma> \<and> at_phase \<sigma> = Serving 1 (Suc 0) \<and>
      pollfds (server \<sigma>) ! 1 = \<lparr>pfd_fd = 7, pfd_events = POLLIN, pfd_revents = POLLIN\<rparr> \<and>
      sessions (server \<sigma>) 7 = Some s \<and> state s = BODY_PENDING \<and> body_buffer s \<noteq> [] \<and> wanted s = 1 \<and>
      fst (srv_tasks (server \<sigma>)) = spsc_shutdown spsc_new"
    by (simp add: read_run_def run_simps sample_header wanted_def)
  moreover have "run_ok spsc_push spsc_pop_batch (pod_answers example_env) (\<lambda>_. True) ?cs ?\<sigma>"
    using bytes_net_ok [of "[0, 0, 0, 1]"] bytes_net_ok [of "[9]"] accept_net_ok
    by (simp add: read_run_def run_simps sample_header choice_ok_def)
  ultimately show ?thesis
    using exec_run_sound by blast
qed

theorem refused_request_waits_forever_witness:
  "\<exists>\<sigma> srv1. (system_step spsc_push spsc_pop_batch (pod_answers example_env))\<^sup>*\<^sup>*
       (system_start (start_server (spsc_shutdown spsc_new))) \<sigma> \<and>
     service_entry (logged spsc_push) (bytes_net [9]) 1 (server \<sigma>) = (False, srv1) \<and> awaits srv1 7 \<and>
     7 \<notin> set (outstanding spsc_contents (in_hand \<sigma>) srv1)"
proof -
  let ?q = "spsc_shutdown spsc_new"
  obtain \<sigma> s where run: "(system_step spsc_push spsc_pop_batch (pod_answers example_env))\<^sup>*\<^sup>* (system_start (start_server ?q)) \<sigma>"
      and ph: "at_phase \<sigma> = Serving 1 (Suc 0)"
      and p: "pollfds (server \<sigma>) ! 1 = \<lparr>pfd_fd = 7, pfd_events = POLLIN, pfd_revents = POLLIN\<rparr>"
      and s: "sessions (server \<sigma>) 7 = Some s" "state s = BODY_PENDING" "body_buffer s \<noteq> []" "wanted s = 1"
      and tasks: "fst (srv_tasks (server \<sigma>)) = ?q"
    using sample_refused by blast
  have q: "spsc_inv ?q" "spsc_contents ?q = []"
    using sq.shutdown_keeps [OF spsc_new_inv(1)] spsc_new_inv(2) by simp_all
  have entry: "7 = pfd_fd (pollfds (server \<sigma>) ! 1)" "pfd_revents (pollfds (server \<sigma>) ! 1) AND POLLIN \<noteq> 0"
    unfolding p by (simp_all add: POLLIN_def)
  have net: "net_ok (bytes_net [9])" "recv_ret (bytes_net [9]) 7 (wanted s) = Received [9]" "length [9 :: byte] = wanted s"
    using bytes_net_ok [of "[9]"] s(4) by (simp_all add: bytes_net_def)
  have refused: "\<not> spsc_accepts (fst (srv_tasks (server \<sigma>)))"
    unfolding tasks by (simp add: spsc_accepts_def spsc_shutdown_def)
  obtain gone srv1 where e: "service_entry (logged spsc_push) (bytes_net [9]) 1 (server \<sigma>) = (gone, srv1)"
    by fastforce
  from refused_request_waits_forever [OF start_server_new q run ph entry s(1-3) net refused e rtranclp.rtrancl_refl]
  show ?thesis
    using run e by (intro exI [of _ \<sigma>] exI [of _ srv1]) simp
qed


text \<open>
  C17: the step relation is faithful to the event loop, stated on the multi-producer queue: from
  every state the system can reach at the top of the loop, one iteration of \<^verbatim>\<open>run\<close> with no worker in between is a sequence of
  steps of the system, for every environment that keeps its contracts.
\<close>

theorem iteration_refines_steps:
  assumes "server_new addrs listens stale (q, []) rq_new pr po = (cl, Inr srv)" "mpmc_inv q" "mpmc_contents q = []"
    and "(system_step mpmc_push mpmc_pop_batch (pod_answers env))\<^sup>*\<^sup>* (system_start srv) \<sigma>" "at_phase \<sigma> = Draining"
    and "net_ok net" "accept_contract net (pollfds (handle_responses net (server \<sigma>)))"
    and "poll_contract net (pollfds (update_events 1 (length (pollfds (handle_responses net (server \<sigma>))) - 1)
      (handle_responses net (server \<sigma>))))"
  shows "(system_step mpmc_push mpmc_pop_batch (pod_answers env))\<^sup>*\<^sup>* \<sigma>
    (\<sigma>\<lparr>server := server_iteration (logged mpmc_push) net (server \<sigma>)\<rparr>)"
  by (rule msv.iteration_steps [OF mpmc_system_inv [OF assms(1-4)] assms(5-8)])

theorem iteration_refines_steps_witness:
  "(system_step mpmc_push mpmc_pop_batch (pod_answers example_env))\<^sup>*\<^sup>* (system_start (start_server mpmc_new))
     (system_start (server_iteration (logged mpmc_push) accept_net (start_server mpmc_new)))"
proof -
  let ?\<sigma> = "system_start (start_server mpmc_new)"
  have r: "handle_responses accept_net (server ?\<sigma>) = start_server mpmc_new"
    by (simp add: handle_responses_empty system_start_def start_server_def rq_new_def)
  have "accept_contract accept_net (pollfds (handle_responses accept_net (server ?\<sigma>)))"
    unfolding r by (simp add: accept_contract_def accept_net_def start_server_def)
  moreover have "poll_contract accept_net (pollfds (update_events 1 (length (pollfds (handle_responses accept_net (server ?\<sigma>))) - 1)
      (handle_responses accept_net (server ?\<sigma>))))"
    unfolding r by (simp add: poll_contract_def accept_net_def start_server_def POLLIN_def POLLOUT_def)
  moreover have "at_phase ?\<sigma> = Draining"
    by (simp add: system_start_def)
  ultimately have "(system_step mpmc_push mpmc_pop_batch (pod_answers example_env))\<^sup>*\<^sup>* ?\<sigma>
      (?\<sigma>\<lparr>server := server_iteration (logged mpmc_push) accept_net (server ?\<sigma>)\<rparr>)"
    using iteration_refines_steps [OF start_server_new mpmc_new_inv rtranclp.rtrancl_refl _ accept_net_ok] by blast
  then show ?thesis
    by (simp add: system_start_def)
qed

text \<open>
  C7: memory safety of the network buffers, stated for the server on the multi-producer queue: in
  every reachable state, the bytes a receive may write and the bytes a send may read, from the session's current position on, end exactly at
  the end of the buffer, so no sequence of partial transfers overruns one. An empty body is
  never received into.
\<close>

theorem transfers_stay_in_buffers:
  assumes "server_new addrs listens stale (q, []) rq_new pr po = (cl, Inr srv)" "mpmc_inv q" "mpmc_contents q = []"
    and "(system_step mpmc_push mpmc_pop_batch (pod_answers env))\<^sup>*\<^sup>* (system_start srv) \<sigma>"
    and "sessions (server \<sigma>) fd = Some s"
  shows "(state s = HEADER_PENDING \<longrightarrow> unat (header_bytes_received s) + wanted s = length (header_buffer s)) \<and>
    (state s = BODY_PENDING \<longrightarrow> body_buffer s \<noteq> [] \<longrightarrow>
       unat (bytes_received s) + wanted s = length (body_buffer s)) \<and>
    unat (bytes_sent s) + unat (of_nat (length (response_buffer s)) - bytes_sent s) = length (response_buffer s)"
proof -
  have "system_inv mpmc_contents mpmc_inv (pod_answers env) \<sigma>"
    by (rule mpmc_system_inv [OF assms(1-4)])
  then have s: "session_ok s"
    using assms(5) unfolding system_inv_def core_def server_ok_def by blast
  have 1: "unat (header_bytes_received s) + wanted s = length (header_buffer s)" if "state s = HEADER_PENDING"
    using s that by (simp add: session_ok_def wanted_def unat_diff_size_t)
  have 2: "unat (bytes_received s) + wanted s = length (body_buffer s)" if "state s = BODY_PENDING" "body_buffer s \<noteq> []"
    using s that by (auto simp: session_ok_def wanted_def unat_diff_size_t)
  have "unat (bytes_sent s) \<le> length (response_buffer s)" "length (response_buffer s) < 18446744073709551616"
    using s by (simp_all add: session_ok_def)
  then have "unat (of_nat (length (response_buffer s)) - bytes_sent s) = length (response_buffer s) - unat (bytes_sent s)"
    by (subst unat_diff_size_t) (simp_all add: unat_of_nat_size_t)
  then show ?thesis
    using 1 2 \<open>unat (bytes_sent s) \<le> length (response_buffer s)\<close> by simp
qed


lemma sample_header_read:
  "\<exists>\<sigma> s. (system_step mpmc_push mpmc_pop_batch (pod_answers example_env))\<^sup>*\<^sup>* (system_start (start_server mpmc_new)) \<sigma> \<and>
     sessions (server \<sigma>) 7 = Some s \<and> state s = BODY_PENDING \<and> length (body_buffer s) = 1"
proof -
  let ?cs = "take 9 read_run" and ?\<sigma> = "system_start (start_server mpmc_new)"
  have "\<exists>\<sigma> s. exec_run mpmc_push mpmc_pop_batch ?cs ?\<sigma> = Some \<sigma> \<and> sessions (server \<sigma>) 7 = Some s \<and>
      state s = BODY_PENDING \<and> length (body_buffer s) = 1"
    by (simp add: read_run_def run_simps sample_header)
  moreover have "run_ok mpmc_push mpmc_pop_batch (pod_answers example_env) (\<lambda>_. True) ?cs ?\<sigma>"
    using bytes_net_ok [of "[0, 0, 0, 1]"] accept_net_ok
    by (simp add: read_run_def run_simps sample_header choice_ok_def)
  ultimately show ?thesis
    using exec_run_sound by blast
qed

theorem transfers_stay_in_buffers_witness:
  "\<exists>\<sigma> s. (system_step mpmc_push mpmc_pop_batch (pod_answers example_env))\<^sup>*\<^sup>* (system_start (start_server mpmc_new)) \<sigma> \<and>
     sessions (server \<sigma>) 7 = Some s \<and> state s = BODY_PENDING \<and> unat (bytes_received s) + wanted s = length (body_buffer s)"
proof -
  obtain \<sigma> s where run: "(system_step mpmc_push mpmc_pop_batch (pod_answers example_env))\<^sup>*\<^sup>* (system_start (start_server mpmc_new)) \<sigma>"
      "sessions (server \<sigma>) 7 = Some s" "state s = BODY_PENDING" "length (body_buffer s) = 1"
    using sample_header_read by blast
  then have "body_buffer s \<noteq> []"
    by auto
  then show ?thesis
    using transfers_stay_in_buffers [OF start_server_new mpmc_new_inv run(1,2)] run by blast
qed

text \<open>
  C18: the bookkeeping of connections, stated for the server on the single-producer queue: in
  every reachable state the listening socket is the first entry of the poll set, no descriptor occurs twice in it, and the sessions are exactly
  those of the other entries, although closing a connection moves the last entry of the set
  to its place in the middle of the loop.
\<close>

theorem poll_set_matches_sessions:
  assumes "server_new addrs listens stale (q, []) rq_new pr po = (cl, Inr srv)" "spsc_inv q" "spsc_contents q = []"
    and "(system_step spsc_push spsc_pop_batch (pod_answers env))\<^sup>*\<^sup>* (system_start srv) \<sigma>"
  shows "\<exists>p ps. pollfds (server \<sigma>) = p # ps \<and> pfd_fd p = sockfd (server \<sigma>) \<and>
    distinct (map pfd_fd (p # ps)) \<and> dom (sessions (server \<sigma>)) = set (map pfd_fd ps)"
proof -
  have "pollset_ok (server \<sigma>)"
    using spsc_system_inv [OF assms] by (simp add: system_inv_def core_def)
  then show ?thesis
    by (elim pollset_okE) simp
qed

theorem poll_set_matches_sessions_witness:
  "\<exists>q. dom (sessions (waiting_server q :: (SPSCTaskQueue \<times> InferenceTask list) TCPServer)) =
     set (map pfd_fd (tl (pollfds (waiting_server q))))"
proof -
  obtain q where q: "spsc_push sample_task spsc_new = Returns (True, q)" "sp_stop q = sp_stop spsc_new"
    by (rule spsc_new_push)
  have "(system_step spsc_push spsc_pop_batch (pod_answers example_env))\<^sup>*\<^sup>*
      (system_start (start_server spsc_new)) (system_start (waiting_server q))"
    by (rule unguarded [OF spsc_sample [OF q refl]])
  from poll_set_matches_sessions [OF start_server_new spsc_new_inv this] show ?thesis
    by (elim exE conjE, intro exI [of _ q]) (simp add: system_start_def)
qed

end
