(* ===== verification/Pool_Lifecycle.thy ===== *)
theory Pool_Lifecycle
  imports Pool_Workers
begin

section \<open>The life of the pool\<close>

text \<open>
  How the constructor of \<^verbatim>\<open>ThreadPool\<close> can end, what the pods it builds hold, and how \<^verbatim>\<open>shutdown\<close>
  meets the running workers: \<^verbatim>\<open>pool_run\<close> interleaves the steps of the workers, of the thread that
  shuts the pool down, of a producer and of the condition variable. The locale
  \<open>stoppable_queue\<close> states what \<^verbatim>\<open>shutdown\<close> of a task queue promises its consumers, and the
  termination of the shutdown is proved from it for the three queues.
\<close>

subsection \<open>Construction\<close>

lemma make_pods_all:
  assumes "\<And>j. j < n \<Longrightarrow> mk (i + j) = Built (pods ! j) \<and> starts (i + j)" "length pods = n"
  shows "make_pods mk starts i n = Built pods"
  using assms
proof (induction n arbitrary: i pods)
  case (Suc n)
  obtain p ps where pods: "pods = p # ps" "length ps = n"
    using Suc.prems(2) by (cases pods) auto
  have "mk (Suc i + j) = Built (ps ! j) \<and> starts (Suc i + j)" if "j < n" for j
    using Suc.prems(1) [of "Suc j"] that pods(1) by simp
  then have "make_pods mk starts (Suc i) n = Built ps"
    using pods(2) by (intro Suc.IH)
  then show ?case
    using Suc.prems(1) [of 0] pods(1) by simp
qed simp

lemma make_pods_failing:
  assumes "\<And>j. j < k \<Longrightarrow> \<exists>pod. mk (i + j) = Built pod \<and> starts (i + j)" "k < n"
    "make_pods mk starts (i + k) (Suc 0) = c" "\<And>pods. c \<noteq> Built pods"
  shows "make_pods mk starts i n = c"
  using assms
proof (induction k arbitrary: i n)
  case 0
  then obtain n' where "n = Suc n'"
    by (cases n) auto
  then show ?case
    using "0.prems"(3,4) by (auto split: ctor.splits if_splits)
next
  case (Suc k)
  obtain n' where n: "n = Suc n'" "k < n'"
    using Suc.prems(2) by (cases n) auto
  obtain pod where pod: "mk i = Built pod" "starts i"
    using Suc.prems(1) [of 0] by auto
  have earlier: "\<exists>pod. mk (Suc i + j) = Built pod \<and> starts (Suc i + j)" if "j < k" for j
    using Suc.prems(1) [of "Suc j"] that by simp
  have "make_pods mk starts (Suc i) n' = c"
    by (rule Suc.IH [OF earlier n(2)]) (use Suc.prems(3,4) in \<open>simp_all del: make_pods.simps\<close>)
  then show ?case
    using n(1) pod Suc.prems(4) by (cases c) auto
qed


subsection \<open>The runtime and the arena during construction\<close>

text \<open>
  The runtime opens the same model whether it is given an arena or not, and while it does so it
  changes the arena through its interface only, with requests that do not overflow.
\<close>

definition opens_through_interface :: "'s ort_runtime \<Rightarrow> bool" where
  "opens_through_interface rt \<longleftrightarrow>
     (\<forall>a m sess a' m'. open_arena rt (a, m) = Some (sess, a', m') \<longrightarrow>
        open_plain rt = Some sess \<and>
        (\<exists>ops. list_all (op_fits a) ops \<and> a' = the_arena (fold arena_do ops (life_start a))))"

lemma make_pod_arenaD:
  assumes "make_pod aa ci av heap rt LUMEN_ARENA = Built pod"
  obtains a bs sess a1 m1 a2 m2 where "arena_new aa ci av arena_capacity = (bs, Inr a)"
    "open_arena rt (a, Map.empty) = Some (sess, a1, m1)"
    "engine_new sess (Some (a1, m1)) = Some (engine pod, Some (a2, m2))" "allocator pod = ArenaPod a2 m2"
proof -
  obtain bs a where new: "arena_new aa ci av arena_capacity = (bs, Inr a)"
    and built: "(case engine_construct rt (Some (a, Map.empty)) of
        Threw e \<Rightarrow> Threw (EngineFailed e)
      | Built (eng, Some (a', m)) \<Rightarrow> Built \<lparr>allocator = ArenaPod a' m, engine = eng\<rparr>
      | _ \<Rightarrow> Broken) = Built pod"
    using assms by (cases "arena_new aa ci av arena_capacity") (auto simp: make_pod_def split: sum.splits)
  then show thesis
    using that by (auto simp: engine_construct_def open_session_def split: ctor.splits option.splits sum.splits if_splits)
qed

lemma make_pod_standardD:
  assumes "make_pod aa ci av heap rt STANDARD = Built pod" "open_plain rt = Some sess"
  shows "engine_new sess None = Some (engine pod, None)" "pod_memory (allocator pod) = Map.empty"
  using assms
  by (auto simp: make_pod_def engine_construct_def open_session_def pod_memory_def engine_new_def
      split: ctor.splits option.splits)

lemma engine_new_names:
  assumes "engine_new sess None = Some (eng, None)"
  shows "input_names eng = map fst (session_inputs sess)" "output_names eng = map fst (session_outputs sess)"
  using assms by (auto simp: engine_new_def engine_read_model_def split: option.splits)

lemma arena_capacity_bounds:
  "unat arena_capacity + 1048639 < 18446744073709551616" "unat arena_capacity < 4611686018427387904"
  by (simp_all add: arena_capacity_def)

lemma opened_arena_roomy:
  assumes "arena_new aa ci av arena_capacity = (bs, Inr a)"
    and "64 dvd unat (aa 64 (block_size arena_capacity))"
    and "unat (aa 64 (block_size arena_capacity)) + unat (block_size arena_capacity) \<le> 18446744073709551616"
    and "list_all (op_fits a) ops" "a' = the_arena (fold arena_do ops (life_start a))"
  shows "roomy (unat (block_size arena_capacity)) a'"
proof -
  have "life_inv (unat (block_size arena_capacity)) (fold arena_do ops (life_start a))"
    using arena_new_inv [OF assms(1-3) arena_capacity_bounds(1)] arena_new_Inr(5) [OF assms(1)] assms(4)
    by (intro life_inv_fold life_inv_start) (simp_all add: life_start_def)
  then show ?thesis
    using assms(5) arena_new_Inr(3) [OF assms(1)] arena_capacity_bounds(2)
    by (simp add: roomy_def life_inv_def life_start_def)
qed


subsection \<open>Workers and shutdown, interleaved\<close>

text \<open>
  Where a worker is: before the test of \<^verbatim>\<open>stop\<close>, about to evaluate the predicate of \<^verbatim>\<open>pop_batch\<close>,
  parked on the condition variable, serving the rest of its batch, or returned. A thread that is
  woken evaluates the predicate again. The thread in \<^verbatim>\<open>shutdown\<close> sets the flag, shuts the queue
  down, notifies, and joins the workers one after the other.
\<close>

datatype worker_phase = Testing | Popping | Parked | Busy "InferenceTask list" | Quit

datatype stop_phase = NotStopping | FlagSet | QueueStopped | Joining nat | Stopped

record ('q, 'r, 'h) pool_sys =
  the_pool :: "('q, 'r, 'h) ThreadPool"
  phases :: "worker_phase list"
  stopping :: stop_phase

definition pool_sys_start :: "('q, 'r, 'h) ThreadPool \<Rightarrow> ('q, 'r, 'h) pool_sys" where
  "pool_sys_start p =
     \<lparr>the_pool = p, phases = map (\<lambda>_. Testing) (worker_pods p), stopping = NotStopping\<rparr>"

definition set_phase :: "nat \<Rightarrow> worker_phase \<Rightarrow> ('q, 'r, 'h) pool_sys \<Rightarrow> ('q, 'r, 'h) pool_sys" where
  "set_phase i ph s = s\<lparr>phases := (phases s)[i := ph]\<rparr>"

text \<open>
  A step of worker \<open>i\<close>; none when it is parked or has returned, or when serving ends in an
  exception.
\<close>

definition worker_step ::
  "(InferenceTask list \<Rightarrow> size_t \<Rightarrow> 'q \<Rightarrow> (size_t \<times> InferenceTask list \<times> 'q) call) \<Rightarrow>
   (InferenceResult \<Rightarrow> 'r \<Rightarrow> 'r) \<Rightarrow> 'h pod_env \<Rightarrow> size_t \<Rightarrow> time_point \<Rightarrow> (nat \<Rightarrow> time_point) \<Rightarrow> nat \<Rightarrow>
   ('q, 'r, 'h) pool_sys \<Rightarrow> ('q, 'r, 'h) pool_sys option" where
  "worker_step pop_batch rpush env batch_size now clk i s =
     (let p = the_pool s
      in case phases s ! i of
           Testing \<Rightarrow> Some (set_phase i (if stop p then Quit else Popping) s)
         | Popping \<Rightarrow>
             (case pop_batch [] batch_size (task_queue p) of
                Waits \<Rightarrow> Some (set_phase i Parked s)
              | Returns (count, batch_buffer, q') \<Rightarrow>
                  Some (set_phase i (if count = 0 then Testing else Busy batch_buffer)
                          (s\<lparr>the_pool := p\<lparr>task_queue := q'\<rparr>\<rparr>)))
         | Busy [] \<Rightarrow> Some (set_phase i Testing s)
         | Busy (task # rest) \<Rightarrow>
             (case serve_task env rpush now clk task (worker_pods p ! i, response_queue p) of
                None \<Rightarrow> None
              | Some (pod', rq') \<Rightarrow>
                  Some (set_phase i (Busy rest)
                          (s\<lparr>the_pool := p\<lparr>worker_pods := (worker_pods p)[i := pod'], response_queue := rq'\<rparr>\<rparr>)))
         | Parked \<Rightarrow> None
         | Quit \<Rightarrow> None)"

definition wake :: "worker_phase \<Rightarrow> worker_phase" where
  "wake ph = (if ph = Parked then Popping else ph)"

text \<open>A step of the thread in \<^verbatim>\<open>shutdown\<close>. A join waits for its worker to return.\<close>

definition stop_step :: "('q \<Rightarrow> 'q) \<Rightarrow> ('q, 'r, 'h) pool_sys \<Rightarrow> ('q, 'r, 'h) pool_sys option" where
  "stop_step q_shutdown s =
     (let p = the_pool s
      in case stopping s of
           NotStopping \<Rightarrow>
             Some (if stop p then s\<lparr>stopping := Stopped\<rparr>
                   else s\<lparr>the_pool := p\<lparr>stop := True\<rparr>, stopping := FlagSet\<rparr>)
         | FlagSet \<Rightarrow>
             Some (s\<lparr>the_pool := p\<lparr>task_queue := q_shutdown (task_queue p)\<rparr>, stopping := QueueStopped\<rparr>)
         | QueueStopped \<Rightarrow> Some (s\<lparr>phases := map wake (phases s), stopping := Joining 0\<rparr>)
         | Joining k \<Rightarrow>
             if length (joinable p) \<le> k then Some (s\<lparr>stopping := Stopped\<rparr>)
             else if \<not> joinable p ! k then Some (s\<lparr>stopping := Joining (Suc k)\<rparr>)
             else if phases s ! k = Quit
             then Some (s\<lparr>the_pool := p\<lparr>joinable := (joinable p)[k := False]\<rparr>, stopping := Joining (Suc k)\<rparr>)
             else None
         | Stopped \<Rightarrow> None)"

text \<open>The steps of the pool's own threads, and those of its surroundings.\<close>

inductive pool_step ::
  "(InferenceTask list \<Rightarrow> size_t \<Rightarrow> 'q \<Rightarrow> (size_t \<times> InferenceTask list \<times> 'q) call) \<Rightarrow>
   (InferenceResult \<Rightarrow> 'r \<Rightarrow> 'r) \<Rightarrow> ('q \<Rightarrow> 'q) \<Rightarrow> 'h pod_env \<Rightarrow> size_t \<Rightarrow>
   ('q, 'r, 'h) pool_sys \<Rightarrow> ('q, 'r, 'h) pool_sys \<Rightarrow> bool"
  for pop_batch rpush q_shutdown env bs where
  work: "i < length (phases s) \<Longrightarrow> worker_step pop_batch rpush env bs now clk i s = Some s' \<Longrightarrow>
     pool_step pop_batch rpush q_shutdown env bs s s'"
| halt: "stop_step q_shutdown s = Some s' \<Longrightarrow> pool_step pop_batch rpush q_shutdown env bs s s'"

inductive outer_step ::
  "(InferenceTask \<Rightarrow> 'q \<Rightarrow> (bool \<times> 'q) call) \<Rightarrow> ('q, 'r, 'h) pool_sys \<Rightarrow> ('q, 'r, 'h) pool_sys \<Rightarrow> bool"
  for push where
  offer: "push t (task_queue (the_pool s)) = Returns (ok, q') \<Longrightarrow>
     outer_step push s (s\<lparr>the_pool := (the_pool s)\<lparr>task_queue := q'\<rparr>\<rparr>)"
| fetch: "outer_step push s (s\<lparr>the_pool := (the_pool s)\<lparr>response_queue := r'\<rparr>\<rparr>)"
| wakeup: "i < length (phases s) \<Longrightarrow> phases s ! i = Parked \<Longrightarrow> outer_step push s (set_phase i Popping s)"

inductive_cases pool_stepE: "pool_step pop_batch rpush q_shutdown env bs s s'"
inductive_cases outer_stepE: "outer_step push s s'"

text \<open>A run, with the number of steps the pool's own threads have taken.\<close>

inductive pool_run ::
  "(InferenceTask \<Rightarrow> 'q \<Rightarrow> (bool \<times> 'q) call) \<Rightarrow>
   (InferenceTask list \<Rightarrow> size_t \<Rightarrow> 'q \<Rightarrow> (size_t \<times> InferenceTask list \<times> 'q) call) \<Rightarrow>
   (InferenceResult \<Rightarrow> 'r \<Rightarrow> 'r) \<Rightarrow> ('q \<Rightarrow> 'q) \<Rightarrow> 'h pod_env \<Rightarrow> size_t \<Rightarrow> nat \<Rightarrow>
   ('q, 'r, 'h) pool_sys \<Rightarrow> ('q, 'r, 'h) pool_sys \<Rightarrow> bool"
  for push pop_batch rpush q_shutdown env bs where
  idle: "pool_run push pop_batch rpush q_shutdown env bs 0 s s"
| own: "pool_run push pop_batch rpush q_shutdown env bs k s s' \<Longrightarrow>
     pool_step pop_batch rpush q_shutdown env bs s' s'' \<Longrightarrow>
     pool_run push pop_batch rpush q_shutdown env bs (Suc k) s s''"
| outer: "pool_run push pop_batch rpush q_shutdown env bs k s s' \<Longrightarrow> outer_step push s' s'' \<Longrightarrow>
     pool_run push pop_batch rpush q_shutdown env bs k s s''"


subsection \<open>The invariant of the pool\<close>

text \<open>
  What the shutdown of the queue has achieved at each point: once the queue is shut down, it is
  released; once the workers are notified, none is parked; a worker that was joined has left.
  A batch in hand has at most the configured size.
\<close>

definition phase_bounded :: "size_t \<Rightarrow> worker_phase \<Rightarrow> bool" where
  "phase_bounded bs ph \<longleftrightarrow> (case ph of Busy ts \<Rightarrow> length ts \<le> unat bs | _ \<Rightarrow> True)"

lemma phase_bounded_simps [simp]:
  "phase_bounded bs Testing" "phase_bounded bs Popping" "phase_bounded bs Parked" "phase_bounded bs Quit"
  "phase_bounded bs (Busy ts) \<longleftrightarrow> length ts \<le> unat bs"
  "phase_bounded bs ph \<Longrightarrow> phase_bounded bs (wake ph)"
  by (simp_all add: phase_bounded_def wake_def)

definition stop_stage :: "('q \<Rightarrow> bool) \<Rightarrow> ('q, 'r, 'h) pool_sys \<Rightarrow> bool" where
  "stop_stage released s \<longleftrightarrow>
     (let p = the_pool s
      in case stopping s of
           NotStopping \<Rightarrow> \<not> stop p
         | FlagSet \<Rightarrow> stop p
         | QueueStopped \<Rightarrow> stop p \<and> released (task_queue p)
         | Joining k \<Rightarrow> stop p \<and> released (task_queue p) \<and> Parked \<notin> set (phases s) \<and>
             (\<forall>i < length (phases s). i < k \<longrightarrow> phases s ! i = Quit \<and> \<not> joinable p ! i)
         | Stopped \<Rightarrow> stop p \<and> set (phases s) \<subseteq> {Quit} \<and> True \<notin> set (joinable p))"

definition pool_sys_inv ::
  "('q \<Rightarrow> bool) \<Rightarrow> ('q \<Rightarrow> bool) \<Rightarrow> size_t \<Rightarrow> ('q, 'r, 'h) pool_sys \<Rightarrow> bool" where
  "pool_sys_inv q_inv released bs s \<longleftrightarrow>
     q_inv (task_queue (the_pool s)) \<and>
     length (phases s) = length (worker_pods (the_pool s)) \<and>
     length (phases s) = length (joinable (the_pool s)) \<and>
     list_all (phase_bounded bs) (phases s) \<and>
     (\<forall>i < length (phases s). joinable (the_pool s) ! i \<or> phases s ! i = Quit) \<and>
     stop_stage released s"

text \<open>How many steps are left to each worker once none can park any more, and to the joins.\<close>

definition phase_steps :: "size_t \<Rightarrow> worker_phase \<Rightarrow> nat" where
  "phase_steps bs ph =
     (case ph of
        Quit \<Rightarrow> 0
      | Testing \<Rightarrow> 1
      | Busy ts \<Rightarrow> length ts + 2
      | Popping \<Rightarrow> unat bs + 3
      | Parked \<Rightarrow> unat bs + 4)"

definition join_steps :: "nat \<Rightarrow> stop_phase \<Rightarrow> nat" where
  "join_steps n st = (case st of Joining k \<Rightarrow> n - k + 1 | Stopped \<Rightarrow> 0 | _ \<Rightarrow> n + 2)"

definition pool_steps :: "size_t \<Rightarrow> ('q, 'r, 'h) pool_sys \<Rightarrow> nat" where
  "pool_steps bs s =
     sum_list (map (phase_steps bs) (phases s)) + join_steps (length (joinable (the_pool s))) (stopping s)"

lemma sum_list_update_less:
  fixes f :: "'a \<Rightarrow> nat"
  assumes "i < length xs" "f y < f (xs ! i)"
  shows "sum_list (map f (xs[i := y])) < sum_list (map f xs)"
  using assms
proof (induction xs arbitrary: i)
  case (Cons x xs)
  then show ?case by (cases i) auto
qed simp

lemma sum_list_bound: "(\<And>x. x \<in> set xs \<Longrightarrow> f x \<le> (b :: nat)) \<Longrightarrow> sum_list (map f xs) \<le> length xs * b"
  by (induction xs) (auto simp: add_mono)

lemma phase_steps_bound: "phase_bounded bs ph \<Longrightarrow> phase_steps bs ph \<le> unat bs + 4"
  by (cases ph) (simp_all add: phase_steps_def)

text \<open>A worker moves on: the stage of the shutdown is kept unless it parks in a released queue.\<close>

lemma stop_stage_worker:
  assumes "stop_stage released s" "i < length (phases s)" "phases s ! i \<noteq> Quit"
    "stop p' = stop (the_pool s)" "joinable p' = joinable (the_pool s)"
    "released (task_queue (the_pool s)) \<Longrightarrow> released (task_queue p') \<and> ph \<noteq> Parked"
  shows "stop_stage released (set_phase i ph (s\<lparr>the_pool := p'\<rparr>))"
proof (cases "stopping s")
  case (Joining k)
  then have stage: "stop (the_pool s)" "released (task_queue (the_pool s))" "Parked \<notin> set (phases s)"
    "\<And>j. j < length (phases s) \<Longrightarrow> j < k \<Longrightarrow> phases s ! j = Quit \<and> \<not> joinable (the_pool s) ! j"
    using assms(1) by (simp_all add: stop_stage_def Let_def)
  have "Parked \<notin> set ((phases s)[i := ph])"
    using stage(3) assms(6) [OF stage(2)] set_update_subset_insert [of "phases s" i ph] by auto
  then show ?thesis
    using Joining stage assms(2-6) by (auto simp: stop_stage_def Let_def set_phase_def nth_list_update)
next
  case Stopped
  then have "set (phases s) \<subseteq> {Quit}"
    using assms(1) by (simp add: stop_stage_def Let_def)
  then have "phases s ! i = Quit"
    using nth_mem [OF assms(2)] by auto
  then show ?thesis
    using assms(3) by simp
qed (use assms in \<open>auto simp: stop_stage_def Let_def set_phase_def\<close>)

lemma list_all_update: "list_all P xs \<Longrightarrow> P y \<Longrightarrow> list_all P (xs[i := y])"
  by (metis insertE list_all_iff set_update_subset_insert subset_code(1))

text \<open>The same for the whole invariant, when the pool keeps its shape.\<close>

lemma pool_sys_inv_worker:
  assumes "pool_sys_inv q_inv released bs s" "i < length (phases s)" "phases s ! i \<noteq> Quit"
    "stop p' = stop (the_pool s)" "joinable p' = joinable (the_pool s)"
    "length (worker_pods p') = length (worker_pods (the_pool s))"
    "q_inv (task_queue p')" "phase_bounded bs ph"
    "released (task_queue (the_pool s)) \<Longrightarrow> released (task_queue p') \<and> ph \<noteq> Parked"
  shows "pool_sys_inv q_inv released bs (set_phase i ph (s\<lparr>the_pool := p'\<rparr>))"
proof -
  have "stop_stage released (set_phase i ph (s\<lparr>the_pool := p'\<rparr>))"
    using assms(1) by (intro stop_stage_worker assms) (simp add: pool_sys_inv_def)
  then show ?thesis
    using assms by (auto simp: pool_sys_inv_def set_phase_def list_all_update nth_list_update)
qed

text \<open>What changes is at most the worker's phase and what it owns or takes.\<close>

lemma set_phase_pool: "set_phase i ph s = set_phase i ph (s\<lparr>the_pool := the_pool s\<rparr>)"
  by simp

text \<open>The workers are notified, so the shutdown waits for them or has returned.\<close>

definition joining :: "('q, 'r, 'h) pool_sys \<Rightarrow> bool" where
  "joining s \<longleftrightarrow> (case stopping s of Joining k \<Rightarrow> True | Stopped \<Rightarrow> True | _ \<Rightarrow> False)"

lemma pool_steps_bound:
  assumes "pool_sys_inv q_inv released bs s" "joining s"
  shows "pool_steps bs s \<le> length (phases s) * (unat bs + 5) + 1"
proof -
  have "sum_list (map (phase_steps bs) (phases s)) \<le> length (phases s) * (unat bs + 4)"
    using assms(1) by (intro sum_list_bound phase_steps_bound) (auto simp: pool_sys_inv_def list_all_iff)
  moreover have "join_steps (length (joinable (the_pool s))) (stopping s) \<le> length (phases s) + 1"
    using assms by (auto simp: join_steps_def joining_def pool_sys_inv_def split: stop_phase.splits)
  ultimately show ?thesis
    by (simp add: pool_steps_def algebra_simps)
qed

text \<open>No inference that is due ends in an exception or undefined behaviour.\<close>

definition inference_returns ::
  "'h pod_env \<Rightarrow> (InferenceResult \<Rightarrow> 'r \<Rightarrow> 'r) \<Rightarrow> ('q, 'r, 'h) pool_sys \<Rightarrow> bool" where
  "inference_returns env rpush s \<longleftrightarrow>
     (\<forall>i t ts. i < length (phases s) \<longrightarrow> phases s ! i = Busy (t # ts) \<longrightarrow>
        (\<exists>now clk. serve_task env rpush now clk t (worker_pods (the_pool s) ! i, response_queue (the_pool s)) \<noteq> None))"

text \<open>What \<^verbatim>\<open>shutdown\<close> of a task queue promises the threads that wait in it.\<close>

locale stoppable_queue = task_queue push pop pop_batch shutdown contents accepts inv
  for push :: "InferenceTask \<Rightarrow> 'q \<Rightarrow> (bool \<times> 'q) call"
    and pop :: "'q \<Rightarrow> (InferenceTask option \<times> 'q) call"
    and pop_batch :: "InferenceTask list \<Rightarrow> size_t \<Rightarrow> 'q \<Rightarrow> (size_t \<times> InferenceTask list \<times> 'q) call"
    and shutdown :: "'q \<Rightarrow> 'q"
    and contents :: "'q \<Rightarrow> InferenceTask list"
    and accepts :: "'q \<Rightarrow> bool"
    and inv :: "'q \<Rightarrow> bool" +
  fixes released :: "'q \<Rightarrow> bool"
  assumes released_shutdown: "inv q \<Longrightarrow> released (shutdown q)"
    and released_pop_batch: "inv q \<Longrightarrow> released q \<Longrightarrow> pop_batch b m q \<noteq> Waits"
    and released_after_pop: "inv q \<Longrightarrow> released q \<Longrightarrow> pop_batch b m q = Returns (n, b', q') \<Longrightarrow> released q'"
    and released_after_push: "inv q \<Longrightarrow> released q \<Longrightarrow> push t q = Returns (ok, q') \<Longrightarrow> released q'"
begin

lemma push_keeps: "inv q \<Longrightarrow> push t q = Returns (ok, q') \<Longrightarrow> inv q'"
  using push_taken [of q t] push_refused [of q t] by (cases "accepts q") auto

lemma start_inv:
  assumes "inv (task_queue p)" "\<not> stop p" "joinable p = replicate (length (worker_pods p)) True"
  shows "pool_sys_inv inv released bs (pool_sys_start p)"
  using assms by (simp add: pool_sys_inv_def pool_sys_start_def stop_stage_def list_all_iff)

lemma worker_keeps:
  assumes "pool_sys_inv inv released bs s" "i < length (phases s)"
    "worker_step pop_batch rpush env bs now clk i s = Some s'"
  shows "pool_sys_inv inv released bs s'"
proof -
  note keep = pool_sys_inv_worker [OF assms(1,2)]
  have q: "inv (task_queue (the_pool s))" "phase_bounded bs (phases s ! i)"
    using assms(1,2) by (auto simp: pool_sys_inv_def list_all_length)
  show ?thesis
  proof (cases "phases s ! i")
    case Testing
    then show ?thesis
      using assms(3) keep [of "the_pool s" "if stop (the_pool s) then Quit else Popping"] q by (auto simp: worker_step_def Let_def)
  next
    case Popping
    show ?thesis
    proof (cases "pop_batch [] bs (task_queue (the_pool s))")
      case Waits
      then have "\<not> released (task_queue (the_pool s))"
        using released_pop_batch [OF q(1)] by blast
      then show ?thesis
        using assms(3) Popping Waits keep [of "the_pool s" Parked] q by (auto simp: worker_step_def Let_def)
    next
      case (Returns x)
      obtain n b q' where ret: "pop_batch [] bs (task_queue (the_pool s)) = Returns (n, b, q')"
        using Returns by (cases x) auto
      then show ?thesis
        using assms(3) Popping pop_batch_returns [OF q(1) ret] released_after_pop [OF q(1) _ ret]
          keep [of "(the_pool s)\<lparr>task_queue := q'\<rparr>" "if n = 0 then Testing else Busy b"]
        by (auto simp: worker_step_def Let_def)
    qed
  next
    case (Busy ts)
    then show ?thesis
      using assms(3) q keep [of "the_pool s" Testing] keep [of "(the_pool s)\<lparr>worker_pods := _, response_queue := _\<rparr>" "Busy _"]
      by (auto simp: worker_step_def Let_def split: list.splits option.splits)
  qed (use assms(3) in \<open>auto simp: worker_step_def Let_def\<close>)
qed

lemma stop_keeps:
  assumes "pool_sys_inv inv released bs s" "stop_step shutdown s = Some s'"
  shows "pool_sys_inv inv released bs s'"
proof -
  have s: "inv (task_queue (the_pool s))" "length (phases s) = length (joinable (the_pool s))"
    "list_all (phase_bounded bs) (phases s)" "stop_stage released s"
    "\<forall>i < length (phases s). joinable (the_pool s) ! i \<or> phases s ! i = Quit"
    using assms(1) by (simp_all add: pool_sys_inv_def)
  show ?thesis
  proof (cases "stopping s")
    case FlagSet
    then show ?thesis
      using assms s shutdown_keeps released_shutdown
      by (auto simp: stop_step_def pool_sys_inv_def stop_stage_def Let_def)
  next
    case QueueStopped
    have "list_all (phase_bounded bs) (map wake (phases s))"
      using s(3) by (simp add: list_all_iff)
    moreover have "Parked \<notin> set (map wake (phases s))"
      by (auto simp: wake_def split: if_splits)
    ultimately show ?thesis
      using assms s QueueStopped by (auto simp: stop_step_def pool_sys_inv_def stop_stage_def Let_def wake_def)
  next
    case (Joining k)
    show ?thesis
    proof (cases "length (joinable (the_pool s)) \<le> k")
      case True
      then have "set (phases s) \<subseteq> {Quit}" "True \<notin> set (joinable (the_pool s))"
        using s(2,4) Joining by (fastforce simp: stop_stage_def Let_def in_set_conv_nth)+
      then show ?thesis
        using assms s(4) Joining True by (auto simp: stop_step_def pool_sys_inv_def stop_stage_def Let_def)
    next
      case False
      then show ?thesis
        using assms s(2,4,5) Joining
        by (auto simp: stop_step_def pool_sys_inv_def stop_stage_def Let_def less_Suc_eq nth_list_update not_le split: if_splits)
    qed
  qed (use assms s in \<open>auto simp: stop_step_def pool_sys_inv_def stop_stage_def Let_def\<close>)
qed

lemma outer_keeps:
  assumes "outer_step push s s'" "pool_sys_inv inv released bs s"
  shows "pool_sys_inv inv released bs s'"
  using assms
proof (cases rule: outer_step.cases)
  case (offer t ok q')
  have "inv (task_queue (the_pool s))"
    using assms(2) by (simp add: pool_sys_inv_def)
  note q' = push_keeps [OF this offer(2)] released_after_push [OF this _ offer(2)]
  show ?thesis
    using assms(2) q' offer(1)
    by (auto simp: pool_sys_inv_def stop_stage_def Let_def split: stop_phase.splits)
next
  case (fetch r')
  then show ?thesis
    using assms(2) by (auto simp: pool_sys_inv_def stop_stage_def Let_def split: stop_phase.splits)
next
  case (wakeup i)
  then show ?thesis
    using assms(2) pool_sys_inv_worker [of inv released bs s i "the_pool s" Popping] by (auto simp: pool_sys_inv_def)
qed

lemma step_keeps:
  "pool_step pop_batch rpush shutdown env bs s s' \<Longrightarrow> pool_sys_inv inv released bs s \<Longrightarrow>
     pool_sys_inv inv released bs s'"
  by (erule pool_stepE) (auto intro: worker_keeps stop_keeps)

lemma run_keeps:
  "pool_run push pop_batch rpush shutdown env bs k s s' \<Longrightarrow> pool_sys_inv inv released bs s \<Longrightarrow>
     pool_sys_inv inv released bs s'"
  by (induction rule: pool_run.induct) (auto intro: step_keeps outer_keeps)

text \<open>Once the workers are notified, every step of the pool's own threads uses up one of the steps left.\<close>

lemma worker_shortens_phase:
  assumes inv: "pool_sys_inv inv released bs s" and "joining s" and i: "i < length (phases s)"
    and step: "worker_step pop_batch rpush env bs now clk i s = Some s'"
  shows "\<exists>ph p'. s' = set_phase i ph (s\<lparr>the_pool := p'\<rparr>) \<and> joinable p' = joinable (the_pool s) \<and>
    phase_steps bs ph < phase_steps bs (phases s ! i)"
proof -
  have s: "inv (task_queue (the_pool s))" "stop (the_pool s)" "phases s ! i \<noteq> Quit \<Longrightarrow> released (task_queue (the_pool s))"
    using inv \<open>joining s\<close> nth_mem [OF i]
    by (auto simp: pool_sys_inv_def joining_def stop_stage_def Let_def split: stop_phase.splits)
  show ?thesis
  proof (cases "phases s ! i")
    case Testing
    then show ?thesis
      using step s(2) by (intro exI [of _ Quit] exI [of _ "the_pool s"]) (auto simp: worker_step_def Let_def phase_steps_def)
  next
    case Popping
    then obtain n b q' where ret: "pop_batch [] bs (task_queue (the_pool s)) = Returns (n, b, q')"
      using released_pop_batch [OF s(1,3), of "[]" bs] by (cases "pop_batch [] bs (task_queue (the_pool s))") auto
    show ?thesis
      using step Popping ret pop_batch_returns(2) [OF s(1) ret]
      by (intro exI [of _ "if n = 0 then Testing else Busy b"] exI [of _ "(the_pool s)\<lparr>task_queue := q'\<rparr>"])
        (auto simp: worker_step_def Let_def phase_steps_def)
  next
    case (Busy ts)
    show ?thesis
    proof (cases ts)
      case Nil
      then show ?thesis
        using step Busy by (intro exI [of _ Testing] exI [of _ "the_pool s"]) (auto simp: worker_step_def Let_def phase_steps_def)
    next
      case (Cons t rest)
      then obtain pod' r' where "s' = set_phase i (Busy rest) (s\<lparr>the_pool :=
          (the_pool s)\<lparr>worker_pods := (worker_pods (the_pool s))[i := pod'], response_queue := r'\<rparr>\<rparr>)"
        using step Busy by (auto simp: worker_step_def Let_def split: option.splits)
      then show ?thesis
        using Busy Cons
        by (intro exI [of _ "Busy rest"] exI [of _ "(the_pool s)\<lparr>worker_pods := (worker_pods (the_pool s))[i := pod'],
            response_queue := r'\<rparr>"]) (auto simp: phase_steps_def)
    qed
  qed (use step in \<open>auto simp: worker_step_def Let_def\<close>)
qed

lemma worker_uses_step:
  assumes "pool_sys_inv inv released bs s" "joining s" "i < length (phases s)"
    "worker_step pop_batch rpush env bs now clk i s = Some s'"
  shows "joining s'" "pool_steps bs s' < pool_steps bs s"
  using worker_shortens_phase [OF assms] assms(2) sum_list_update_less [OF assms(3), of "phase_steps bs"]
  by (auto simp: joining_def pool_steps_def set_phase_def)

lemma stop_uses_step:
  assumes "joining s" "stop_step shutdown s = Some s'"
  shows "joining s'" "pool_steps bs s' < pool_steps bs s"
  using assms
  by (auto simp: joining_def stop_step_def Let_def pool_steps_def join_steps_def not_le split: if_splits stop_phase.splits)

lemma run_uses_steps:
  assumes "pool_run push pop_batch rpush shutdown env bs k s s'" "pool_sys_inv inv released bs s" "joining s"
  shows "joining s' \<and> k + pool_steps bs s' \<le> pool_steps bs s"
  using assms
proof (induction rule: pool_run.induct)
  case (own k s s' s'')
  then have s': "pool_sys_inv inv released bs s'" "joining s'" "k + pool_steps bs s' \<le> pool_steps bs s"
    using run_keeps by auto
  have "joining s'' \<and> pool_steps bs s'' < pool_steps bs s'"
    using own.hyps(2) worker_uses_step [OF s'(1,2)] stop_uses_step [OF s'(2)] by (auto elim!: pool_stepE)
  then show ?case
    using s'(3) by linarith
next
  case (outer k s s' s'')
  then have s': "pool_sys_inv inv released bs s'" "joining s'" "k + pool_steps bs s' \<le> pool_steps bs s"
    using run_keeps by auto
  then have "Parked \<notin> set (phases s')"
    by (auto simp: pool_sys_inv_def joining_def stop_stage_def Let_def split: stop_phase.splits)
  then have "\<forall>i < length (phases s'). phases s' ! i \<noteq> Parked"
    by (metis nth_mem)
  then have "joining s'' \<and> pool_steps bs s'' = pool_steps bs s'"
    using outer.hyps(2) s'(2) by (auto simp: joining_def pool_steps_def elim!: outer_stepE)
  then show ?case
    using s'(3) by simp
qed simp

text \<open>And as long as the shutdown has not returned, one of them can take a step.\<close>

lemma joining_progress:
  assumes inv: "pool_sys_inv inv released bs s" and "joining s" "stopping s \<noteq> Stopped"
    and serves: "inference_returns env rpush s"
  shows "\<exists>s'. pool_step pop_batch rpush shutdown env bs s s'"
proof -
  obtain k where k: "stopping s = Joining k"
    using assms(2,3) by (auto simp: joining_def split: stop_phase.splits)
  show ?thesis
  proof (cases "length (joinable (the_pool s)) \<le> k \<or> \<not> joinable (the_pool s) ! k \<or> phases s ! k = Quit")
    case True
    then have "stop_step shutdown s \<noteq> None"
      using k by (auto simp: stop_step_def Let_def)
    then show ?thesis
      by (auto intro: pool_step.halt)
  next
    case False
    then have i: "k < length (phases s)" "phases s ! k \<noteq> Quit" "Parked \<notin> set (phases s)"
      using inv k by (auto simp: pool_sys_inv_def stop_stage_def Let_def)
    then have "phases s ! k \<noteq> Parked"
      by (metis nth_mem)
    with i(2) have "\<exists>now clk. worker_step pop_batch rpush env bs now clk k s \<noteq> None"
    proof (cases "phases s ! k")
      case (Busy ts)
      then show ?thesis
        using serves i(1) by (cases ts) (auto simp: inference_returns_def worker_step_def Let_def split: option.splits)
    qed (auto simp: worker_step_def Let_def split: call.splits)
    then show ?thesis
      using i(1) by (auto intro: pool_step.work)
  qed
qed

end


subsection \<open>The three queues\<close>

text \<open>The mutex queue is released by its flag; a call on a ring never waits.\<close>

interpretation nst: stoppable_queue naive_push naive_pop naive_pop_batch naive_shutdown nq_data
  "\<lambda>_. True" "\<lambda>_. True" nq_stop
  by (intro stoppable_queue.intro nq.task_queue_axioms stoppable_queue_axioms.intro)
    (auto simp: naive_defs split: if_splits prod.splits)

lemma spsc_pop_batch_returns: "spsc_inv q \<Longrightarrow> spsc_pop_batch b m q \<noteq> Waits"
  using spsc_pop_loop_result [of q "unat m" 0 b] by (auto simp: spsc_pop_batch_def)

interpretation sst: stoppable_queue spsc_push spsc_pop spsc_pop_batch spsc_shutdown spsc_contents
  spsc_accepts spsc_inv "\<lambda>_. True"
  by (intro stoppable_queue.intro sq.task_queue_axioms stoppable_queue_axioms.intro) (auto simp: spsc_pop_batch_returns)

lemma mpmc_pop_batch_returns: "mpmc_inv q \<Longrightarrow> mpmc_pop_batch b m q \<noteq> Waits"
  using mpmc_pop_loop_result [of q "unat m" 0 b] by (auto simp: mpmc_pop_batch_def)

interpretation mst: stoppable_queue mpmc_push mpmc_pop mpmc_pop_batch mpmc_shutdown mpmc_contents
  mpmc_accepts mpmc_inv "\<lambda>_. True"
  by (intro stoppable_queue.intro mq.task_queue_axioms stoppable_queue_axioms.intro) (auto simp: mpmc_pop_batch_returns)


subsection \<open>Properties\<close>

text \<open>
  C38: how the constructor of the pool ends. It succeeds exactly when every pod is built and every
  thread starts. At the first exception, of an allocator, of the runtime or of the thread
  library, it throws only when that happens in the first turn; in a later turn the workers
  already started bring the process down, and no caller can handle the error.
\<close>

theorem pool_construction_outcome:
  assumes "\<And>i. i < k \<Longrightarrow> (\<exists>pod. mk i = Built pod) \<and> starts i"
    and "k \<le> unat (pool_thread_count hw c)"
  shows "(k = unat (pool_thread_count hw c) \<longrightarrow> (\<exists>pool. pool_new mk starts hw c tq rq = Built pool \<and>
            (\<forall>i < k. mk i = Built (worker_pods pool ! i)))) \<and>
         (k < unat (pool_thread_count hw c) \<longrightarrow>
            (\<forall>e. mk k = Threw e \<longrightarrow> pool_new mk starts hw c tq rq = (if k = 0 then Threw e else Terminated)) \<and>
            (\<forall>pod. mk k = Built pod \<longrightarrow> \<not> starts k \<longrightarrow>
               pool_new mk starts hw c tq rq = (if k = 0 then Threw ThreadFailed else Terminated)))"
proof (intro conjI impI allI)
  let ?pods = "map (\<lambda>i. case mk i of Built pod \<Rightarrow> pod) [0..<k]"
  assume n: "k = unat (pool_thread_count hw c)"
  have pods: "mk i = Built (?pods ! i) \<and> starts i" if "i < k" for i
    using assms(1) [OF that] that by auto
  then have "make_pods mk starts 0 k = Built ?pods"
    by (intro make_pods_all) simp_all
  then show "\<exists>pool. pool_new mk starts hw c tq rq = Built pool \<and> (\<forall>i < k. mk i = Built (worker_pods pool ! i))"
    unfolding pool_new_def n [symmetric] using pods by simp
next
  assume k: "k < unat (pool_thread_count hw c)"
  have earlier: "\<exists>pod. mk (0 + j) = Built pod \<and> starts (0 + j)" if "j < k" for j
    using assms(1) [OF that] by simp
  note fails = make_pods_failing [where i = 0 and mk = mk and starts = starts, OF earlier k refl]
  show "pool_new mk starts hw c tq rq = (if k = 0 then Threw e else Terminated)" if "mk k = Threw e" for e
    using fails that by (auto simp: pool_new_def unwind_def)
  show "pool_new mk starts hw c tq rq = (if k = 0 then Threw ThreadFailed else Terminated)"
    if "mk k = Built pod" "\<not> starts k" for pod
    using fails that by (auto simp: pool_new_def unwind_def)
qed

theorem pool_construction_outcome_witness:
  "pool_new (\<lambda>i. if i < 2 then Built example_pod else Threw (EngineFailed ModelRejected)) (\<lambda>i. True) 4 config_defaults
     naive_new rq_new = Terminated"
  using pool_construction_outcome [of 2 "\<lambda>i. if i < 2 then Built example_pod else Threw (EngineFailed ModelRejected)"
      "\<lambda>i. True" 4 config_defaults naive_new rq_new]
  by (simp add: pool_thread_count_def config_defaults_def)

text \<open>
  C28: the allocator of a pod does not change what its engine computes with. Built with an arena,
  the engine reads its input and output shapes through pointers into the arena; they are those
  the engine of a standard pod keeps in its vectors, for the same model. The hypotheses are the
  contracts of \<^verbatim>\<open>aligned_alloc\<close> and of the runtime, and node names and shapes of a sane length.
\<close>

theorem allocator_choice_keeps_shapes:
  assumes arena: "make_pod aa ci av heap rt LUMEN_ARENA = Built pod"
    and standard: "make_pod aa ci av heap rt STANDARD = Built pod'"
    and block: "64 dvd unat (aa 64 (block_size arena_capacity))"
      "unat (aa 64 (block_size arena_capacity)) + unat (block_size arena_capacity) \<le> 18446744073709551616"
    and rt: "opens_through_interface rt"
    and nodes: "sane_nodes (input_names (engine pod')) (input_node_dims (engine pod'))"
      "sane_nodes (output_names (engine pod')) (output_node_dims (engine pod'))"
  shows "engine_shapes (engine pod) (pod_memory (allocator pod)) =
    engine_shapes (engine pod') (pod_memory (allocator pod'))"
proof -
  obtain a bs sess a1 m1 a2 m2 where built: "arena_new aa ci av arena_capacity = (bs, Inr a)"
    "open_arena rt (a, Map.empty) = Some (sess, a1, m1)"
    "engine_new sess (Some (a1, m1)) = Some (engine pod, Some (a2, m2))" "allocator pod = ArenaPod a2 m2"
    by (rule make_pod_arenaD [OF arena])
  obtain ops where opened: "open_plain rt = Some sess" "list_all (op_fits a) ops"
    "a1 = the_arena (fold arena_do ops (life_start a))"
    using rt built(2) unfolding opens_through_interface_def by blast
  note plain = make_pod_standardD [OF standard opened(1)]
  note names = engine_new_names [OF plain(1)]
  have "engine_shapes (engine pod) m2 = engine_shapes (engine pod') Map.empty"
    using arena_engine_reads_same_shapes [OF plain(1) built(3) opened_arena_roomy [OF built(1) block opened(2,3)]] nodes
    by (simp add: names)
  then show ?thesis
    using built(4) plain(2) by (simp add: pod_memory_def)
qed

definition example_arena_pod :: "(pool_error, unit WorkerPod) ctor" where
  "example_arena_pod =
     make_pod (\<lambda>al n. 4096) (Some 1) 17 () (example_runtime :: unit ort_runtime) LUMEN_ARENA"

lemma example_arena_pod_built: "\<exists>pod. example_arena_pod = Built pod"
proof -
  have "case example_arena_pod of Built pod \<Rightarrow> True | _ \<Rightarrow> False"
    by code_simp
  then show ?thesis
    by (auto split: ctor.splits)
qed

lemma example_runtime_interface: "opens_through_interface example_runtime"
  by (auto simp: opens_through_interface_def example_runtime_def life_start_def intro!: exI [of _ "[]"])

theorem allocator_choice_keeps_shapes_witness:
  "\<exists>pod. example_arena_pod = Built pod \<and>
     engine_shapes (engine pod) (pod_memory (allocator pod)) = Some ([1, 3, 1, 2], [1, 2])"
proof -
  obtain pod where pod: "example_arena_pod = Built pod"
    using example_arena_pod_built by blast
  have "engine_shapes (engine pod) (pod_memory (allocator pod)) =
      engine_shapes (engine example_pod) (pod_memory (allocator example_pod))"
    by (rule allocator_choice_keeps_shapes [OF pod [unfolded example_arena_pod_def] example_runtime_pod _ _ example_runtime_interface])
      (simp_all add: arena_capacity_def block_size_def safety_margin_def sane_nodes_def short_node_def example_pod_def example_engine_def)
  then show ?thesis
    using pod by (intro exI [of _ pod]) (simp add: example_pod_def)
qed

end
