(* ===== verification/Deployment.thy ===== *)
theory Deployment
  imports Service Pool_Lifecycle
begin

section \<open>The server and the pool together\<close>

text \<open>
  The program as it runs: the server thread with its event loop and the worker threads of the
  pool with their phases, on the same two queues. \<^verbatim>\<open>Server_System\<close> abstracts from the workers: a
  bag of tasks in hand, each answered at some time. Here each worker has its own pod and batch,
  takes tasks through \<^verbatim>\<open>pop_batch\<close> with the configured batch size, parks and is woken. Every run of
  this system is a run of the abstract one, so what is proved of the service holds of it.
\<close>

subsection \<open>The concrete system\<close>

record ('q, 'h) deployment =
  front_end :: "'q lumen_system"
  back_end :: "('q, NaiveResultQueue, 'h) pool_sys"

text \<open>The server thread alone: with no batch and no answer, the workers' steps cannot happen.\<close>

abbreviation server_step ::
  "(InferenceTask \<Rightarrow> 'q \<Rightarrow> (bool \<times> 'q) call) \<Rightarrow> 'q lumen_system \<Rightarrow> 'q lumen_system \<Rightarrow> bool" where
  "server_step psh \<equiv> system_step psh (\<lambda>_ _ _. Waits) (\<lambda>_ _. False)"

text \<open>The queues are shared: what one side does to them is what the other side sees.\<close>

definition pool_sees :: "'q lumen_system \<Rightarrow> ('q, NaiveResultQueue, 'h) pool_sys \<Rightarrow> ('q, NaiveResultQueue, 'h) pool_sys" where
  "pool_sees \<sigma> s =
     s\<lparr>the_pool := (the_pool s)\<lparr>task_queue := fst (srv_tasks (server \<sigma>)), response_queue := srv_results (server \<sigma>)\<rparr>\<rparr>"

definition server_sees :: "('q, NaiveResultQueue, 'h) pool_sys \<Rightarrow> 'q lumen_system \<Rightarrow> 'q lumen_system" where
  "server_sees s \<sigma> =
     \<sigma>\<lparr>server := (server \<sigma>)\<lparr>srv_tasks := (task_queue (the_pool s), snd (srv_tasks (server \<sigma>))),
                          srv_results := response_queue (the_pool s)\<rparr>\<rparr>"

text \<open>A response is a \<^verbatim>\<open>std::string\<close>, so its length is a \<^verbatim>\<open>size_t\<close>.\<close>

definition results_fit :: "NaiveResultQueue \<Rightarrow> bool" where
  "results_fit rq \<longleftrightarrow> (\<forall>r \<in> set (rq_data rq). length (response r) < 18446744073709551616)"

inductive deployed_step ::
  "(InferenceTask \<Rightarrow> 'q \<Rightarrow> (bool \<times> 'q) call) \<Rightarrow>
   (InferenceTask list \<Rightarrow> size_t \<Rightarrow> 'q \<Rightarrow> (size_t \<times> InferenceTask list \<times> 'q) call) \<Rightarrow> 'h pod_env \<Rightarrow> size_t \<Rightarrow>
   ('q, 'h) deployment \<Rightarrow> ('q, 'h) deployment \<Rightarrow> bool"
  for psh bat env bs where
  serve: "server_step psh (front_end d) \<sigma> \<Longrightarrow>
     deployed_step psh bat env bs d \<lparr>front_end = \<sigma>, back_end = pool_sees \<sigma> (back_end d)\<rparr>"
| work: "i < length (phases (back_end d)) \<Longrightarrow> worker_step bat rq_push env bs t0 clk i (back_end d) = Some s \<Longrightarrow>
     results_fit (response_queue (the_pool s)) \<Longrightarrow>
     deployed_step psh bat env bs d \<lparr>front_end = server_sees s (front_end d), back_end = s\<rparr>"
| wakeup: "i < length (phases (back_end d)) \<Longrightarrow> phases (back_end d) ! i = Parked \<Longrightarrow>
     deployed_step psh bat env bs d (d\<lparr>back_end := set_phase i Popping (back_end d)\<rparr>)"

definition deployment_start :: "('q \<times> InferenceTask list) TCPServer \<Rightarrow> ('q, NaiveResultQueue, 'h) ThreadPool \<Rightarrow>
    ('q, 'h) deployment" where
  "deployment_start srv pool = \<lparr>front_end = system_start srv, back_end = pool_sys_start pool\<rparr>"


subsection \<open>Refinement\<close>

text \<open>The tasks a worker has taken and not answered.\<close>

definition batch_of :: "worker_phase \<Rightarrow> InferenceTask list" where
  "batch_of ph = (case ph of Busy ts \<Rightarrow> ts | _ \<Rightarrow> [])"

lemma batch_of_simps [simp]:
  "batch_of Testing = []" "batch_of Popping = []" "batch_of Parked = []" "batch_of Quit = []" "batch_of (Busy ts) = ts"
  by (simp_all add: batch_of_def)

definition batches :: "('q, 'r, 'h) pool_sys \<Rightarrow> InferenceTask multiset" where
  "batches s = (\<Sum>ph \<leftarrow> phases s. mset (batch_of ph))"

lemma batches_set_phase:
  assumes "i < length (phases s)"
  shows "batches (set_phase i ph s) + mset (batch_of (phases s ! i)) = batches s + mset (batch_of ph)"
proof -
  have "phases s = take i (phases s) @ phases s ! i # drop (Suc i) (phases s)"
    by (rule id_take_nth_drop [OF assms])
  then have "batches s = (\<Sum>ph \<leftarrow> take i (phases s) @ phases s ! i # drop (Suc i) (phases s). mset (batch_of ph))"
    unfolding batches_def by simp
  moreover have "phases (set_phase i ph s) = take i (phases s) @ ph # drop (Suc i) (phases s)"
    using assms by (simp add: set_phase_def upd_conv_take_nth_drop)
  ultimately show ?thesis
    by (simp add: batches_def ac_simps)
qed

text \<open>The abstract state has the same server, and in hand what the workers have taken.\<close>

definition refines :: "('q, 'h) deployment \<Rightarrow> 'q lumen_system \<Rightarrow> bool" where
  "refines d \<tau> \<longleftrightarrow>
     server \<tau> = server (front_end d) \<and> at_phase \<tau> = at_phase (front_end d) \<and> mset (in_hand \<tau>) = batches (back_end d) \<and>
     task_queue (the_pool (back_end d)) = fst (srv_tasks (server (front_end d))) \<and>
     response_queue (the_pool (back_end d)) = srv_results (server (front_end d))"

lemma refines_start:
  assumes "task_queue pool = fst (srv_tasks srv)" "response_queue pool = srv_results srv"
  shows "refines (deployment_start srv pool) (system_start srv)"
  using assms by (simp add: refines_def deployment_start_def system_start_def pool_sys_start_def batches_def comp_def)

lemma in_hand_last:
  "\<sigma>\<lparr>in_hand := h, server := x\<rparr> = \<sigma>\<lparr>server := x, in_hand := h\<rparr>"
  "\<sigma>\<lparr>in_hand := h, at_phase := y\<rparr> = \<sigma>\<lparr>at_phase := y, in_hand := h\<rparr>"
  by (cases \<sigma>; simp)+

lemma server_step_in_hand:
  assumes "server_step psh \<sigma> \<sigma>'"
  shows "system_step psh bat work (\<sigma>\<lparr>in_hand := h\<rparr>) (\<sigma>'\<lparr>in_hand := h\<rparr>)"
  using assms
proof (cases rule: system_step.cases)
  case (respond r q t)
  then show ?thesis
    using system_step.respond [of "\<sigma>\<lparr>in_hand := h\<rparr>" r q psh bat work t] by (simp add: in_hand_last)
next
  case (drained q srv1)
  then show ?thesis
    using system_step.drained [of "\<sigma>\<lparr>in_hand := h\<rparr>" q srv1 psh bat work] by (simp add: in_hand_last)
next
  case (poll_idle net)
  then show ?thesis
    using system_step.poll_idle [of "\<sigma>\<lparr>in_hand := h\<rparr>" net psh bat work] by (simp add: in_hand_last)
next
  case (poll_ready net)
  then show ?thesis
    using system_step.poll_ready [of "\<sigma>\<lparr>in_hand := h\<rparr>" net psh bat work] by (simp add: in_hand_last)
next
  case (serve i n net gone srv1)
  then show ?thesis
    using system_step.serve [of "\<sigma>\<lparr>in_hand := h\<rparr>" i n net psh gone srv1 bat work] by (simp add: in_hand_last)
next
  case (served i)
  then show ?thesis
    using system_step.served [of "\<sigma>\<lparr>in_hand := h\<rparr>" i psh bat work] by (simp add: in_hand_last)
qed auto

text \<open>A worker that neither takes nor answers a task changes nothing the service sees.\<close>

lemma refines_idle:
  assumes "refines \<lparr>front_end = \<sigma>, back_end = s\<rparr> \<tau>" "i < length (phases s)" "batch_of ph = batch_of (phases s ! i)"
  shows "refines \<lparr>front_end = server_sees (set_phase i ph s) \<sigma>, back_end = set_phase i ph s\<rparr> \<tau>"
  using assms batches_set_phase [OF assms(2), of ph] by (simp add: refines_def server_sees_def set_phase_def)

lemma take_refines:
  assumes ref: "refines \<lparr>front_end = \<sigma>, back_end = s\<rparr> \<tau>" and i: "i < length (phases s)" "batch_of (phases s ! i) = []"
    and ret: "bat [] bs (task_queue (the_pool s)) = Returns (n, ts, q')" and ph: "batch_of ph = ts"
  defines "s' \<equiv> set_phase i ph (s\<lparr>the_pool := (the_pool s)\<lparr>task_queue := q'\<rparr>\<rparr>)"
  shows "\<exists>\<tau>'. system_step psh bat work \<tau> \<tau>' \<and> refines \<lparr>front_end = server_sees s' \<sigma>, back_end = s'\<rparr> \<tau>'"
proof -
  obtain q h where st: "srv_tasks (server \<tau>) = (q, h)"
    by fastforce
  then have q: "q = task_queue (the_pool s)" "srv_tasks (server \<sigma>) = (q, h)"
    using ref by (simp_all add: refines_def)
  have "batches s' = batches s + mset ts"
    using batches_set_phase [of i "s\<lparr>the_pool := (the_pool s)\<lparr>task_queue := q'\<rparr>\<rparr>" ph] i ph
    by (simp add: s'_def batches_def)
  then have "refines \<lparr>front_end = server_sees s' \<sigma>, back_end = s'\<rparr>
      (\<tau>\<lparr>server := (server \<tau>)\<lparr>srv_tasks := (q', h)\<rparr>, in_hand := in_hand \<tau> @ ts\<rparr>)"
    using ref q(2) by (simp add: refines_def server_sees_def s'_def set_phase_def)
  then show ?thesis
    using system_step.worker_takes [where bat = bat and m = bs, OF st ret [folded q(1)]] by blast
qed

lemma answer_refines:
  assumes ref: "refines \<lparr>front_end = \<sigma>, back_end = s\<rparr> \<tau>" and i: "i < length (phases s)" "phases s ! i = Busy (t # ts)"
    and r: "work t r"
    and s'_def: "s' = set_phase i (Busy ts) (s\<lparr>the_pool := (the_pool s)\<lparr>worker_pods := pods',
      response_queue := rq_push r (response_queue (the_pool s))\<rparr>\<rparr>)"
  shows "\<exists>\<tau>'. system_step psh bat work \<tau> \<tau>' \<and> refines \<lparr>front_end = server_sees s' \<sigma>, back_end = s'\<rparr> \<tau>'"
proof -
  have b: "batches s = batches s' + {#t#}"
    using batches_set_phase [of i "s\<lparr>the_pool := (the_pool s)\<lparr>worker_pods := pods',
      response_queue := rq_push r (response_queue (the_pool s))\<rparr>\<rparr>" "Busy ts"] i
    by (simp add: s'_def batches_def)
  then have "t \<in># mset (in_hand \<tau>)"
    using ref by (simp add: refines_def)
  then obtain xs ys where hand: "in_hand \<tau> = xs @ t # ys"
    by (metis set_mset_mset split_list)
  then have "mset (xs @ ys) = batches s'"
    using ref b by (simp add: refines_def)
  then have "refines \<lparr>front_end = server_sees s' \<sigma>, back_end = s'\<rparr>
      (\<tau>\<lparr>server := (server \<tau>)\<lparr>srv_results := rq_push r (srv_results (server \<tau>))\<rparr>, in_hand := xs @ ys\<rparr>)"
    using ref by (simp add: refines_def server_sees_def s'_def set_phase_def)
  then show ?thesis
    using system_step.worker_answers [where work = work, OF hand r] by blast
qed

text \<open>
  A service whose answers are those of the pods. What is \<open>good\<close> for a worker's pod is kept by every
  task it serves and says what its answers are. A step of a worker is then an abstract step that
  takes a batch or answers a task, or none at all.
\<close>

locale lumen_deployment = lumen_service push pop pop_batch shutdown contents accepts inv work
  for push :: "InferenceTask \<Rightarrow> 'q \<Rightarrow> (bool \<times> 'q) call"
    and pop :: "'q \<Rightarrow> (InferenceTask option \<times> 'q) call"
    and pop_batch :: "InferenceTask list \<Rightarrow> size_t \<Rightarrow> 'q \<Rightarrow> (size_t \<times> InferenceTask list \<times> 'q) call"
    and shutdown :: "'q \<Rightarrow> 'q"
    and contents :: "'q \<Rightarrow> InferenceTask list"
    and accepts :: "'q \<Rightarrow> bool"
    and inv :: "'q \<Rightarrow> bool"
    and work :: "InferenceTask \<Rightarrow> InferenceResult \<Rightarrow> bool" +
  fixes env :: "'h pod_env"
    and good :: "nat \<Rightarrow> 'h WorkerPod \<Rightarrow> bool"
  assumes serves: "good i pod \<Longrightarrow> serve_task env rq_push t0 clk t (pod, rq) = Some (pod', rq') \<Longrightarrow> results_fit rq' \<Longrightarrow>
      good i pod' \<and> (\<exists>r. rq' = rq_push r rq \<and> work t r)"
begin

definition pods_good :: "('q, NaiveResultQueue, 'h) pool_sys \<Rightarrow> bool" where
  "pods_good s \<longleftrightarrow> length (phases s) = length (worker_pods (the_pool s)) \<and>
     (\<forall>i < length (phases s). good i (worker_pods (the_pool s) ! i))"

lemma pods_good_set_phase [simp]: "pods_good (set_phase i ph s) = pods_good s"
  by (simp add: pods_good_def set_phase_def)

lemma pods_good_tasks [simp]: "pods_good (s\<lparr>the_pool := (the_pool s)\<lparr>task_queue := q\<rparr>\<rparr>) = pods_good s"
  by (simp add: pods_good_def)

lemma pods_good_sees [simp]: "pods_good (pool_sees \<sigma> s) = pods_good s"
  by (simp add: pods_good_def pool_sees_def)

lemma pods_good_start:
  "(\<And>i. i < length (worker_pods p) \<Longrightarrow> good i (worker_pods p ! i)) \<Longrightarrow> pods_good (pool_sys_start p)"
  by (simp add: pods_good_def pool_sys_start_def)

lemma worker_step_refines:
  assumes step: "worker_step pop_batch rq_push env bs t0 clk i s = Some s'" and i: "i < length (phases s)"
    and fit: "results_fit (response_queue (the_pool s'))"
    and ref: "refines \<lparr>front_end = \<sigma>, back_end = s\<rparr> \<tau>" and q: "inv (task_queue (the_pool s))" and pods: "pods_good s"
  shows "pods_good s' \<and> (\<exists>\<tau>'. (system_step push pop_batch work)\<^sup>*\<^sup>* \<tau> \<tau>' \<and>
    refines \<lparr>front_end = server_sees s' \<sigma>, back_end = s'\<rparr> \<tau>')"
proof (cases "phases s ! i")
  case Testing
  then show ?thesis
    using step pods refines_idle [OF ref i] by (auto simp: worker_step_def Let_def intro!: exI [of _ \<tau>])
next
  case Popping
  show ?thesis
  proof (cases "pop_batch [] bs (task_queue (the_pool s))")
    case Waits
    then show ?thesis
      using step pods refines_idle [OF ref i, of Parked] Popping by (auto simp: worker_step_def Let_def intro!: exI [of _ \<tau>])
  next
    case (Returns x)
    obtain n ts q' where ret: "pop_batch [] bs (task_queue (the_pool s)) = Returns (n, ts, q')"
      using Returns by (cases x) auto
    have "batch_of (if n = 0 then Testing else Busy ts) = ts"
      using pop_batch_returns(2) [OF q ret] by auto
    from take_refines [where bat = pop_batch and bs = bs, OF ref i _ ret this, of push work] show ?thesis
      using step pods Popping ret by (auto simp: worker_step_def Let_def)
  qed
next
  case (Busy ts)
  show ?thesis
  proof (cases ts)
    case Nil
    then show ?thesis
      using step pods refines_idle [OF ref i, of Testing] Busy by (auto simp: worker_step_def Let_def intro!: exI [of _ \<tau>])
  next
    case (Cons t rest)
    then obtain pod' rq' where served: "serve_task env rq_push t0 clk t (worker_pods (the_pool s) ! i, response_queue (the_pool s)) = Some (pod', rq')"
      and s': "s' = set_phase i (Busy rest) (s\<lparr>the_pool := (the_pool s)\<lparr>worker_pods := (worker_pods (the_pool s))[i := pod'],
        response_queue := rq'\<rparr>\<rparr>)"
      using step Busy by (auto simp: worker_step_def Let_def split: option.splits)
    have "good i (worker_pods (the_pool s) ! i)"
      using pods i by (simp add: pods_good_def)
    then obtain r where "good i pod'" "rq' = rq_push r (response_queue (the_pool s))" "work t r"
      using serves [OF _ served] fit s' by (auto simp: set_phase_def)
    moreover from this have "pods_good s'"
      using pods i unfolding s' by (auto simp: pods_good_def set_phase_def nth_list_update)
    ultimately show ?thesis
      using answer_refines [OF ref i Busy [unfolded Cons], of work r s' _ push pop_batch] s' by blast
  qed
qed (use step in \<open>auto simp: worker_step_def Let_def\<close>)

lemma deployed_step_refines:
  assumes "deployed_step push pop_batch env bs d d'" and ref: "refines d \<tau>"
    and inv: "system_inv contents inv work \<tau>" and pods: "pods_good (back_end d)"
  shows "pods_good (back_end d') \<and> (\<exists>\<tau>'. (system_step push pop_batch work)\<^sup>*\<^sup>* \<tau> \<tau>' \<and> refines d' \<tau>')"
  using assms(1)
proof (cases rule: deployed_step.cases)
  case (serve \<sigma>)
  have \<tau>: "\<tau> = (front_end d)\<lparr>in_hand := in_hand \<tau>\<rparr>"
    using ref by (cases \<tau>; cases "front_end d") (simp add: refines_def)
  have "system_step push pop_batch work ((front_end d)\<lparr>in_hand := in_hand \<tau>\<rparr>) (\<sigma>\<lparr>in_hand := in_hand \<tau>\<rparr>)"
    by (rule server_step_in_hand [OF serve(2)])
  then have "system_step push pop_batch work \<tau> (\<sigma>\<lparr>in_hand := in_hand \<tau>\<rparr>)"
    using \<tau> by simp
  moreover have "refines d' (\<sigma>\<lparr>in_hand := in_hand \<tau>\<rparr>)"
    using ref serve(1) by (simp add: refines_def pool_sees_def batches_def)
  ultimately show ?thesis
    using pods serve(1) by auto
next
  case (work i t0 clk s)
  have "refines \<lparr>front_end = front_end d, back_end = back_end d\<rparr> \<tau>" "inv (task_queue (the_pool (back_end d)))"
    using ref inv by (simp_all add: refines_def system_inv_def core_def)
  then show ?thesis
    using worker_step_refines [OF work(3,2,4)] pods work(1) by auto
next
  case (wakeup i)
  then have "refines d' \<tau>"
    using ref batches_set_phase [of i "back_end d" Popping] by (simp add: refines_def set_phase_def)
  then show ?thesis
    using pods wakeup(1) by auto
qed

text \<open>A state the running program reaches is one of the abstract service.\<close>

lemma deployed_run_refines:
  assumes "(deployed_step push pop_batch env bs)\<^sup>*\<^sup>* d d'" "refines d \<tau>" "system_inv contents inv work \<tau>" "pods_good (back_end d)"
  shows "pods_good (back_end d') \<and> (\<exists>\<tau>'. (system_step push pop_batch work)\<^sup>*\<^sup>* \<tau> \<tau>' \<and> refines d' \<tau>')"
  using assms
proof (induction rule: rtranclp_induct)
  case (step d1 d2)
  then obtain \<tau>1 where \<tau>1: "(system_step push pop_batch work)\<^sup>*\<^sup>* \<tau> \<tau>1" "refines d1 \<tau>1" "pods_good (back_end d1)"
    by blast
  then obtain \<tau>2 where "(system_step push pop_batch work)\<^sup>*\<^sup>* \<tau>1 \<tau>2" "refines d2 \<tau>2" "pods_good (back_end d2)"
    using deployed_step_refines [OF step.hyps(2) \<tau>1(2) steps_keep [OF \<tau>1(1)]] step.prems by blast
  then show ?case
    using \<tau>1(1) by (meson rtranclp_trans)
qed blast

end

text \<open>The engine of a pod gives the answers of the service.\<close>

lemma pods_serve:
  assumes "serve_task env rq_push t0 clk t (pod, rq) = Some (pod', rq')" "results_fit rq'"
  shows "True \<and> (\<exists>r. rq' = rq_push r rq \<and> pod_answers env t r)"
proof -
  obtain r pa where r: "pod_run env clk (stamp_wait t0 t) pod = (Finished r, pa)" "rq' = rq_push r rq"
    using assms(1) by (auto simp: serve_task_def split: prod.splits engine_outcome.splits)
  then have "length (response r) < 18446744073709551616"
    using assms(2) by (simp add: results_fit_def rq_push_def)
  then have "pod_answers env t r"
    unfolding pod_answers_def using r(1) by (metis fst_conv)
  then show ?thesis
    using r(2) by blast
qed

text \<open>
  The answers of a given pool: those of its pods, each in a state that serving tasks has brought
  it to.
\<close>

inductive pod_state :: "'h pod_env \<Rightarrow> 'h WorkerPod \<Rightarrow> 'h WorkerPod \<Rightarrow> bool" for env pod0 where
  built: "pod_state env pod0 pod0"
| served: "pod_state env pod0 pod \<Longrightarrow> serve_task env rq_push t0 clk t (pod, rq) = Some (pod', rq') \<Longrightarrow>
     pod_state env pod0 pod'"

definition pool_answers :: "'h pod_env \<Rightarrow> 'h WorkerPod list \<Rightarrow> InferenceTask \<Rightarrow> InferenceResult \<Rightarrow> bool" where
  "pool_answers env pods t r \<longleftrightarrow>
     (\<exists>i < length pods. \<exists>pod t0 clk. pod_state env (pods ! i) pod \<and>
        fst (pod_run env clk (stamp_wait t0 t) pod) = Finished r) \<and>
     length (response r) < 18446744073709551616"

lemma pool_answers_pod: "pool_answers env pods t r \<Longrightarrow> pod_answers env t r"
  by (auto simp: pool_answers_def pod_answers_def)

definition pod_of :: "'h pod_env \<Rightarrow> 'h WorkerPod list \<Rightarrow> nat \<Rightarrow> 'h WorkerPod \<Rightarrow> bool" where
  "pod_of env pods i pod \<longleftrightarrow> i < length pods \<and> pod_state env (pods ! i) pod"

lemma pool_serves:
  assumes "pod_of env pods i pod" "serve_task env rq_push t0 clk t (pod, rq) = Some (pod', rq')" "results_fit rq'"
  shows "pod_of env pods i pod' \<and> (\<exists>r. rq' = rq_push r rq \<and> pool_answers env pods t r)"
proof -
  obtain r pa where r: "pod_run env clk (stamp_wait t0 t) pod = (Finished r, pa)" "rq' = rq_push r rq"
    using assms(2) by (auto simp: serve_task_def split: prod.splits engine_outcome.splits)
  then have "length (response r) < 18446744073709551616"
    using assms(3) by (simp add: results_fit_def rq_push_def)
  then have "pool_answers env pods t r"
    unfolding pool_answers_def using r(1) assms(1) by (metis fst_conv pod_of_def)
  moreover have "pod_of env pods i pod'"
    using assms(1) pod_state.served [OF _ assms(2)] by (simp add: pod_of_def)
  ultimately show ?thesis
    using r(2) by blast
qed

interpretation ndp: lumen_deployment naive_push naive_pop naive_pop_batch naive_shutdown nq_data
  "\<lambda>_. True" "\<lambda>_. True" "pod_answers env" env "\<lambda>_ _. True" for env
  by (intro lumen_deployment.intro nsv.lumen_service_axioms lumen_deployment_axioms.intro pods_serve)

interpretation sdp: lumen_deployment spsc_push spsc_pop spsc_pop_batch spsc_shutdown spsc_contents
  spsc_accepts spsc_inv "pod_answers env" env "\<lambda>_ _. True" for env
  by (intro lumen_deployment.intro ssv.lumen_service_axioms lumen_deployment_axioms.intro pods_serve)

interpretation mdp: lumen_deployment mpmc_push mpmc_pop mpmc_pop_batch mpmc_shutdown mpmc_contents
  mpmc_accepts mpmc_inv "pod_answers env" env "\<lambda>_ _. True" for env
  by (intro lumen_deployment.intro msv.lumen_service_axioms lumen_deployment_axioms.intro pods_serve)


text \<open>What is under way, in the queues and with the workers, is what the service has outstanding.\<close>

definition under_way :: "('q \<Rightarrow> InferenceTask list) \<Rightarrow> ('q, 'h) deployment \<Rightarrow> int list" where
  "under_way cont d = outstanding cont (concat (map batch_of (phases (back_end d)))) (server (front_end d))"

lemma under_way_distinct:
  assumes "refines d \<tau>" "distinct (outstanding cont (in_hand \<tau>) (server \<tau>))"
  shows "distinct (under_way cont d)"
proof -
  have "mset (concat (map batch_of (phases (back_end d)))) = mset (in_hand \<tau>)"
    using assms(1) by (simp add: refines_def batches_def mset_concat comp_def)
  then have "mset (under_way cont d) = mset (outstanding cont (in_hand \<tau>) (server \<tau>))"
    using assms(1) by (simp add: under_way_def outstanding_def refines_def del: mset_concat)
  then show ?thesis
    using mset_eq_imp_distinct_iff assms(2) by blast
qed


subsection \<open>A sample run\<close>

text \<open>The server's part of a run: the pool sees the queues it leaves.\<close>

lemma server_run_deployed:
  assumes "(server_step psh)\<^sup>*\<^sup>* \<sigma> \<sigma>'" "pool_sees \<sigma> s = s"
  shows "(deployed_step psh bat env bs)\<^sup>*\<^sup>* \<lparr>front_end = \<sigma>, back_end = s\<rparr> \<lparr>front_end = \<sigma>', back_end = pool_sees \<sigma>' s\<rparr>"
  using assms
proof (induction rule: rtranclp_induct)
  case (step \<sigma>1 \<sigma>2)
  have "pool_sees \<sigma>2 (pool_sees \<sigma>1 s) = pool_sees \<sigma>2 s"
    by (simp add: pool_sees_def)
  then have "deployed_step psh bat env bs \<lparr>front_end = \<sigma>1, back_end = pool_sees \<sigma>1 s\<rparr> \<lparr>front_end = \<sigma>2, back_end = pool_sees \<sigma>2 s\<rparr>"
    using deployed_step.serve [where d = "\<lparr>front_end = \<sigma>1, back_end = pool_sees \<sigma>1 s\<rparr>"] step.hyps(2) by fastforce
  then show ?case
    using step by (meson rtranclp.rtrancl_into_rtrancl)
qed simp

lemma deployed_work:
  assumes "worker_step bat rq_push env bs t0 clk i s = Some s'" "i < length (phases s)" "results_fit (response_queue (the_pool s'))"
  shows "deployed_step psh bat env bs \<lparr>front_end = \<sigma>, back_end = s\<rparr> \<lparr>front_end = server_sees s' \<sigma>, back_end = s'\<rparr>"
  using deployed_step.work [where d = "\<lparr>front_end = \<sigma>, back_end = s\<rparr>" and psh = psh, OF _ _ assms(3)] assms(1,2) by simp

lemma sample_serves:
  "serve_task example_env rq_push 0 (\<lambda>_. 0) sample_task (example_pod, rq) =
     Some (example_pod, rq_push (new_result 7 payload_error (task_trace (stamp_wait 0 sample_task))) rq)"
  by (simp add: serve_task_def pod_run_def engine_run_def example_pod_def stamp_wait_def sample_task_def element_count_def
      new_task_def pod_reset_def)

text \<open>A client connects and sends a request; the first worker takes it and answers; the server hands the answer over.\<close>

lemma sample_deployed:
  assumes push: "psh sample_task q = Returns (ok, q')" and batch: "bat [] 1 q' = Returns (k, [sample_task], q'')" "k \<noteq> 0"
    and p: "task_queue p = q" "response_queue p = rq_new" "worker_pods p = example_pod # pods" "\<not> stop p"
  shows "\<exists>d s. (deployed_step psh bat example_env 1)\<^sup>*\<^sup>* (deployment_start (start_server q) p) d \<and>
     sessions (server (front_end d)) 7 = Some s \<and> state s = RESPONSE_SENDING \<and> response_buffer s = payload_error"
proof -
  let ?D = "deployed_step psh bat example_env 1"
  let ?r = "new_result 7 payload_error (task_trace (stamp_wait 0 sample_task))"
  let ?\<sigma>1 = "system_start (waiting_server q')"
  let ?s0 = "pool_sys_start p" and ?p1 = "p\<lparr>task_queue := q', response_queue := rq_new\<rparr>"
  let ?s1 = "?s0\<lparr>the_pool := ?p1\<rparr>"
  let ?s2 = "set_phase 0 Popping ?s1"
  let ?s3 = "set_phase 0 (Busy [sample_task]) (?s2\<lparr>the_pool := ?p1\<lparr>task_queue := q''\<rparr>\<rparr>)"
  let ?s4 = "set_phase 0 (Busy []) (?s3\<lparr>the_pool := (the_pool ?s3)\<lparr>response_queue := rq_push ?r rq_new\<rparr>\<rparr>)"
  let ?\<sigma>4 = "server_sees ?s4 (server_sees ?s3 (server_sees ?s2 ?\<sigma>1))"
  have read: "(server_step psh)\<^sup>*\<^sup>* (system_start (start_server q)) ?\<sigma>1"
    by (rule exec_run_sound [where guard = "\<lambda>_. True", OF sample_read(1) [where psh = psh, OF push]
        sample_read(2) [where psh = psh, OF push]]) simp_all
  have "pool_sees ?\<sigma>1 ?s0 = ?s1" "pool_sees (system_start (start_server q)) ?s0 = ?s0"
    using p by (simp_all add: pool_sees_def system_start_def start_server_def waiting_server_def pool_sys_start_def)
  then have one: "?D\<^sup>*\<^sup>* (deployment_start (start_server q) p) \<lparr>front_end = ?\<sigma>1, back_end = ?s1\<rparr>"
    using server_run_deployed [OF read, of ?s0] by (simp add: deployment_start_def)
  have fit: "results_fit rq_new" "results_fit (rq_push ?r rq_new)"
    by (simp_all add: results_fit_def rq_push_def rq_new_def payload_error_def)
  have w: "worker_step bat rq_push example_env 1 0 (\<lambda>_. 0) 0 ?s1 = Some ?s2"
    "worker_step bat rq_push example_env 1 0 (\<lambda>_. 0) 0 ?s2 = Some ?s3"
    "worker_step bat rq_push example_env 1 0 (\<lambda>_. 0) 0 ?s3 = Some ?s4"
    using p batch by (simp_all add: worker_step_def set_phase_def pool_sys_start_def sample_serves)
  have len: "0 < length (phases ?s1)" "0 < length (phases ?s2)" "0 < length (phases ?s3)"
    using p(3) by (simp_all add: pool_sys_start_def set_phase_def)
  have two: "?D\<^sup>*\<^sup>* \<lparr>front_end = ?\<sigma>1, back_end = ?s1\<rparr> \<lparr>front_end = ?\<sigma>4, back_end = ?s4\<rparr>"
  proof (rule rtranclp_trans [OF r_into_rtranclp rtranclp_trans [OF r_into_rtranclp r_into_rtranclp]])
    show "?D \<lparr>front_end = ?\<sigma>1, back_end = ?s1\<rparr> \<lparr>front_end = server_sees ?s2 ?\<sigma>1, back_end = ?s2\<rparr>"
      using fit by (intro deployed_work [OF w(1) len(1)]) (simp add: set_phase_def)
    show "?D \<lparr>front_end = server_sees ?s2 ?\<sigma>1, back_end = ?s2\<rparr> \<lparr>front_end = server_sees ?s3 (server_sees ?s2 ?\<sigma>1), back_end = ?s3\<rparr>"
      using fit by (intro deployed_work [OF w(2) len(2)]) (simp add: set_phase_def)
    show "?D \<lparr>front_end = server_sees ?s3 (server_sees ?s2 ?\<sigma>1), back_end = ?s3\<rparr> \<lparr>front_end = ?\<sigma>4, back_end = ?s4\<rparr>"
      using fit by (intro deployed_work [OF w(3) len(3)]) (simp add: set_phase_def)
  qed
  obtain \<sigma>5 s where \<sigma>5: "exec_run psh (\<lambda>_ _ _. Waits) [Respond 0] ?\<sigma>4 = Some \<sigma>5" "sessions (server \<sigma>5) 7 = Some s"
      "state s = RESPONSE_SENDING" "response_buffer s = payload_error"
    by (simp add: server_sees_def set_phase_def system_start_def waiting_server_def start_server_def rq_new_def rq_push_def
        rq_pop_immediate_def deliver_def Let_def put_session_def stamp_wait_def sample_task_def new_task_def)
  have "run_ok psh (\<lambda>_ _ _. Waits) (\<lambda>_ _. False) (\<lambda>_. True) [Respond 0] ?\<sigma>4"
    by (simp add: choice_ok_def split: option.split)
  then have "(server_step psh)\<^sup>*\<^sup>* ?\<sigma>4 \<sigma>5"
    by (rule exec_run_sound [OF \<sigma>5(1)])
  moreover have "pool_sees ?\<sigma>4 ?s4 = ?s4"
    by (simp add: pool_sees_def server_sees_def set_phase_def)
  ultimately have "?D\<^sup>*\<^sup>* \<lparr>front_end = ?\<sigma>4, back_end = ?s4\<rparr> \<lparr>front_end = \<sigma>5, back_end = pool_sees \<sigma>5 ?s4\<rparr>"
    by (rule server_run_deployed)
  then have "?D\<^sup>*\<^sup>* (deployment_start (start_server q) p) \<lparr>front_end = \<sigma>5, back_end = pool_sees \<sigma>5 ?s4\<rparr>"
    by (rule rtranclp_trans [OF rtranclp_trans [OF one two]])
  then show ?thesis
    using \<sigma>5(2-4) by (intro exI [of _ "\<lparr>front_end = \<sigma>5, back_end = pool_sees \<sigma>5 ?s4\<rparr>"] exI [of _ s]) simp
qed


subsection \<open>Properties\<close>

text \<open>
  C16: the workers of the service abstract the threads of the pool: every run of the server thread
  and the pool's workers on the mutex queue, with their tests of the flag, parking, wake-ups,
  batches of any size and pods, is a run of the abstract service, in which the server is in the
  same state and the tasks in hand are those in the workers' batches.
\<close>

theorem workers_refine_service:
  assumes new: "server_new addrs listens stale (naive_new, []) rq_new pr po = (cl, Inr srv)"
    and pool: "task_queue pool = naive_new" "response_queue pool = rq_new"
    and run: "(deployed_step naive_push naive_pop_batch env bs)\<^sup>*\<^sup>* (deployment_start srv pool) d"
  shows "\<exists>\<tau>. (system_step naive_push naive_pop_batch (pod_answers env))\<^sup>*\<^sup>* (system_start srv) \<tau> \<and>
    server \<tau> = server (front_end d) \<and> at_phase \<tau> = at_phase (front_end d) \<and>
    mset (in_hand \<tau>) = mset (concat (map batch_of (phases (back_end d))))"
proof -
  have "system_inv nq_data (\<lambda>_. True) (pod_answers env) (system_start srv)"
    by (rule naive_system_inv [OF new]) (simp_all add: naive_new_def)
  moreover have "refines (deployment_start srv pool) (system_start srv)"
    using new pool by (intro refines_start) (auto simp: server_new_def split: option.splits prod.splits if_splits)
  ultimately obtain \<tau> where "(system_step naive_push naive_pop_batch (pod_answers env))\<^sup>*\<^sup>* (system_start srv) \<tau>" "refines d \<tau>"
    using ndp.deployed_run_refines [OF run] ndp.pods_good_start [of pool] by (auto simp: deployment_start_def)
  then show ?thesis
    by (auto simp: refines_def batches_def mset_concat comp_def)
qed

definition example_pool :: "(NaiveTaskQueue, NaiveResultQueue, unit) ThreadPool" where
  "example_pool =
     \<lparr>task_queue = naive_new, response_queue = rq_new, worker_pods = [example_pod], joinable = [True], stop = False\<rparr>"

theorem workers_refine_service_witness:
  "\<exists>\<tau> s. (system_step naive_push naive_pop_batch (pod_answers example_env))\<^sup>*\<^sup>* (system_start (start_server naive_new)) \<tau> \<and>
     sessions (server \<tau>) 7 = Some s \<and> state s = RESPONSE_SENDING \<and> response_buffer s = payload_error"
proof -
  obtain d s where run: "(deployed_step naive_push naive_pop_batch example_env 1)\<^sup>*\<^sup>* (deployment_start (start_server naive_new) example_pool) d"
    "sessions (server (front_end d)) 7 = Some s" "state s = RESPONSE_SENDING" "response_buffer s = payload_error"
    using sample_deployed [where psh = naive_push and bat = naive_pop_batch, OF naive_sample, of example_pool "[]"]
    by (auto simp: example_pool_def)
  have pool: "task_queue example_pool = naive_new" "response_queue example_pool = rq_new"
    by (simp_all add: example_pool_def)
  from workers_refine_service [OF start_server_new pool run(1)] show ?thesis
    using run(2-4) by metis
qed

end
