(* ===== verification/Server_Replies.thy ===== *)
theory Server_Replies
  imports Server_Requests
begin

unbundle bit_operations_syntax

section \<open>Replies, refusals and construction\<close>

text \<open>
  How a response leaves the server in pieces, what happens to a request of length zero and to a
  connection accepted in the same iteration as another one closes, and what the constructor
  does with the sockets it opened.
\<close>

subsection \<open>Sending a response\<close>

text \<open>
  \<open>transmit\<close> runs the writable branch of the event loop while the response is incomplete; each time
  the kernel takes up to \<open>k + 1\<close> of the bytes offered. \<open>sent_to\<close> reads off the record of the wire
  what a connection was sent.
\<close>

fun transmit :: "net \<Rightarrow> int \<Rightarrow> nat list \<Rightarrow> 'q TCPServer \<Rightarrow> 'q TCPServer" where
  "transmit net fd [] srv = srv"
| "transmit net fd (k # ks) srv =
     (if state (session_of srv fd) \<noteq> RESPONSE_SENDING then srv
      else transmit net fd ks
             (snd (send_response (net\<lparr>send_ret := (\<lambda>fd n. (int (min (Suc k) n), False))\<rparr>) fd srv)))"

definition sent_to :: "int \<Rightarrow> 'q TCPServer \<Rightarrow> string" where
  "sent_to fd srv = concat (map snd (filter (\<lambda>p. fst p = fd) (wire srv)))"

lemma sent_to_put [simp]: "sent_to fd (put_session x s srv) = sent_to fd srv"
  by (simp add: sent_to_def put_session_def)

lemma sent_to_put_on_wire [simp]: "sent_to fd (put_on_wire fd b srv) = sent_to fd srv @ b"
  by (simp add: sent_to_def)

definition unsent :: "ClientSession \<Rightarrow> string" where
  "unsent s = drop (unat (bytes_sent s)) (response_buffer s)"

lemma length_unsent:
  assumes "session_ok s"
  shows "unat (of_nat (length (response_buffer s)) - bytes_sent s) = length (unsent s)"
proof -
  have "length (response_buffer s) < 18446744073709551616" "unat (bytes_sent s) \<le> length (response_buffer s)"
    using assms by (simp_all add: session_ok_def)
  then show ?thesis
    by (subst unat_diff_size_t) (simp_all add: unat_of_nat_size_t unsent_def)
qed

lemma send_step_cases:
  assumes ok: "session_ok s" and n: "n = min (Suc k) (length (unsent s))" "0 < n"
  obtains (all) "length (unsent s) \<le> Suc k"
      "send_step (int n) s = session_reset (s\<lparr>bytes_sent := of_nat (length (response_buffer s))\<rparr>)"
  | (part) x where "Suc k < length (unsent s)" "send_step (int n) s = s\<lparr>bytes_sent := x\<rparr>"
      "unsent (s\<lparr>bytes_sent := x\<rparr>) = drop (Suc k) (unsent s)" "session_ok (s\<lparr>bytes_sent := x\<rparr>)"
proof -
  let ?x = "bytes_sent s + of_int (int n)"
  have r: "length (response_buffer s) < 18446744073709551616" "unat (bytes_sent s) \<le> length (response_buffer s)"
    using ok by (simp_all add: session_ok_def)
  have pos: "0 < int n"
    using n(2) by simp
  have le: "int n \<le> int (unat (of_nat (length (response_buffer s)) - bytes_sent s))"
    unfolding length_unsent [OF ok] using n(1) by simp
  have cnt: "unat ?x = unat (bytes_sent s) + n"
    using sent_count(1) [OF ok pos le] by simp
  have full: "?x = of_nat (length (response_buffer s)) \<longleftrightarrow> n = length (unsent s)"
    unfolding eq_of_nat_iff [OF r(1)] cnt using r(2) by (auto simp: unsent_def)
  show thesis
  proof (cases "length (unsent s) \<le> Suc k")
    case True
    then have "?x = of_nat (length (response_buffer s))"
      using full n(1) by simp
    then show thesis
      using True by (intro all) (simp_all add: send_step_def Let_def del: of_int_of_nat_eq)
  next
    case False
    then have neq: "?x \<noteq> of_nat (length (response_buffer s))" and "n = Suc k"
      using full n(1) by simp_all
    then have "unsent (s\<lparr>bytes_sent := ?x\<rparr>) = drop (Suc k) (unsent s)"
      using cnt by (simp add: unsent_def add.commute del: of_int_of_nat_eq)
    moreover have eq: "send_step (int n) s = s\<lparr>bytes_sent := ?x\<rparr>"
      using neq by (simp add: send_step_def Let_def del: of_int_of_nat_eq)
    ultimately show thesis
      using False send_step_ok [OF ok pos le] by (intro part [of ?x]) simp_all
  qed
qed

lemma transmit_idle: "state (session_of srv fd) \<noteq> RESPONSE_SENDING \<Longrightarrow> transmit net fd ks srv = srv"
  by (cases ks) simp_all

text \<open>The session once all of the response is out.\<close>

definition all_sent :: "ClientSession \<Rightarrow> ClientSession" where
  "all_sent s = session_reset (s\<lparr>bytes_sent := of_nat (length (response_buffer s))\<rparr>)"

lemma all_sent_idle [simp]: "state (all_sent s) \<noteq> RESPONSE_SENDING"
  by (simp add: all_sent_def session_reset_def)

lemma all_sent_bytes [simp]: "all_sent (s\<lparr>bytes_sent := x\<rparr>) = all_sent s"
  by (simp add: all_sent_def)

lemma transmit_sends:
  "session_ok (session_of srv fd) \<Longrightarrow> state (session_of srv fd) = RESPONSE_SENDING \<Longrightarrow> unsent (session_of srv fd) \<noteq> [] \<Longrightarrow>
     length (unsent (session_of srv fd)) \<le> length ks \<Longrightarrow>
   sent_to fd (transmit net fd ks srv) = sent_to fd srv @ unsent (session_of srv fd) \<and>
   session_of (transmit net fd ks srv) fd = all_sent (session_of srv fd)"
proof (induction ks arbitrary: srv)
  case (Cons k ks)
  let ?s = "session_of srv fd"
  define n where "n = min (Suc k) (length (unsent ?s))"
  let ?net = "net\<lparr>send_ret := (\<lambda>fd n. (int (min (Suc k) n), False))\<rparr>"
  have n0: "0 < n"
    using Cons.prems(3) by (simp add: n_def)
  have "snd (send_response ?net fd srv) = put_session fd (send_step (int n) ?s) (put_on_wire fd (take n (unsent ?s)) srv)"
    unfolding send_response_eq length_unsent [OF Cons.prems(1)] using n0
    by (simp add: n_def unsent_def [symmetric])
  then have step: "transmit net fd (k # ks) srv =
      transmit net fd ks (put_session fd (send_step (int n) ?s) (put_on_wire fd (take n (unsent ?s)) srv))"
    using Cons.prems(2) by simp
  from Cons.prems(1) n_def n0 show ?case
  proof (cases rule: send_step_cases)
    case all
    then have "take n (unsent ?s) = unsent ?s"
      by (simp add: n_def)
    then show ?thesis
      unfolding step all(2) all_sent_def [symmetric] by (simp add: transmit_idle)
  next
    case (part x)
    then have "take n (unsent ?s) = take (Suc k) (unsent ?s)"
      by (simp add: n_def)
    then show ?thesis
      unfolding step part(2)
      using Cons.IH [of "put_session fd (?s\<lparr>bytes_sent := x\<rparr>) (put_on_wire fd (take (Suc k) (unsent ?s)) srv)"]
        part Cons.prems(2,4) by simp
  qed
qed simp

text \<open>
  C19: a response that is not empty reaches the client byte for byte. However small the pieces
  the kernel takes, as long as each \<^verbatim>\<open>send\<close> takes at least one byte, what the calls of \<^verbatim>\<open>send\<close> have
  put on the wire for the connection, one after the other, is the whole response, once; and when
  it is out the session is back at the start of a header, ready for the next request.
\<close>

theorem response_sent_exactly:
  assumes "session_ok (session_of srv fd)" "state (session_of srv fd) = RESPONSE_SENDING"
    "bytes_sent (session_of srv fd) = 0" "response_buffer (session_of srv fd) = txt" "txt \<noteq> ''''" "length txt \<le> length ks"
    and "srv' = transmit net fd ks srv"
  shows "sent_to fd srv' = sent_to fd srv @ txt \<and> session_ok (session_of srv' fd) \<and>
    state (session_of srv' fd) = HEADER_PENDING \<and> header_bytes_received (session_of srv' fd) = 0"
proof -
  have "unsent (session_of srv fd) = txt"
    using assms(3,4) by (simp add: unsent_def)
  then have "sent_to fd srv' = sent_to fd srv @ txt \<and> session_of srv' fd = all_sent (session_of srv fd)"
    using transmit_sends [OF assms(1,2), of ks net] assms(5-7) by simp
  moreover have "session_ok (all_sent (session_of srv fd))"
    using assms(1) by (simp add: all_sent_def session_ok_def session_reset_def unat_of_nat_size_t)
  ultimately show ?thesis
    by (simp add: all_sent_def session_reset_def)
qed

theorem response_sent_exactly_witness:
  "sent_to 7 (transmit sample_net 7 [0, 1]
     (put_session 7 (new_session\<lparr>state := RESPONSE_SENDING, response_buffer := ''ok''\<rparr>) sample_server)) = ''ok''"
proof -
  let ?s = "new_session\<lparr>state := RESPONSE_SENDING, response_buffer := ''ok''\<rparr>"
  have ok: "session_ok ?s" "state ?s = RESPONSE_SENDING" "bytes_sent ?s = 0" "response_buffer ?s = ''ok''"
    by (simp_all add: session_ok_def new_session_def)
  have "sent_to 7 sample_server = ''''"
    by (simp add: sent_to_def sample_server_def)
  then show ?thesis
    using response_sent_exactly [of "put_session 7 ?s sample_server" 7 "''ok''" "[0, 1]" _ sample_net, OF _ _ _ _ _ _ refl] ok
    by (simp del: transmit.simps)
qed


subsection \<open>Requests of length zero\<close>

text \<open>
  C39: a request that announces an empty body, with its four header bytes arriving in one receive,
  is an error: nothing is queued, and the next readable event closes the connection and forgets
  its session.
\<close>

theorem empty_request_closes:
  assumes "session_ok (session_of srv fd)" "state (session_of srv fd) = HEADER_PENDING"
    "header_bytes_received (session_of srv fd) = 0"
    and "recv_ret net fd 4 = Received (be32 0)" "srv1 = snd (handle_client_data psh net fd srv)"
    and "fd = pfd_fd (pollfds srv ! i)" "fd \<noteq> sockfd srv" "pfd_revents (pollfds srv ! i) AND POLLIN \<noteq> 0"
  shows "state (session_of srv1 fd) = BODY_PENDING \<and>
    service_entry psh net' i srv1 = (True, close_connection fd i srv1) \<and>
    sessions (close_connection fd i srv1) fd = None \<and> srv_tasks (close_connection fd i srv1) = srv_tasks srv"
proof -
  let ?s = "session_of srv fd"
  have w: "wanted ?s = 4"
    using assms(2,3) by (simp add: wanted_def)
  have srv1: "srv1 = put_session fd (header_step (be32 0) ?s) srv"
    unfolding assms(5) by (rule client_data_header [OF assms(2)]) (simp add: w assms(4))
  have h: "length (header_buffer ?s) = 4" "body_buffer ?s = []"
    using assms(1,2) by (simp_all add: session_ok_def)
  have s1: "state (header_step (be32 0) ?s) = BODY_PENDING" "body_buffer (header_step (be32 0) ?s) = []"
    using assms(3) h by (simp_all add: header_step_def Let_def write_at_def ntohl_be32 resize_def)
  have "handle_client_data psh net' fd srv1 = (-1, srv1)"
    using s1 by (simp add: handle_client_data_def Let_def process_body_def srv1)
  then have "service_entry psh net' i srv1 = (True, close_connection fd i srv1)"
    using assms(6-8) by (simp add: service_entry_def srv1 Let_def)
  then show ?thesis
    using s1 by (simp add: srv1 close_connection_def)
qed

definition readable_server :: "InferenceTask list TCPServer" where
  "readable_server =
     sample_server\<lparr>pollfds := map (\<lambda>p. p\<lparr>pfd_revents := POLLIN\<rparr>) (pollfds sample_server)\<rparr>"

theorem empty_request_closes_witness:
  "sessions (close_connection 7 1 (snd (handle_client_data list_push
     (sample_net\<lparr>recv_ret := \<lambda>fd n. Received (be32 0)\<rparr>) 7 readable_server))) 7 = None"
proof -
  let ?net = "sample_net\<lparr>recv_ret := \<lambda>fd n. Received (be32 0)\<rparr>"
  have s: "session_of readable_server 7 = new_session"
    by (simp add: readable_server_def sample_server_def session_of_def)
  have p: "7 = pfd_fd (pollfds readable_server ! 1)" "7 \<noteq> sockfd readable_server"
      "pfd_revents (pollfds readable_server ! 1) AND POLLIN \<noteq> 0"
    by (simp_all add: readable_server_def sample_server_def POLLIN_def)
  have n: "session_ok (session_of readable_server 7)" "state (session_of readable_server 7) = HEADER_PENDING"
      "header_bytes_received (session_of readable_server 7) = 0" "recv_ret ?net 7 4 = Received (be32 0)"
    unfolding s by simp_all (simp_all add: new_session_def)
  show ?thesis
    using empty_request_closes [OF n refl p, of list_push sample_net] by blast
qed


subsection \<open>A connection accepted while another one closes\<close>

definition busy_server :: "InferenceTask list TCPServer" where
  "busy_server =
     sample_server\<lparr>
       pollfds := pollfds sample_server @ [\<lparr>pfd_fd = 8, pfd_events = POLLIN, pfd_revents = 0\<rparr>],
       sessions := [7 \<mapsto> new_session, 8 \<mapsto> new_session]\<rparr>"

definition crossing_net :: net where
  "crossing_net =
     \<lparr>accept_ret = 9, recv_ret = (\<lambda>fd n. if fd = 7 then PeerClosed else RecvFailed True),
      send_ret = (\<lambda>fd n. (0, False)), poll_count = 2,
      poll_revents = (\<lambda>fd. if fd = 3 \<or> fd = 7 then POLLIN else 0), stale_revents = POLLIN, now = 0\<rparr>"

text \<open>
  The poll entry of a new connection is not initialised, and when another connection closes
  in the same iteration it can move into the part of the set that is still to be served. Then
  the server reads from the new connection, finds nothing, takes \<^verbatim>\<open>EAGAIN\<close> in the header for an
  error, and closes it: the client 9 has just connected and is gone, the client 8 is still there.
\<close>

theorem new_connection_closed_by_stale_events:
  "sessions (server_iteration list_push crossing_net busy_server) 9 = None \<and>
   closed_fds (server_iteration list_push crossing_net busy_server) = [7, 9] \<and>
   sessions (server_iteration list_push crossing_net busy_server) 8 \<noteq> None \<and> net_ok crossing_net"
proof -
  have r: "handle_responses crossing_net busy_server = busy_server"
    by (rule handle_responses_empty) (simp add: busy_server_def sample_server_def rq_new_def)
  have "server_iteration list_push crossing_net busy_server =
      service_loop list_push crossing_net 0 3 (do_poll crossing_net (update_events 1 2 busy_server))"
    unfolding server_iteration_def r Let_def
    by (simp add: crossing_net_def busy_server_def sample_server_def do_poll_def
        session_of_def put_session_def numeral_2_eq_2 numeral_3_eq_3 Let_def)
  moreover have "net_ok crossing_net"
    by (simp add: net_ok_def crossing_net_def recv_contract_def send_contract_def)
  ultimately show ?thesis
    by (simp add: crossing_net_def busy_server_def sample_server_def do_poll_def session_of_def put_session_def
        numeral_2_eq_2 numeral_3_eq_3 service_entry_def handle_new_connection_def handle_client_data_def process_header_def
        close_connection_def new_session_def POLLIN_def Let_def wanted_events_def)
qed


subsection \<open>Construction\<close>

text \<open>The candidates the constructor tries: all up to the first it can bind.\<close>

fun tried :: "candidate list \<Rightarrow> candidate list" where
  "tried [] = []"
| "tried (c # cs) =
     (if cand_socket c \<noteq> -1 \<and> cand_nonblock c \<and> cand_bind c then [c] else c # tried cs)"

definition opened :: "candidate list \<Rightarrow> int list" where
  "opened cs = filter (\<lambda>fd. fd \<noteq> -1) (map cand_socket (tried cs))"

lemma bind_first_opened:
  "fst (bind_first cs) @ (case snd (bind_first cs) of None \<Rightarrow> [] | Some fd \<Rightarrow> [fd]) = opened cs"
  by (induction cs) (auto simp: opened_def split: prod.splits option.splits)

text \<open>
  The constructor leaks no socket: when it fails it has closed every socket it opened, in
  order, and when it succeeds all but the one it listens on, which is the only entry of the
  poll set.
\<close>

theorem server_new_leaks_no_socket:
  assumes "server_new (Some cs) listens stale tq rq pr po = (cl, res)"
  shows "case res of
      Inl e \<Rightarrow> cl = opened cs \<and> e \<noteq> GetAddrInfo
    | Inr srv \<Rightarrow> cl @ [sockfd srv] = opened cs \<and> map pfd_fd (pollfds srv) = [sockfd srv] \<and> sessions srv = Map.empty"
  using assms bind_first_opened [of cs]
  by (auto simp: server_new_def split: prod.splits option.splits if_splits)

theorem server_new_leaks_no_socket_witness:
  "fst (server_new (Some [\<lparr>cand_socket = 3, cand_nonblock = True, cand_bind = False\<rparr>,
      \<lparr>cand_socket = 4, cand_nonblock = True, cand_bind = True\<rparr>]) False 0 () rq_new None None) = [3, 4]"
  using server_new_leaks_no_socket [of "[\<lparr>cand_socket = 3, cand_nonblock = True, cand_bind = False\<rparr>,
      \<lparr>cand_socket = 4, cand_nonblock = True, cand_bind = True\<rparr>]" False 0 "()" rq_new None None "[3, 4]" "Inl ListenFailed"]
  by (simp add: server_new_def opened_def)

end
