(* ===== verification/Server_Descriptors.thy ===== *)
theory Server_Descriptors
  imports Server_System Server_Replies
begin

section \<open>The descriptors of the server\<close>

text \<open>
  Where the descriptors of the server go over a whole run of its event loop: each one it was given
  by \<^verbatim>\<open>accept\<close> is either closed, once, or still in the poll set, which the destructor closes.
  \<open>descriptors\<close> counts both; one iteration adds exactly what it accepts.
\<close>

definition descriptors :: "'q TCPServer \<Rightarrow> int multiset" where
  "descriptors srv = mset (closed_fds srv) + mset (map pfd_fd (pollfds srv))"

text \<open>The listening socket is the first entry of the poll set and no other entry.\<close>

definition listener_first :: "'q TCPServer \<Rightarrow> bool" where
  "listener_first srv \<longleftrightarrow>
     pollfds srv \<noteq> [] \<and> pfd_fd (hd (pollfds srv)) = sockfd srv \<and> sockfd srv \<notin> pfd_fd ` set (tl (pollfds srv))"

lemma listener_first_cong:
  assumes "map pfd_fd (pollfds srv') = map pfd_fd (pollfds srv)" "sockfd srv' = sockfd srv"
  shows "listener_first srv' = listener_first srv"
proof -
  have "listener_first s \<longleftrightarrow> (case map pfd_fd (pollfds s) of [] \<Rightarrow> False | fd # fds \<Rightarrow> fd = sockfd s \<and> sockfd s \<notin> set fds)"
    for s :: "'q TCPServer"
    by (cases "pollfds s") (auto simp: listener_first_def)
  from this [of srv] this [of srv'] show ?thesis
    unfolding assms by simp
qed

lemma listener_index:
  "listener_first srv \<Longrightarrow> i < length (pollfds srv) \<Longrightarrow> pfd_fd (pollfds srv ! i) = sockfd srv \<longleftrightarrow> i = 0"
  by (cases "pollfds srv") (auto simp: listener_first_def nth_Cons split: nat.splits, metis image_eqI nth_mem)

text \<open>The handlers of a connection leave the poll set and the closed descriptors alone.\<close>

lemma put_session_closed [simp]: "closed_fds (put_session fd s srv) = closed_fds srv"
  by (simp add: put_session_def)

lemma finalize_request_fds [simp]:
  "pollfds (snd (finalize_request psh net fd srv)) = pollfds srv"
  "sockfd (snd (finalize_request psh net fd srv)) = sockfd srv"
  "closed_fds (snd (finalize_request psh net fd srv)) = closed_fds srv"
  by (simp_all add: finalize_request_def Let_def)

lemma process_header_fds [simp]:
  "pollfds (snd (process_header net fd srv)) = pollfds srv"
  "sockfd (snd (process_header net fd srv)) = sockfd srv"
  "closed_fds (snd (process_header net fd srv)) = closed_fds srv"
  by (simp_all add: process_header_def Let_def split: recv_result.split)

lemma process_body_fds [simp]:
  "pollfds (snd (process_body psh net fd srv)) = pollfds srv"
  "sockfd (snd (process_body psh net fd srv)) = sockfd srv"
  "closed_fds (snd (process_body psh net fd srv)) = closed_fds srv"
  by (simp_all add: process_body_def Let_def split: recv_result.split)

lemma client_data_fds:
  assumes "handle_client_data psh net fd srv = (r, srv')"
  shows "pollfds srv' = pollfds srv" "sockfd srv' = sockfd srv" "closed_fds srv' = closed_fds srv"
proof -
  have "srv' = snd (handle_client_data psh net fd srv)"
    by (simp add: assms)
  then show "pollfds srv' = pollfds srv" "sockfd srv' = sockfd srv" "closed_fds srv' = closed_fds srv"
    by (simp_all add: handle_client_data_def Let_def split: session_state.split)
qed

lemma send_response_fds:
  assumes "send_response net fd srv = (f, srv')"
  shows "pollfds srv' = pollfds srv" "sockfd srv' = sockfd srv" "closed_fds srv' = closed_fds srv"
  using assms by (auto simp: send_response_def Let_def split: prod.splits if_splits)

lemma deliver_fds [simp]:
  "pollfds (deliver t r srv) = pollfds srv" "sockfd (deliver t r srv) = sockfd srv"
  "closed_fds (deliver t r srv) = closed_fds srv"
  by (simp_all add: deliver_def Let_def split: option.split)

lemma handle_responses_fds [simp]:
  "pollfds (handle_responses net srv) = pollfds srv" "sockfd (handle_responses net srv) = sockfd srv"
  "closed_fds (handle_responses net srv) = closed_fds srv"
  using handle_responses_invariant [where P = "\<lambda>s. pollfds s = pollfds srv \<and> sockfd s = sockfd srv \<and> closed_fds s = closed_fds srv",
      of srv net] by simp_all

lemma map_update_same: "f y = f (xs ! i) \<Longrightarrow> map f (xs[i := y]) = map f xs"
  by (metis list_update_id map_update)

lemma update_events_fds [simp]:
  "map pfd_fd (pollfds (update_events i n srv)) = map pfd_fd (pollfds srv)"
  "sockfd (update_events i n srv) = sockfd srv" "closed_fds (update_events i n srv) = closed_fds srv"
  by (induction n arbitrary: i srv) (simp_all add: Let_def map_update_same)

text \<open>Closing moves a descriptor from the poll set to the closed ones.\<close>

lemma close_descriptors:
  assumes "i < length (pollfds srv)"
  shows "descriptors (close_connection fd i srv) = descriptors srv"
proof -
  obtain zs where zs: "butlast ((pollfds srv)[i := last (pollfds srv)]) = take i (pollfds srv) @ zs"
    "mset zs = mset (drop (Suc i) (pollfds srv))"
    using swap_remove [OF assms] by blast
  have "mset (map pfd_fd (pollfds srv)) =
      image_mset pfd_fd (mset (take i (pollfds srv) @ pollfds srv ! i # drop (Suc i) (pollfds srv)))"
    using id_take_nth_drop [OF assms] by simp
  then show ?thesis
    by (simp add: descriptors_def close_connection_def zs del: mset_map) (simp add: zs)
qed

lemma close_listener:
  assumes "listener_first srv" "0 < i" "i < length (pollfds srv)"
  shows "listener_first (close_connection fd i srv)"
proof -
  obtain zs where zs: "butlast ((pollfds srv)[i := last (pollfds srv)]) = take i (pollfds srv) @ zs"
    "mset zs = mset (drop (Suc i) (pollfds srv))"
    using swap_remove [OF assms(3)] by blast
  obtain p ps where p: "pollfds srv = p # ps"
    using assms(3) by (cases "pollfds srv") auto
  have "set zs = set (drop i ps)"
    using mset_eq_setD [OF zs(2)] p by simp
  then have "set (take (i - 1) ps) \<union> set zs \<subseteq> set ps"
    by (metis set_drop_subset set_take_subset Un_least)
  then show ?thesis
    using assms zs(1) p by (auto simp: listener_first_def close_connection_def take_Cons')
qed


subsection \<open>One iteration\<close>

text \<open>
  What the kernel promises of the descriptors: \<^verbatim>\<open>accept\<close> gives -1 or a descriptor that is not in
  use, and a listening socket, polled for \<^verbatim>\<open>POLLIN\<close>, is not reported writable.
\<close>

definition descriptor_contract :: "net \<Rightarrow> 'q TCPServer \<Rightarrow> bool" where
  "descriptor_contract net srv \<longleftrightarrow>
     (accept_ret net = -1 \<or> 0 \<le> accept_ret net \<and> accept_ret net \<notin> pfd_fd ` set (pollfds srv)) \<and>
     poll_revents net (sockfd srv) AND POLLOUT = 0"

definition accepted_in :: "net \<Rightarrow> 'q TCPServer \<Rightarrow> int list" where
  "accepted_in net srv =
     (if 0 < poll_count net \<and> poll_revents net (sockfd srv) AND POLLIN \<noteq> 0 \<and> accept_ret net \<noteq> -1
      then [accept_ret net] else [])"

lemma maybe_close_keeps:
  assumes "listener_first srv" "0 < i" "i < length (pollfds srv)"
    and "pollfds s = pollfds srv" "sockfd s = sockfd srv" "closed_fds s = closed_fds srv"
    and "(if b then (True, close_connection fd i s) else (False, s)) = (g, s')"
  shows "descriptors s' = descriptors srv \<and> listener_first s' \<and> sockfd s' = sockfd srv \<and>
    length (pollfds s') = (if g then length (pollfds srv) - 1 else length (pollfds srv))"
proof -
  have "descriptors s = descriptors srv" "listener_first s"
    using assms(1,4-6) by (simp_all add: descriptors_def listener_first_def)
  then show ?thesis
    using assms(2-7) close_descriptors [of i s fd] close_listener [of s i fd]
    by (auto simp: close_connection_def split: if_splits)
qed

lemma client_entry_descriptors:
  assumes first: "listener_first srv" and i: "0 < i" "i < length (pollfds srv)"
    and e: "service_entry psh net i srv = (gone, srv1)"
  shows "descriptors srv1 = descriptors srv \<and> listener_first srv1 \<and> sockfd srv1 = sockfd srv \<and>
    length (pollfds srv1) = (if gone then length (pollfds srv) - 1 else length (pollfds srv))"
proof (cases rule: service_entry_cases [of srv i psh net])
  case 1
  then show ?thesis
    using listener_index [OF first i(2)] i(1) by simp
next
  case (2 fd r srv2)
  show ?thesis
    by (rule maybe_close_keeps [OF assms(1-3) client_data_fds [OF 2(3)] 2(4) [symmetric, unfolded e]])
next
  case (3 fd fails srv2)
  show ?thesis
    by (rule maybe_close_keeps [OF assms(1-3) send_response_fds [OF 3(2)] 3(3) [symmetric, unfolded e]])
next
  case 4
  then show ?thesis
    using e first by auto
qed

lemma client_loop_descriptors:
  assumes "listener_first srv" "0 < i" "i + n \<le> length (pollfds srv)"
  shows "descriptors (service_loop psh net i n srv) = descriptors srv \<and>
    listener_first (service_loop psh net i n srv) \<and> sockfd (service_loop psh net i n srv) = sockfd srv"
  using assms
proof (induction n arbitrary: i srv)
  case (Suc n)
  obtain gone srv1 where e: "service_entry psh net i srv = (gone, srv1)"
    by fastforce
  have i: "i < length (pollfds srv)"
    using Suc.prems(3) by simp
  note d = client_entry_descriptors [OF Suc.prems(1,2) i e]
  show ?case
    using Suc.IH [of srv1 i] Suc.IH [of srv1 "Suc i"] Suc.prems(2,3) d by (cases gone) (auto simp: e)
qed simp

lemma listener_entry_descriptors:
  assumes first: "listener_first srv" and out: "pfd_revents (hd (pollfds srv)) AND POLLOUT = 0"
    and fresh: "accept_ret net = -1 \<or> accept_ret net \<notin> pfd_fd ` set (pollfds srv)"
  shows "\<exists>srv1. service_entry psh net 0 srv = (False, srv1) \<and> listener_first srv1 \<and> sockfd srv1 = sockfd srv \<and>
    length (pollfds srv) \<le> length (pollfds srv1) \<and>
    descriptors srv1 = descriptors srv +
      mset (if pfd_revents (hd (pollfds srv)) AND POLLIN \<noteq> 0 \<and> accept_ret net \<noteq> -1 then [accept_ret net] else [])"
proof -
  obtain p ps where p: "pollfds srv = p # ps" "pfd_fd p = sockfd srv" "sockfd srv \<notin> pfd_fd ` set ps"
    using first by (cases "pollfds srv") (auto simp: listener_first_def)
  then show ?thesis
    using first out fresh
    by (auto simp: service_entry_def Let_def handle_new_connection_def listener_first_def descriptors_def)
qed

lemma iteration_descriptors:
  assumes first: "listener_first srv" and net: "descriptor_contract net srv"
  shows "listener_first (server_iteration psh net srv)" "sockfd (server_iteration psh net srv) = sockfd srv"
    "descriptors (server_iteration psh net srv) = descriptors srv + mset (accepted_in net srv)"
proof -
  let ?n = "length (pollfds (handle_responses net srv)) - 1"
  let ?srv2 = "update_events 1 ?n (handle_responses net srv)"
  have fds2: "map pfd_fd (pollfds ?srv2) = map pfd_fd (pollfds srv)" "sockfd ?srv2 = sockfd srv" "closed_fds ?srv2 = closed_fds srv"
    by simp_all
  have d2: "listener_first ?srv2" "descriptors ?srv2 = descriptors srv"
    unfolding descriptors_def fds2 using first listener_first_cong [OF fds2(1,2)] by simp_all
  let ?srv3 = "do_poll net ?srv2"
  have fds3: "map pfd_fd (pollfds ?srv3) = map pfd_fd (pollfds srv)" "sockfd ?srv3 = sockfd srv" "closed_fds ?srv3 = closed_fds srv"
    using fds2 by (simp_all add: do_poll_def comp_def)
  have first3: "listener_first ?srv3" and d3: "descriptors ?srv3 = descriptors srv"
    unfolding descriptors_def fds3 using first listener_first_cong [OF fds3(1,2)] by simp_all
  have rev: "pfd_revents (hd (pollfds ?srv3)) = poll_revents net (sockfd srv)"
    using d2(1) by (simp add: do_poll_def listener_first_def hd_map)
  have "pfd_fd ` set (pollfds ?srv3) = pfd_fd ` set (pollfds srv)"
    using arg_cong [OF fds3(1), of set] by simp
  then obtain srv4 where srv4: "service_entry psh net 0 ?srv3 = (False, srv4)" "listener_first srv4" "sockfd srv4 = sockfd srv"
      "length (pollfds ?srv3) \<le> length (pollfds srv4)"
      "descriptors srv4 = descriptors srv +
         mset (if poll_revents net (sockfd srv) AND POLLIN \<noteq> 0 \<and> accept_ret net \<noteq> -1 then [accept_ret net] else [])"
    using listener_entry_descriptors [OF first3, of net psh] net unfolding rev descriptor_contract_def fds3(2) d3 by auto
  obtain m where m: "length (pollfds ?srv3) = Suc m"
    using first3 by (cases "pollfds ?srv3") (auto simp: listener_first_def)
  have "service_loop psh net 0 (length (pollfds ?srv3)) ?srv3 = service_loop psh net 1 m srv4"
    unfolding m service_loop.simps srv4(1) by simp
  moreover have "1 + m \<le> length (pollfds srv4)"
    using m srv4(4) by simp
  note loop = client_loop_descriptors [OF srv4(2) zero_less_one this, of psh net]
  ultimately show "listener_first (server_iteration psh net srv)" "sockfd (server_iteration psh net srv) = sockfd srv"
    "descriptors (server_iteration psh net srv) = descriptors srv + mset (accepted_in net srv)"
    using loop d2 srv4(3,5) fds2(2) by (auto simp: server_iteration_def Let_def accepted_in_def)
qed


subsection \<open>A run of the event loop\<close>

text \<open>What a run accepts, and that the kernel keeps its promise in each iteration.\<close>

fun run_accepted ::
  "(InferenceTask \<Rightarrow> 'q \<Rightarrow> (bool \<times> 'q) call) \<Rightarrow> (bool \<times> net) list \<Rightarrow> 'q TCPServer \<Rightarrow> int list" where
  "run_accepted psh [] srv = []"
| "run_accepted psh ((running, net) # rest) srv =
     (if running then accepted_in net srv @ run_accepted psh rest (server_iteration psh net srv) else [])"

fun run_contract ::
  "(InferenceTask \<Rightarrow> 'q \<Rightarrow> (bool \<times> 'q) call) \<Rightarrow> (bool \<times> net) list \<Rightarrow> 'q TCPServer \<Rightarrow> bool" where
  "run_contract psh [] srv = True"
| "run_contract psh ((running, net) # rest) srv =
     (running \<longrightarrow> descriptor_contract net srv \<and> run_contract psh rest (server_iteration psh net srv))"

lemma accepted_nonneg: "descriptor_contract net srv \<Longrightarrow> list_all (\<lambda>fd. 0 \<le> fd) (accepted_in net srv)"
  by (auto simp: accepted_in_def descriptor_contract_def)

lemma run_descriptors:
  assumes "listener_first srv" "run_contract psh nets srv" "server_run psh nets srv = (returned, srv')"
  shows "listener_first srv' \<and> descriptors srv' = descriptors srv + mset (run_accepted psh nets srv) \<and>
    list_all (\<lambda>fd. 0 \<le> fd) (run_accepted psh nets srv)"
  using assms
proof (induction psh nets srv rule: run_accepted.induct)
  case (2 psh running net rest srv)
  show ?case
  proof (cases running)
    case True
    then have net: "descriptor_contract net srv"
      using "2.prems"(2) by simp
    show ?thesis
      using "2.IH" [OF True iteration_descriptors(1) [OF "2.prems"(1) net]] iteration_descriptors(3) [OF "2.prems"(1) net]
        accepted_nonneg [OF net] "2.prems"(2,3) True by simp
  qed (use "2.prems" in auto)
qed auto

text \<open>The destructor closes what is left, so in the end each descriptor is closed once.\<close>

lemma destroy_closes:
  assumes "\<forall>fd \<in># descriptors srv. 0 \<le> fd"
  shows "mset (closed_fds srv @ server_destroy srv) = descriptors srv"
proof -
  have "server_destroy srv = map pfd_fd (pollfds srv)"
    using assms by (auto simp: server_destroy_def descriptors_def)
  then show ?thesis
    by (simp add: descriptors_def)
qed

lemma new_server_descriptors:
  assumes "server_new (Some cs) listens stale tq rq pr po = (cl, Inr srv)"
  shows "listener_first srv" "descriptors srv = mset (opened cs)"
proof -
  obtain fd where fd: "bind_first cs = (cl, Some fd)" "sockfd srv = fd" "map pfd_fd (pollfds srv) = [fd]" "closed_fds srv = cl"
    using assms by (auto simp: server_new_def split: prod.splits option.splits if_splits)
  then show "listener_first srv"
    by (cases "pollfds srv") (auto simp: listener_first_def)
  show "descriptors srv = mset (opened cs)"
    unfolding descriptors_def bind_first_opened [of cs, symmetric] fd by simp
qed

end
