(* ===== verification/Telemetry.thy ===== *)
theory Telemetry
  imports Config
begin

section \<open>Telemetry\<close>

text \<open>
  \<^verbatim>\<open>src/TelemetryManager.cpp\<close>: traces are captured into a buffer under a mutex and a reporter
  thread takes the buffer, prints statistics of the batch and appends one line per trace to a
  CSV file. The reporter and its callers are interleaved as a sequence of events. The file
  system is a map from paths to contents; the formatting of a double with four decimals and of
  the time of day, and whether the file can be opened, are arguments. A report is the tuple of
  numbers that is printed.
\<close>

subsection \<open>The CSV file\<close>

type_synonym files = "string \<rightharpoonup> string"

record csv_env =
  format4 :: "double \<Rightarrow> string"
  format_id :: "uint32 \<Rightarrow> string"
  time_text :: string
  can_open :: bool

definition csv_header :: string where
  "csv_header = ''timestamp,request_id,queue_type,alloc_type,queue_ms,preprocess_ms,inference_ms,postprocess_ms,total_ms'' @ [CHR 10]"

definition queue_name :: "QueueType \<Rightarrow> string" where
  "queue_name qt =
     (case qt of SPSC \<Rightarrow> ''SPSC'' | MPMC \<Rightarrow> ''MPMC'' | BATCHED \<Rightarrow> ''Batched'' | NAIVE_MUTEX \<Rightarrow> ''Naive'')"

definition alloc_name :: "AllocatorType \<Rightarrow> string" where
  "alloc_name a = (if a = LUMEN_ARENA then ''Arena'' else ''Standard'')"

definition csv_total :: "InferenceTrace \<Rightarrow> double" where
  "csv_total tr = queue_wait_ms tr + preprocess_ms tr + inference_ms tr + postprocess_ms tr"

definition csv_row :: "csv_env \<Rightarrow> ConfigManager \<Rightarrow> InferenceTrace \<Rightarrow> string" where
  "csv_row env config tr =
     time_text env @ '','' @ format_id env (request_id tr) @ '','' @ queue_name (m_queue_type config) @ '','' @
     alloc_name (m_alloc_type config) @ '','' @ format4 env (queue_wait_ms tr) @ '','' @
     format4 env (preprocess_ms tr) @ '','' @ format4 env (inference_ms tr) @ '','' @
     format4 env (postprocess_ms tr) @ '','' @ format4 env (csv_total tr) @ [CHR 10]"

text \<open>
  \<^verbatim>\<open>exists\<close> is read before the file is opened for appending, which creates it; its size is read
  after that and before anything is written.
\<close>

definition save_to_csv :: "csv_env \<Rightarrow> ConfigManager \<Rightarrow> InferenceTrace \<Rightarrow> string \<Rightarrow> files \<Rightarrow> files" where
  "save_to_csv env config tr path fs =
     (let exists = path \<in> dom fs
      in if \<not> can_open env then fs
         else let content = (case fs path of None \<Rightarrow> '''' | Some c \<Rightarrow> c);
                  header = (if \<not> exists \<or> length content = 0 then csv_header else '''')
              in fs(path \<mapsto> content @ header @ csv_row env config tr))"


subsection \<open>Statistics of a batch\<close>

record report =
  rep_count :: nat
  avg_e2e :: double
  p99_val :: double
  avg_queue :: double
  avg_pre :: double
  avg_infer :: double
  avg_post :: double

text \<open>The running sums of the loop over the batch; a null trace is skipped.\<close>

record batch_sums =
  sum_e2e :: double
  sum_queue :: double
  sum_pre :: double
  sum_infer :: double
  sum_post :: double
  latencies :: "double list"

definition no_sums :: batch_sums where
  "no_sums = \<lparr>sum_e2e = 0, sum_queue = 0, sum_pre = 0, sum_infer = 0, sum_post = 0, latencies = []\<rparr>"

definition add_trace :: "InferenceTrace \<Rightarrow> batch_sums \<Rightarrow> batch_sums" where
  "add_trace t s =
     s\<lparr>latencies := latencies s @ [total_e2e_ms t], sum_e2e := sum_e2e s + total_e2e_ms t,
       sum_queue := sum_queue s + queue_wait_ms t, sum_pre := sum_pre s + preprocess_ms t,
       sum_infer := sum_infer s + inference_ms t, sum_post := sum_post s + postprocess_ms t\<rparr>"

text \<open>
  Each call of \<^verbatim>\<open>save_to_csv\<close> reads the clock and opens the file anew: \<open>env i\<close> is the environment at
  entry \<open>i\<close> of the batch.
\<close>

fun snapshot_loop ::
  "(nat \<Rightarrow> csv_env) \<Rightarrow> ConfigManager \<Rightarrow> InferenceTrace option list \<Rightarrow> batch_sums \<times> files \<Rightarrow> batch_sums \<times> files" where
  "snapshot_loop env config [] sf = sf"
| "snapshot_loop env config (None # ts) sf = snapshot_loop (\<lambda>i. env (Suc i)) config ts sf"
| "snapshot_loop env config (Some t # ts) (s, fs) =
     snapshot_loop (\<lambda>i. env (Suc i)) config ts
       (add_trace t s,
        if m_telemetry_path config \<noteq> '''' then save_to_csv (env 0) config t (m_telemetry_path config) fs else fs)"

definition p99_idx :: "nat \<Rightarrow> nat" where
  "p99_idx count = (let i = nat \<lfloor>real count * 0.99\<rfloor> in if i \<ge> count then count - 1 else i)"

text \<open>
  \<^verbatim>\<open>std::nth_element\<close> puts at position \<open>i\<close> what sorting would put there. The result is \<open>None\<close> where
  the code reads outside the vector; an empty batch prints nothing.
\<close>

definition nth_element :: "double list \<Rightarrow> nat \<Rightarrow> double" where
  "nth_element xs i = sort xs ! i"

definition process_snapshot ::
  "(nat \<Rightarrow> csv_env) \<Rightarrow> ConfigManager \<Rightarrow> InferenceTrace option list \<Rightarrow> files \<Rightarrow> (report option \<times> files) option" where
  "process_snapshot env config batch fs =
     (let count = length batch
      in if count = 0 then Some (None, fs)
         else case snapshot_loop env config batch (no_sums, fs) of
                (s, fs') \<Rightarrow>
                  if p99_idx count < length (latencies s)
                  then Some (Some \<lparr>rep_count = count, avg_e2e = sum_e2e s / real count,
                       p99_val = nth_element (latencies s) (p99_idx count), avg_queue = sum_queue s / real count,
                       avg_pre = sum_pre s / real count, avg_infer = sum_infer s / real count,
                       avg_post = sum_post s / real count\<rparr>, fs')
                  else None)"


subsection \<open>The reporter thread\<close>

datatype reporter_pc = AtLoop | Waiting | Reporting | Exited

record TelemetryManager =
  m_trace_buffer :: "InferenceTrace list"
  m_running :: bool
  reporter :: reporter_pc
  local_batch :: "InferenceTrace list"
  reported :: "InferenceTrace list list"

text \<open>
  \<open>reported\<close> lists the batches given to \<^verbatim>\<open>process_snapshot\<close>. The constructor starts the reporter.
\<close>

definition telemetry_new :: TelemetryManager where
  "telemetry_new =
     \<lparr>m_trace_buffer = [], m_running = True, reporter = AtLoop, local_batch = [], reported = []\<rparr>"

definition capture_trace :: "InferenceTrace \<Rightarrow> TelemetryManager \<Rightarrow> TelemetryManager" where
  "capture_trace tr m = m\<lparr>m_trace_buffer := m_trace_buffer m @ [tr]\<rparr>"

text \<open>
  One step of \<^verbatim>\<open>reporting_loop\<close>: the test of the loop; the return of the timed wait, which may
  come at any time, with the critical section after it; the report.
\<close>

definition reporter_step :: "TelemetryManager \<Rightarrow> TelemetryManager" where
  "reporter_step m =
     (case reporter m of
        AtLoop \<Rightarrow> m\<lparr>reporter := if m_running m then Waiting else Exited\<rparr>
      | Waiting \<Rightarrow>
          if \<not> m_running m \<and> m_trace_buffer m = [] then m\<lparr>reporter := Exited\<rparr>
          else m\<lparr>reporter := Reporting, local_batch := m_trace_buffer m, m_trace_buffer := []\<rparr>
      | Reporting \<Rightarrow>
          m\<lparr>reporter := AtLoop, local_batch := [],
            reported := reported m @ (if local_batch m \<noteq> [] then [local_batch m] else [])\<rparr>
      | Exited \<Rightarrow> m)"

text \<open>The instance of \<^verbatim>\<open>get\<close> is constructed by the first call.\<close>

definition telemetry_get :: "TelemetryManager option \<Rightarrow> TelemetryManager" where
  "telemetry_get existing = (case existing of None \<Rightarrow> telemetry_new | Some m \<Rightarrow> m)"

text \<open>The first half of \<^verbatim>\<open>shutdown\<close>; the join that follows returns when the reporter has exited.\<close>

definition telemetry_stop :: "TelemetryManager \<Rightarrow> TelemetryManager" where
  "telemetry_stop m = (if m_running m then m\<lparr>m_running := False\<rparr> else m)"

datatype tel_event = Capture InferenceTrace | Reporter | Stop

fun tel_step :: "tel_event \<Rightarrow> TelemetryManager \<Rightarrow> TelemetryManager" where
  "tel_step (Capture tr) m = capture_trace tr m"
| "tel_step Reporter m = reporter_step m"
| "tel_step Stop m = telemetry_stop m"

fun captures :: "tel_event list \<Rightarrow> InferenceTrace list" where
  "captures [] = []"
| "captures (Capture tr # es) = tr # captures es"
| "captures (_ # es) = captures es"



subsection \<open>Facts about the batch\<close>

lemma p99_idx_eq: "0 < n \<Longrightarrow> p99_idx n = 99 * n div 100"
proof -
  assume n: "0 < n"
  have "real n * 0.99 = real (99 * n) / real 100"
    by simp
  then have "\<lfloor>real n * 0.99\<rfloor> = int (99 * n div 100)"
    by (simp only: floor_divide_of_nat_eq)
  moreover have "99 * n div 100 < n"
    using n by (simp add: div_less_iff_less_mult)
  ultimately show ?thesis
    by (simp add: p99_idx_def Let_def)
qed

lemma snapshot_loop_sums:
  "snapshot_loop env config (map Some ts) (s, fs) = (s', fs') \<Longrightarrow>
     latencies s' = latencies s @ map total_e2e_ms ts \<and>
     sum_e2e s' = sum_e2e s + (\<Sum>t \<leftarrow> ts. total_e2e_ms t) \<and>
     sum_queue s' = sum_queue s + (\<Sum>t \<leftarrow> ts. queue_wait_ms t) \<and>
     sum_pre s' = sum_pre s + (\<Sum>t \<leftarrow> ts. preprocess_ms t) \<and>
     sum_infer s' = sum_infer s + (\<Sum>t \<leftarrow> ts. inference_ms t) \<and>
     sum_post s' = sum_post s + (\<Sum>t \<leftarrow> ts. postprocess_ms t)"
proof (induction ts arbitrary: env s fs)
  case (Cons t ts)
  then have "snapshot_loop (\<lambda>i. env (Suc i)) config (map Some ts)
      (add_trace t s, if m_telemetry_path config \<noteq> '''' then save_to_csv (env 0) config t (m_telemetry_path config) fs else fs) = (s', fs')"
    by simp
  from Cons.IH [OF this] show ?case
    by (simp add: add_trace_def)
qed simp

lemma process_snapshot_report:
  assumes "ts \<noteq> []"
  shows "\<exists>fs'. process_snapshot env config (map Some ts) fs =
    Some (Some \<lparr>rep_count = length ts, avg_e2e = (\<Sum>t \<leftarrow> ts. total_e2e_ms t) / real (length ts),
       p99_val = sort (map total_e2e_ms ts) ! (99 * length ts div 100),
       avg_queue = (\<Sum>t \<leftarrow> ts. queue_wait_ms t) / real (length ts),
       avg_pre = (\<Sum>t \<leftarrow> ts. preprocess_ms t) / real (length ts),
       avg_infer = (\<Sum>t \<leftarrow> ts. inference_ms t) / real (length ts),
       avg_post = (\<Sum>t \<leftarrow> ts. postprocess_ms t) / real (length ts)\<rparr>, fs') \<and>
    fs' = snd (snapshot_loop env config (map Some ts) (no_sums, fs))"
proof -
  obtain s fs' where loop: "snapshot_loop env config (map Some ts) (no_sums, fs) = (s, fs')"
    by fastforce
  note tot = snapshot_loop_sums [OF loop]
  have n: "0 < length ts" "99 * length ts div 100 < length ts"
    using assms by (simp_all add: div_less_iff_less_mult)
  then show ?thesis
    using tot loop assms
    by (intro exI [of _ fs']) (simp add: process_snapshot_def p99_idx_eq no_sums_def nth_element_def Let_def)
qed

text \<open>The order statistic: position \<open>i\<close> of the sorted list splits the values.\<close>

lemma length_filter_sort: "length (filter P (sort xs)) = length (filter P xs)"
  by (simp add: filter_sort)

lemma order_statistic:
  fixes xs :: "double list"
  assumes "i < length xs"
  shows "Suc i \<le> length (filter (\<lambda>x. x \<le> sort xs ! i) xs)" "length (filter (\<lambda>x. x < sort xs ! i) xs) \<le> i"
proof -
  let ?ys = "sort xs"
  have i: "i < length ?ys"
    using assms by simp
  have "x \<le> ?ys ! i" if "x \<in> set (take (Suc i) ?ys)" for x
    using that i by (auto simp: in_set_conv_nth intro!: sorted_nth_mono)
  then have "filter (\<lambda>x. x \<le> ?ys ! i) (take (Suc i) ?ys) = take (Suc i) ?ys"
    by (simp add: filter_True)
  then have "filter (\<lambda>x. x \<le> ?ys ! i) ?ys = take (Suc i) ?ys @ filter (\<lambda>x. x \<le> ?ys ! i) (drop (Suc i) ?ys)"
    by (metis append_take_drop_id filter_append)
  then have "Suc i \<le> length (filter (\<lambda>x. x \<le> ?ys ! i) ?ys)"
    using assms by simp
  then show "Suc i \<le> length (filter (\<lambda>x. x \<le> ?ys ! i) xs)"
    by (simp only: length_filter_sort)
  have "\<not> x < ?ys ! i" if "x \<in> set (drop i ?ys)" for x
    using that i by (auto simp: in_set_conv_nth not_less intro!: sorted_nth_mono)
  then have "filter (\<lambda>x. x < ?ys ! i) (drop i ?ys) = []"
    by (simp add: filter_empty_conv)
  then have "filter (\<lambda>x. x < ?ys ! i) ?ys = filter (\<lambda>x. x < ?ys ! i) (take i ?ys)"
    by (metis append_Nil2 append_take_drop_id filter_append)
  then have "length (filter (\<lambda>x. x < ?ys ! i) ?ys) \<le> i"
    using length_filter_le [of "\<lambda>x. x < ?ys ! i" "take i ?ys"] i by simp
  then show "length (filter (\<lambda>x. x < ?ys ! i) xs) \<le> i"
    by (simp only: length_filter_sort)
qed


subsection \<open>Properties\<close>

lemma tel_invariant:
  "reporter m \<noteq> Reporting \<longrightarrow> local_batch m = [] \<Longrightarrow>
   (let m' = fold tel_step es m
    in concat (reported m) @ local_batch m @ m_trace_buffer m @ captures es =
         concat (reported m') @ local_batch m' @ m_trace_buffer m' \<and>
       (reporter m' \<noteq> Reporting \<longrightarrow> local_batch m' = []))"
proof (induction es arbitrary: m)
  case (Cons e es)
  let ?m = "tel_step e m"
  have inv: "reporter ?m \<noteq> Reporting \<longrightarrow> local_batch ?m = []"
    using Cons.prems by (cases e) (auto simp: capture_trace_def reporter_step_def telemetry_stop_def split: reporter_pc.splits)
  have "concat (reported m) @ local_batch m @ m_trace_buffer m @ captures [e] =
      concat (reported ?m) @ local_batch ?m @ m_trace_buffer ?m"
    using Cons.prems by (cases e) (auto simp: capture_trace_def reporter_step_def telemetry_stop_def split: reporter_pc.splits)
  moreover have "captures (e # es) = captures [e] @ captures es"
    by (cases e) simp_all
  ultimately show ?case
    using Cons.IH [OF inv] by (simp add: Let_def) (metis append.assoc)
qed simp

text \<open>
  C12: nothing is lost, duplicated or reordered on the way to the reports: at every moment, for
  every interleaving of captures, reporter steps and shutdown, the traces captured so far are
  those reported, then those of the batch being reported, then those in the buffer.
\<close>

theorem traces_reported_in_order:
  "captures es =
     concat (reported (fold tel_step es telemetry_new)) @ local_batch (fold tel_step es telemetry_new) @
     m_trace_buffer (fold tel_step es telemetry_new)"
  using tel_invariant [of telemetry_new es] by (simp add: telemetry_new_def Let_def)

lemma stopped_steps:
  "\<not> m_running m \<Longrightarrow> \<not> m_running (tel_step e m)"
  "\<not> m_running m \<Longrightarrow> reporter m = Exited \<Longrightarrow> reporter (tel_step e m) = Exited"
  by (cases e; simp add: capture_trace_def reporter_step_def telemetry_stop_def split: reporter_pc.splits)+

definition steps_left :: "TelemetryManager \<Rightarrow> nat" where
  "steps_left m = (case reporter m of Exited \<Rightarrow> 0 | AtLoop \<Rightarrow> 1 | Reporting \<Rightarrow> 2 | Waiting \<Rightarrow> 3)"

lemma steps_left_step:
  assumes "\<not> m_running m"
  shows "steps_left (tel_step e m) \<le> steps_left m - (if e = Reporter then 1 else 0)"
  using assms
  by (cases e; cases "reporter m"; simp add: steps_left_def capture_trace_def reporter_step_def telemetry_stop_def)

text \<open>
  C37: shutdown terminates: once the flag is cleared, the reporter returns within three of its
  own steps, however many traces are captured meanwhile, so the join in \<^verbatim>\<open>shutdown\<close> returns.
\<close>

theorem shutdown_joins:
  assumes "\<not> m_running m" "3 \<le> length (filter (\<lambda>e. e = Reporter) es)"
  shows "reporter (fold tel_step es m) = Exited"
proof -
  have "steps_left (fold tel_step es m) \<le> steps_left m - length (filter (\<lambda>e. e = Reporter) es)"
    using assms(1)
  proof (induction es arbitrary: m)
    case (Cons e es)
    have "steps_left (fold tel_step es (tel_step e m)) \<le>
        steps_left (tel_step e m) - length (filter (\<lambda>e. e = Reporter) es)"
      by (rule Cons.IH [OF stopped_steps(1) [OF Cons.prems]])
    then show ?case
      using steps_left_step [OF Cons.prems, of e] by (auto split: if_splits)
  qed simp
  moreover have "steps_left m \<le> 3"
    by (simp add: steps_left_def split: reporter_pc.splits)
  ultimately have "steps_left (fold tel_step es m) = 0"
    using assms(2) by linarith
  then show ?thesis
    by (simp add: steps_left_def split: reporter_pc.splits)
qed

theorem shutdown_joins_witness:
  "reporter (fold tel_step [Reporter, Capture (new_trace 1 0), Reporter, Reporter] (telemetry_stop telemetry_new)) = Exited"
  using shutdown_joins [of "telemetry_stop telemetry_new" "[Reporter, Capture (new_trace 1 0), Reporter, Reporter]"]
  by (simp add: telemetry_stop_def telemetry_new_def)

text \<open>
  Traces captured while the reporter is busy are lost at shutdown: the loop tests the flag
  before it looks at the buffer, so the reporter can return, and shutdown with it, with the
  trace \<open>b\<close> still in the buffer and never reported.
\<close>

theorem shutdown_drops_traces:
  "let m = fold tel_step [Capture a, Reporter, Reporter, Capture b, Stop, Reporter, Reporter] telemetry_new
   in reporter m = Exited \<and> reported m = [[a]] \<and> m_trace_buffer m = [b] \<and>
      (\<forall>n. fold tel_step (replicate n Reporter) m = m)"
proof -
  let ?m = "\<lparr>m_trace_buffer = [b], m_running = False, reporter = Exited, local_batch = [], reported = [[a]]\<rparr>"
  have "fold tel_step [Capture a, Reporter, Reporter, Capture b, Stop, Reporter, Reporter] telemetry_new = ?m"
    by (simp add: telemetry_new_def capture_trace_def reporter_step_def telemetry_stop_def)
  moreover have "fold tel_step (replicate n Reporter) ?m = ?m" for n
    by (induction n) (simp_all add: reporter_step_def)
  ultimately show ?thesis
    by (simp add: Let_def)
qed

text \<open>
  C36: the statistics of a non-empty batch without null traces are what their names say. Nothing
  is read outside the vector of latencies; the average is the mean; more than 99 percent of the requests took at
  most the P99 value and at most 99 percent took less, and it is the latency of one of them.
\<close>

theorem snapshot_statistics:
  assumes "ts \<noteq> []"
  shows "\<exists>rep fs'. process_snapshot env config (map Some ts) fs = Some (Some rep, fs') \<and>
    rep_count rep = length ts \<and> avg_e2e rep * real (length ts) = (\<Sum>t \<leftarrow> ts. total_e2e_ms t) \<and>
    p99_val rep \<in> set (map total_e2e_ms ts) \<and>
    99 * length ts < 100 * length (filter (\<lambda>x. x \<le> p99_val rep) (map total_e2e_ms ts)) \<and>
    100 * length (filter (\<lambda>x. x < p99_val rep) (map total_e2e_ms ts)) \<le> 99 * length ts"
proof -
  let ?i = "99 * length ts div 100" and ?xs = "map total_e2e_ms ts"
  have i: "?i < length ?xs"
    using assms by (simp add: div_less_iff_less_mult)
  have "99 * length ts < 100 * Suc ?i"
    using dividend_less_times_div [of 100 "99 * length ts"] by simp
  also have "\<dots> \<le> 100 * length (filter (\<lambda>x. x \<le> sort ?xs ! ?i) ?xs)"
    by (intro mult_le_mono2 order_statistic(1) [OF i])
  finally have more: "99 * length ts < 100 * length (filter (\<lambda>x. x \<le> sort ?xs ! ?i) ?xs)" .
  have less: "100 * length (filter (\<lambda>x. x < sort ?xs ! ?i) ?xs) \<le> 99 * length ts"
    using mult_le_mono2 [OF order_statistic(2) [OF i], of 100] times_div_less_eq_dividend [of 100 "99 * length ts"]
    by (rule le_trans)
  have "sort ?xs ! ?i \<in> set (sort ?xs)"
    using i by (intro nth_mem) simp
  then have "sort ?xs ! ?i \<in> set ?xs"
    by simp
  moreover obtain fs' q pr inf po where "process_snapshot env config (map Some ts) fs =
      Some (Some \<lparr>rep_count = length ts, avg_e2e = (\<Sum>t \<leftarrow> ts. total_e2e_ms t) / real (length ts),
         p99_val = sort ?xs ! ?i, avg_queue = q, avg_pre = pr, avg_infer = inf, avg_post = po\<rparr>, fs')"
    using process_snapshot_report [OF assms, of env config fs] by blast
  ultimately show ?thesis
    using more less assms
    by (intro exI [of _ fs'] exI [of _ "\<lparr>rep_count = length ts, avg_e2e = (\<Sum>t \<leftarrow> ts. total_e2e_ms t) / real (length ts),
         p99_val = sort ?xs ! ?i, avg_queue = q, avg_pre = pr, avg_infer = inf, avg_post = po\<rparr>"] conjI)
      (simp_all only: report.select_convs, simp)
qed

definition plain_env :: csv_env where
  "plain_env = \<lparr>format4 = (\<lambda>d. ''0.0000''), format_id = (\<lambda>i. ''1''), time_text = ''0'', can_open = True\<rparr>"

theorem snapshot_statistics_witness:
  "\<exists>rep fs'. process_snapshot (\<lambda>_. plain_env) config_defaults [Some (new_trace 1 0)] Map.empty = Some (Some rep, fs') \<and>
     p99_val rep = 0"
  using snapshot_statistics [of "[new_trace 1 0]" "\<lambda>_. plain_env" config_defaults Map.empty]
  by (auto simp: new_trace_def)



subsection \<open>The CSV file as it is read back\<close>

definition file_start :: "string option \<Rightarrow> string" where
  "file_start c = (case c of None \<Rightarrow> csv_header | Some cont \<Rightarrow> if cont = '''' then csv_header else cont)"

lemma save_to_csv_appends:
  assumes "can_open env"
  shows "save_to_csv env config tr path fs = fs(path \<mapsto> file_start (fs path) @ csv_row env config tr)"
  using assms by (auto simp: save_to_csv_def file_start_def Let_def split: option.splits)

lemma file_start_row [simp]: "file_start (Some (cont @ csv_row env config tr)) = cont @ csv_row env config tr"
  by (simp add: file_start_def csv_row_def)

text \<open>What the environments of a batch, and of the batches, make of its rows.\<close>

fun per_row :: "(csv_env \<Rightarrow> 'a \<Rightarrow> 'b) \<Rightarrow> (nat \<Rightarrow> csv_env) \<Rightarrow> 'a list \<Rightarrow> 'b list" where
  "per_row f env [] = []"
| "per_row f env (t # ts) = f (env 0) t # per_row f (\<lambda>i. env (Suc i)) ts"

fun per_batch :: "(csv_env \<Rightarrow> 'a \<Rightarrow> 'b) \<Rightarrow> (nat \<Rightarrow> nat \<Rightarrow> csv_env) \<Rightarrow> 'a list list \<Rightarrow> 'b list" where
  "per_batch f env [] = []"
| "per_batch f env (b # bs) = per_row f (env 0) b @ per_batch f (\<lambda>k. env (Suc k)) bs"

lemma length_per_row [simp]: "length (per_row f env ts) = length ts"
  by (induction f env ts rule: per_row.induct) simp_all

lemma length_per_batch [simp]: "length (per_batch f env bs) = length (concat bs)"
  by (induction f env bs rule: per_batch.induct) simp_all

lemma snapshot_loop_files:
  assumes "m_telemetry_path config \<noteq> ''''"
  shows "ts \<noteq> [] \<Longrightarrow> \<forall>i. can_open (env i) \<Longrightarrow> snd (snapshot_loop env config (map Some ts) (s, fs)) =
    fs(m_telemetry_path config \<mapsto>
      file_start (fs (m_telemetry_path config)) @ concat (per_row (\<lambda>e. csv_row e config) env ts))"
proof (induction ts arbitrary: env s fs)
  case (Cons t ts)
  show ?case
  proof (cases "ts = []")
    case True
    then show ?thesis
      using assms Cons.prems by (simp add: save_to_csv_appends)
  next
    case False
    have "\<forall>i. can_open (env (Suc i))"
      using Cons.prems(2) by blast
    from Cons.IH [OF False this] show ?thesis
      using assms Cons.prems(2) by (simp add: save_to_csv_appends fun_eq_iff)
  qed
qed simp

text \<open>Splitting at a character, and the lines of a text that ends with a newline.\<close>

fun fields :: "char \<Rightarrow> string \<Rightarrow> string list" where
  "fields c [] = [[]]"
| "fields c (x # xs) =
     (if x = c then [] # fields c xs
      else case fields c xs of [] \<Rightarrow> [[x]] | y # ys \<Rightarrow> (x # y) # ys)"

definition lines_of :: "string \<Rightarrow> string list" where
  "lines_of cont = butlast (fields (CHR 10) cont)"

lemma fields_cons: "c \<notin> set a \<Longrightarrow> fields c (a @ c # b) = a # fields c b"
  by (induction a) auto

lemma fields_last: "c \<notin> set a \<Longrightarrow> fields c a = [a]"
  by (induction a) auto

lemma fields_nonempty [simp]: "fields c xs \<noteq> []"
  by (cases xs) (auto split: list.splits)

lemma lines_of_Nil [simp]: "lines_of '''' = []"
  by (simp add: lines_of_def)

lemma lines_of_line: "CHR 10 \<notin> set a \<Longrightarrow> lines_of (a @ [CHR 10] @ b) = a # lines_of b"
  by (simp add: lines_of_def fields_cons)

definition csv_columns :: "csv_env \<Rightarrow> ConfigManager \<Rightarrow> InferenceTrace \<Rightarrow> string list" where
  "csv_columns env config tr =
     [time_text env, format_id env (request_id tr), queue_name (m_queue_type config), alloc_name (m_alloc_type config),
      format4 env (queue_wait_ms tr), format4 env (preprocess_ms tr), format4 env (inference_ms tr),
      format4 env (postprocess_ms tr), format4 env (csv_total tr)]"

definition plain_text :: "string \<Rightarrow> bool" where
  "plain_text s \<longleftrightarrow> CHR '','' \<notin> set s \<and> CHR 10 \<notin> set s"

lemma name_plain [simp]: "plain_text (queue_name qt)" "plain_text (alloc_name a)"
  by (simp_all add: plain_text_def queue_name_def alloc_name_def split: QueueType.splits)

lemma csv_row_read:
  assumes "\<forall>d. plain_text (format4 env d)" "\<forall>i. plain_text (format_id env i)" "plain_text (time_text env)"
  shows "\<exists>l. csv_row env config tr = l @ [CHR 10] \<and> CHR 10 \<notin> set l \<and> fields (CHR '','') l = csv_columns env config tr"
proof -
  let ?c = "CHR '',''"
  have p: "?c \<notin> set (format4 env d)" "CHR 10 \<notin> set (format4 env d)" "?c \<notin> set (format_id env i)" "CHR 10 \<notin> set (format_id env i)"
      "?c \<notin> set (time_text env)" "CHR 10 \<notin> set (time_text env)" "?c \<notin> set (queue_name qt)" "CHR 10 \<notin> set (queue_name qt)"
      "?c \<notin> set (alloc_name a)" "CHR 10 \<notin> set (alloc_name a)" for d i qt a
    using assms name_plain by (auto simp: plain_text_def)
  show ?thesis
    by (intro exI [of _ "butlast (csv_row env config tr)"])
      (simp add: csv_row_def csv_columns_def butlast_append p fields_cons fields_last)
qed

lemma csv_header_read:
  "\<exists>l. csv_header = l @ [CHR 10] \<and> CHR 10 \<notin> set l \<and> length (fields (CHR '','') l) = 9"
  by (intro exI [of _ "butlast csv_header"]) (simp add: csv_header_def)

text \<open>Batch after batch, as the reporter hands them over; \<open>env k\<close> holds the environments of batch \<open>k\<close>.\<close>

fun write_batches ::
  "(nat \<Rightarrow> nat \<Rightarrow> csv_env) \<Rightarrow> ConfigManager \<Rightarrow> InferenceTrace list list \<Rightarrow> files \<Rightarrow> files option" where
  "write_batches env config [] fs = Some fs"
| "write_batches env config (b # bs) fs =
     (case process_snapshot (env 0) config (map Some b) fs of
        None \<Rightarrow> None
      | Some (r, fs') \<Rightarrow> write_batches (\<lambda>k. env (Suc k)) config bs fs')"

lemma file_start_rows:
  "ts \<noteq> [] \<Longrightarrow> file_start (Some (cont @ concat (per_row (\<lambda>e. csv_row e config) env ts))) =
     cont @ concat (per_row (\<lambda>e. csv_row e config) env ts)"
  by (cases ts) (simp_all add: file_start_def csv_row_def)

lemma write_batches_files:
  assumes "m_telemetry_path config \<noteq> ''''"
  shows "bs \<noteq> [] \<Longrightarrow> \<forall>b \<in> set bs. b \<noteq> [] \<Longrightarrow> \<forall>k i. can_open (env k i) \<Longrightarrow> write_batches env config bs fs =
    Some (fs(m_telemetry_path config \<mapsto>
      file_start (fs (m_telemetry_path config)) @ concat (per_batch (\<lambda>e. csv_row e config) env bs)))"
proof (induction bs arbitrary: env fs)
  case (Cons b bs)
  let ?p = "m_telemetry_path config"
  have b: "b \<noteq> []" "\<forall>i. can_open (env 0 i)"
    using Cons.prems(2,3) by simp_all
  obtain rep where one: "process_snapshot (env 0) config (map Some b) fs =
      Some (rep, fs(?p \<mapsto> file_start (fs ?p) @ concat (per_row (\<lambda>e. csv_row e config) (env 0) b)))"
    using process_snapshot_report [OF b(1), of "env 0" config fs] snapshot_loop_files [OF assms b] by auto
  show ?case
  proof (cases "bs = []")
    case True
    then show ?thesis
      by (simp add: one fun_eq_iff)
  next
    case False
    have "\<forall>b \<in> set bs. b \<noteq> []" "\<forall>k i. can_open (env (Suc k) i)"
      using Cons.prems(2,3) by simp_all
    from Cons.IH [OF False this] show ?thesis
      by (simp add: one file_start_rows [OF b(1)] fun_eq_iff)
  qed
qed simp

text \<open>The rows of a batch, and of the batches, read back.\<close>

definition plain_csv_env :: "csv_env \<Rightarrow> bool" where
  "plain_csv_env env \<longleftrightarrow>
     (\<forall>d. plain_text (format4 env d)) \<and> (\<forall>i. plain_text (format_id env i)) \<and> plain_text (time_text env)"

lemma rows_read:
  "\<forall>i. plain_csv_env (env i) \<Longrightarrow>
     map (fields (CHR '','')) (lines_of (concat (per_row (\<lambda>e. csv_row e config) env ts) @ rest)) =
     per_row (\<lambda>e. csv_columns e config) env ts @ map (fields (CHR '','')) (lines_of rest)"
proof (induction ts arbitrary: env)
  case (Cons t ts)
  have plain: "\<forall>d. plain_text (format4 (env 0) d)" "\<forall>i. plain_text (format_id (env 0) i)" "plain_text (time_text (env 0))"
    using Cons.prems by (simp_all add: plain_csv_env_def)
  obtain l where "csv_row (env 0) config t = l @ [CHR 10]" "CHR 10 \<notin> set l"
      "fields (CHR '','') l = csv_columns (env 0) config t"
    using csv_row_read [OF plain, of config t] by blast
  moreover have "\<forall>i. plain_csv_env (env (Suc i))"
    using Cons.prems by blast
  ultimately show ?case
    using Cons.IH [of "\<lambda>i. env (Suc i)"]
      lines_of_line [of l "concat (per_row (\<lambda>e. csv_row e config) (\<lambda>i. env (Suc i)) ts) @ rest"] by simp
qed simp

lemma batches_read:
  "\<forall>k i. plain_csv_env (env k i) \<Longrightarrow>
     map (fields (CHR '','')) (lines_of (concat (per_batch (\<lambda>e. csv_row e config) env bs))) =
     per_batch (\<lambda>e. csv_columns e config) env bs"
  by (induction bs arbitrary: env) (simp_all add: rows_read)

text \<open>
  C35: round trip of the telemetry file. Started on a path with no file or an empty one, and
  written by one or more non-empty batches, the file read back line by line and split at the commas is
  one header line, then one line of nine columns per trace, in the order of the traces, each
  with the time at which it was written; the header is written once. This needs that the file
  can be opened for every row and of the number formats that they contain neither a comma nor
  a newline.
\<close>

theorem csv_round_trip:
  assumes "\<forall>k i. can_open (env k i)" "m_telemetry_path config = path" "path \<noteq> ''''" "fs path = None \<or> fs path = Some ''''"
    and "\<forall>k i. plain_csv_env (env k i)"
    and "batches \<noteq> []" "\<forall>b \<in> set batches. b \<noteq> []"
  shows "\<exists>fs' cont header. write_batches env config batches fs = Some fs' \<and> fs' path = Some cont \<and>
    length (fields (CHR '','') header) = 9 \<and> lines_of cont = header # tl (lines_of cont) \<and>
    map (fields (CHR '','')) (tl (lines_of cont)) = per_batch (\<lambda>e. csv_columns e config) env batches"
proof -
  let ?rows = "concat (per_batch (\<lambda>e. csv_row e config) env batches)"
  have path: "m_telemetry_path config \<noteq> ''''"
    using assms(2,3) by simp
  have start: "file_start (fs path) = csv_header"
    using assms(4) by (auto simp: file_start_def)
  have written: "write_batches env config batches fs = Some (fs(path \<mapsto> csv_header @ ?rows))"
    using write_batches_files [OF path assms(6,7,1), of fs] assms(2) start by simp
  obtain h where h: "csv_header = h @ [CHR 10]" "CHR 10 \<notin> set h" "length (fields (CHR '','') h) = 9"
    using csv_header_read by blast
  have "lines_of (csv_header @ ?rows) = h # lines_of ?rows"
    unfolding h(1) append.assoc by (rule lines_of_line [OF h(2)])
  then show ?thesis
    using h(3) batches_read [OF assms(5), of config batches] written
    by (intro exI [of _ "fs(path \<mapsto> csv_header @ ?rows)"] exI [of _ "csv_header @ ?rows"] exI [of _ h]) simp
qed

text \<open>Each row with a time of its own.\<close>

definition ticking_env :: "nat \<Rightarrow> nat \<Rightarrow> csv_env" where
  "ticking_env k i = plain_env\<lparr>time_text := replicate (Suc (k + i)) (CHR ''1'')\<rparr>"

theorem csv_round_trip_witness:
  "\<exists>fs' cont. write_batches ticking_env config_defaults [[new_trace 1 0], [new_trace 2 0, new_trace 3 0]] Map.empty = Some fs' \<and>
     fs' ''../results/lumen_baseline.csv'' = Some cont \<and>
     map (hd \<circ> fields (CHR '','')) (tl (lines_of cont)) = [''1'', ''11'', ''111'']"
proof -
  let ?bs = "[[new_trace 1 0], [new_trace 2 0, new_trace 3 0]]"
  have "m_telemetry_path config_defaults = ''../results/lumen_baseline.csv''"
    by (simp add: config_defaults_def)
  from csv_round_trip [OF _ this, of ticking_env Map.empty ?bs]
  obtain fs' cont where "write_batches ticking_env config_defaults ?bs Map.empty = Some fs'"
      "fs' ''../results/lumen_baseline.csv'' = Some cont"
      "map (fields (CHR '','')) (tl (lines_of cont)) = per_batch (\<lambda>e. csv_columns e config_defaults) ticking_env ?bs"
    by (auto simp: ticking_env_def plain_env_def plain_csv_env_def plain_text_def)
  moreover from this(3) have "map hd (map (fields (CHR '','')) (tl (lines_of cont))) = [''1'', ''11'', ''111'']"
    by (simp only:) (simp add: csv_columns_def ticking_env_def numeral_2_eq_2)
  ultimately show ?thesis
    by auto
qed

text \<open>
  A batch of null traces only makes \<^verbatim>\<open>process_snapshot\<close> read outside the vector of latencies,
  because the position of the P99 value is computed from the size of the batch. The server
  captures no null trace.
\<close>

theorem null_traces_out_of_range:
  "process_snapshot env config (replicate (Suc n) None) fs = None"
proof -
  have "snapshot_loop env config (replicate k None) sf = sf" for env k sf
    by (induction k arbitrary: env) simp_all
  then show ?thesis
    by (simp add: process_snapshot_def no_sums_def Let_def del: replicate_Suc)
qed

end
