(* ===== verification/Main_Program.thy ===== *)
theory Main_Program
  imports Deployment Server_Descriptors Telemetry
begin

section \<open>The program\<close>

text \<open>
  \<^verbatim>\<open>src/main.cpp\<close>: the configuration is loaded, the task queue and the processors are chosen from
  it, the pool and the server are built around the queue, and the server runs until the flag is
  cleared. The queue is used through \<^verbatim>\<open>ITaskQueue\<close>, so its operations here dispatch on the chosen
  implementation, which keeps the contract of the interface whatever was chosen; hence the
  properties of the service hold for every configuration.
\<close>

subsection \<open>Virtual dispatch\<close>

datatype task_queue_impl =
    NaiveImpl NaiveTaskQueue
  | SpscImpl SPSCTaskQueue
  | MpmcImpl MPMCTaskQueue

definition impl_push :: "InferenceTask \<Rightarrow> task_queue_impl \<Rightarrow> (bool \<times> task_queue_impl) call" where
  "impl_push t q =
     (case q of
        NaiveImpl n \<Rightarrow> map_call (map_prod id NaiveImpl) (naive_push t n)
      | SpscImpl s \<Rightarrow> map_call (map_prod id SpscImpl) (spsc_push t s)
      | MpmcImpl m \<Rightarrow> map_call (map_prod id MpmcImpl) (mpmc_push t m))"

definition impl_pop :: "task_queue_impl \<Rightarrow> (InferenceTask option \<times> task_queue_impl) call" where
  "impl_pop q =
     (case q of
        NaiveImpl n \<Rightarrow> map_call (map_prod id NaiveImpl) (naive_pop n)
      | SpscImpl s \<Rightarrow> map_call (map_prod id SpscImpl) (spsc_pop s)
      | MpmcImpl m \<Rightarrow> map_call (map_prod id MpmcImpl) (mpmc_pop m))"

definition impl_pop_batch ::
  "InferenceTask list \<Rightarrow> size_t \<Rightarrow> task_queue_impl \<Rightarrow> (size_t \<times> InferenceTask list \<times> task_queue_impl) call" where
  "impl_pop_batch b k q =
     (case q of
        NaiveImpl n \<Rightarrow> map_call (map_prod id (map_prod id NaiveImpl)) (naive_pop_batch b k n)
      | SpscImpl s \<Rightarrow> map_call (map_prod id (map_prod id SpscImpl)) (spsc_pop_batch b k s)
      | MpmcImpl m \<Rightarrow> map_call (map_prod id (map_prod id MpmcImpl)) (mpmc_pop_batch b k m))"

definition impl_size :: "task_queue_impl \<Rightarrow> size_t" where
  "impl_size q = (case q of NaiveImpl n \<Rightarrow> naive_size n | SpscImpl s \<Rightarrow> spsc_size s | MpmcImpl m \<Rightarrow> mpmc_size m)"

definition impl_empty :: "task_queue_impl \<Rightarrow> bool" where
  "impl_empty q = (case q of NaiveImpl n \<Rightarrow> naive_empty n | SpscImpl s \<Rightarrow> spsc_empty s | MpmcImpl m \<Rightarrow> mpmc_empty m)"

definition impl_shutdown :: "task_queue_impl \<Rightarrow> task_queue_impl" where
  "impl_shutdown q =
     (case q of
        NaiveImpl n \<Rightarrow> NaiveImpl (naive_shutdown n)
      | SpscImpl s \<Rightarrow> SpscImpl (spsc_shutdown s)
      | MpmcImpl m \<Rightarrow> MpmcImpl (mpmc_shutdown m))"

definition impl_contents :: "task_queue_impl \<Rightarrow> InferenceTask list" where
  "impl_contents q =
     (case q of NaiveImpl n \<Rightarrow> nq_data n | SpscImpl s \<Rightarrow> spsc_contents s | MpmcImpl m \<Rightarrow> mpmc_contents m)"

definition impl_accepts :: "task_queue_impl \<Rightarrow> bool" where
  "impl_accepts q = (case q of NaiveImpl n \<Rightarrow> True | SpscImpl s \<Rightarrow> spsc_accepts s | MpmcImpl m \<Rightarrow> mpmc_accepts m)"

definition impl_inv :: "task_queue_impl \<Rightarrow> bool" where
  "impl_inv q = (case q of NaiveImpl n \<Rightarrow> True | SpscImpl s \<Rightarrow> spsc_inv s | MpmcImpl m \<Rightarrow> mpmc_inv m)"

lemmas impl_defs = impl_push_def impl_pop_def impl_pop_batch_def impl_shutdown_def impl_contents_def
  impl_accepts_def impl_inv_def

text \<open>A law holds for the dispatched queue because it holds for each implementation.\<close>

lemma impl_push_taken:
  assumes "impl_inv q" "impl_accepts q"
  shows "\<exists>q'. impl_push t q = Returns (True, q') \<and> impl_inv q' \<and> impl_contents q' = impl_contents q @ [t]"
proof (cases q)
  case (NaiveImpl n)
  then show ?thesis using nq.push_taken [of t n] by (auto simp: impl_defs)
next
  case (SpscImpl s)
  then show ?thesis using assms sq.push_taken [of s t] by (auto simp: impl_defs)
next
  case (MpmcImpl m)
  then show ?thesis using assms mq.push_taken [of m t] by (auto simp: impl_defs)
qed

lemma impl_pop_some:
  assumes "impl_inv q" "impl_contents q = t # ts"
  shows "\<exists>q'. impl_pop q = Returns (Some t, q') \<and> impl_inv q' \<and> impl_contents q' = ts"
proof (cases q)
  case (NaiveImpl n)
  then show ?thesis using assms nq.pop_some [of n t ts] by (auto simp: impl_defs)
next
  case (SpscImpl s)
  then show ?thesis using assms sq.pop_some [of s t ts] by (auto simp: impl_defs)
next
  case (MpmcImpl m)
  then show ?thesis using assms mq.pop_some [of m t ts] by (auto simp: impl_defs)
qed

lemma impl_pop_batch_some:
  assumes "impl_inv q" "impl_contents q \<noteq> []"
  shows "\<exists>q'. impl_pop_batch b m q =
          Returns (of_nat (batch_count m (impl_contents q)), b @ take (batch_count m (impl_contents q)) (impl_contents q), q') \<and>
        impl_inv q' \<and> impl_contents q' = drop (batch_count m (impl_contents q)) (impl_contents q)"
proof (cases q)
  case (NaiveImpl n)
  then show ?thesis using assms nq.pop_batch_some [of n b m] by (auto simp: impl_defs)
next
  case (SpscImpl s)
  then show ?thesis using assms sq.pop_batch_some [of s b m] by (auto simp: impl_defs)
next
  case (MpmcImpl c)
  then show ?thesis using assms mq.pop_batch_some [of c b m] by (auto simp: impl_defs)
qed

lemma impl_none:
  assumes "impl_inv q" "impl_contents q = []"
  shows "impl_pop q = Waits \<or> impl_pop q = Returns (None, q)"
    "impl_pop_batch b m q = Waits \<or> impl_pop_batch b m q = Returns (0, b, q)"
proof -
  show "impl_pop q = Waits \<or> impl_pop q = Returns (None, q)"
    using assms nq.pop_none sq.pop_none mq.pop_none by (cases q) (fastforce simp: impl_defs)+
  show "impl_pop_batch b m q = Waits \<or> impl_pop_batch b m q = Returns (0, b, q)"
    using assms nq.pop_batch_none [of _ b m] sq.pop_batch_none [of _ b m] mq.pop_batch_none [of _ b m]
    by (cases q) (fastforce simp: impl_defs)+
qed

interpretation iq: task_queue impl_push impl_pop impl_pop_batch impl_shutdown impl_contents impl_accepts impl_inv
proof
  fix q t
  show "impl_push t q = Returns (False, q)" if "impl_inv q" "\<not> impl_accepts q"
    using that sq.push_refused mq.push_refused by (cases q) (auto simp: impl_defs)
  show "impl_inv (impl_shutdown q) \<and> impl_contents (impl_shutdown q) = impl_contents q" if "impl_inv q"
    using that nq.shutdown_keeps sq.shutdown_keeps mq.shutdown_keeps by (cases q) (auto simp: impl_defs)
qed (rule impl_push_taken impl_pop_some impl_pop_batch_some impl_none; assumption)+

interpretation isv: lumen_service impl_push impl_pop impl_pop_batch impl_shutdown impl_contents impl_accepts impl_inv
  "pool_answers env pods" for env pods
  by (intro lumen_service.intro iq.task_queue_axioms lumen_service_axioms.intro)
    (auto dest!: pool_answers_pod dest: pod_answers_client pod_answers_length)

interpretation idp: lumen_deployment impl_push impl_pop impl_pop_batch impl_shutdown impl_contents impl_accepts impl_inv
  "pool_answers env pods" env "pod_of env pods" for env pods
  by (intro lumen_deployment.intro isv.lumen_service_axioms lumen_deployment_axioms.intro pool_serves)

definition impl_released :: "task_queue_impl \<Rightarrow> bool" where
  "impl_released q = (case q of NaiveImpl n \<Rightarrow> nq_stop n | _ \<Rightarrow> True)"

interpretation ist: stoppable_queue impl_push impl_pop impl_pop_batch impl_shutdown impl_contents impl_accepts impl_inv
  impl_released
proof (intro stoppable_queue.intro iq.task_queue_axioms stoppable_queue_axioms.intro)
  fix q b m n b' q' t ok
  show "impl_released (impl_shutdown q)"
    by (cases q) (simp_all add: impl_released_def impl_shutdown_def naive_shutdown_def)
  assume q: "impl_inv q" "impl_released q"
  show "impl_pop_batch b m q \<noteq> Waits"
  proof (cases q)
    case (NaiveImpl n)
    then show ?thesis
      using q nst.released_pop_batch [of n b m]
      by (cases "naive_pop_batch b m n") (auto simp: impl_released_def impl_pop_batch_def)
  next
    case (SpscImpl s)
    then show ?thesis
      using q spsc_pop_batch_returns [of s b m] by (cases "spsc_pop_batch b m s") (auto simp: impl_inv_def impl_pop_batch_def)
  next
    case (MpmcImpl c)
    then show ?thesis
      using q mpmc_pop_batch_returns [of c b m] by (cases "mpmc_pop_batch b m c") (auto simp: impl_inv_def impl_pop_batch_def)
  qed
  show "impl_released q'" if "impl_pop_batch b m q = Returns (n, b', q')"
    using that q(2) nst.released_after_pop
    by (cases q) (auto simp: impl_released_def impl_pop_batch_def elim!: map_call_Returns)
  show "impl_released q'" if "impl_push t q = Returns (ok, q')"
    using that q(2) nst.released_after_push
    by (cases q) (auto simp: impl_released_def impl_push_def elim!: map_call_Returns)
qed


subsection \<open>Choosing the parts\<close>

definition select_queue :: "QueueType \<Rightarrow> task_queue_impl" where
  "select_queue qt =
     (if qt = SPSC then SpscImpl spsc_new else if qt = MPMC then MpmcImpl mpmc_new else NaiveImpl naive_new)"

text \<open>A label path that is not a string raises an exception; a file that cannot be read gives no labels.\<close>

definition select_processors ::
  "(string \<Rightarrow> string option) \<Rightarrow> ConfigManager \<Rightarrow> json_error + (pre_processor option \<times> post_processor option)" where
  "select_processors read_file config =
     (if m_proc_type config = IMAGENET
      then (case get_metadata_extra ''label_path'' config of
              Inl e \<Rightarrow> Inl e
            | Inr path \<Rightarrow> Inr (Some ImageNetPreProcessor, Some (ImageNetPostProcessor_new (read_file path))))
      else Inr (None, None))"

datatype main_error = MetadataError json_error | PoolError pool_error | ServerError server_error

text \<open>
  What \<^verbatim>\<open>main\<close> is given: the configuration file, other files, the C library, the runtime with the
  session it opens for a model path, the machine, the network. What may differ from pod to pod
  takes the number of the pod.
\<close>

record 'h world =
  float_cast :: "double \<Rightarrow> size_t"
  json_parse :: "string \<Rightarrow> json option"
  config_file :: "string option"
  read_file :: "string \<Rightarrow> string option"
  aligned_alloc :: "nat \<Rightarrow> size_t \<Rightarrow> size_t \<Rightarrow> ptr"
  create_memory_info :: "nat \<Rightarrow> ptr option"
  ort_api_version :: uint32
  default_heap :: "nat \<Rightarrow> 'h"
  runtime :: "string \<Rightarrow> nat \<Rightarrow> 'h pod_allocator ort_runtime"
  thread_starts :: "nat \<Rightarrow> bool"
  hardware_concurrency :: size_t
  addresses :: "candidate list option"
  listen_ok :: bool
  stale :: poll_mask

definition main_config :: "'h world \<Rightarrow> ConfigManager" where
  "main_config w = fst (load_from_file (float_cast w) (json_parse w) (config_file w) config_defaults)"

definition world_pod :: "'h world \<Rightarrow> nat \<Rightarrow> (pool_error, 'h WorkerPod) ctor" where
  "world_pod w i =
     make_pod (aligned_alloc w i) (create_memory_info w i) (ort_api_version w) (default_heap w i)
       (runtime w (m_model_path (main_config w)) i) (m_alloc_type (main_config w))"

type_synonym 'h lumen_pool = "(task_queue_impl, NaiveResultQueue, 'h) ThreadPool"

text \<open>
  An exception carries what was built before it and is now destroyed: the pool after
  \<^verbatim>\<open>~ThreadPool\<close>, and the sockets the constructor of the server has closed.
\<close>

definition lumen_start ::
  "'h world \<Rightarrow> (main_error \<times> 'h lumen_pool option \<times> int list, 'h lumen_pool \<times> task_queue_impl TCPServer) ctor" where
  "lumen_start w =
     (let config = main_config w;
          task_q = select_queue (m_queue_type config);
          response_q = rq_new
      in case select_processors (read_file w) config of
           Inl e \<Rightarrow> Threw (MetadataError e, None, [])
         | Inr (pr, po) \<Rightarrow>
             (case pool_new (world_pod w) (thread_starts w) (hardware_concurrency w) config task_q response_q of
                Threw e \<Rightarrow> Threw (PoolError e, None, [])
              | Terminated \<Rightarrow> Terminated
              | Broken \<Rightarrow> Broken
              | Built pool \<Rightarrow>
                  (case server_new (addresses w) (listen_ok w) (stale w) task_q response_q pr po of
                     (cl, Inl e) \<Rightarrow> Threw (ServerError e, Some (pool_shutdown impl_shutdown pool), cl)
                   | (cl, Inr srv) \<Rightarrow> Built (pool, srv))))"

text \<open>
  \<^verbatim>\<open>while (g_running) server.run();\<close> over the successive readings of the flag; \<^verbatim>\<open>run\<close> itself goes on
  until it reads the flag as false.
\<close>

fun main_loop ::
  "(InferenceTask \<Rightarrow> 'q \<Rightarrow> (bool \<times> 'q) call) \<Rightarrow> (bool \<times> (bool \<times> net) list) list \<Rightarrow> 'q TCPServer \<Rightarrow> bool \<times> 'q TCPServer" where
  "main_loop psh [] srv = (False, srv)"
| "main_loop psh ((g, nets) # rest) srv =
     (if g
      then (case server_run psh nets srv of
              (returned, srv') \<Rightarrow> if returned then main_loop psh rest srv' else (False, srv'))
      else (True, srv))"

text \<open>
  What \<^verbatim>\<open>main\<close> leaves behind when it returns: the exit code, the pool, the sockets that were
  closed, in order, and the telemetry, if it was ever asked for.
\<close>

record 'h main_exit =
  exit_code :: int
  exit_pool :: "'h lumen_pool option"
  exit_closed :: "int list"
  exit_telemetry :: "TelemetryManager option"

datatype 'h main_outcome = Exits "'h main_exit" | Running | Killed | Derailed

text \<open>
  The server and the pool hold the same queues, so the pool is destroyed with the queues as the
  server left them; the server, constructed later, is destroyed before it. The telemetry is
  stopped on the normal way out; after an exception during the construction nothing has asked
  for it.
\<close>

definition lumen_main ::
  "'h world \<Rightarrow> (bool \<times> (bool \<times> net) list) list \<Rightarrow> TelemetryManager option \<Rightarrow> 'h main_outcome" where
  "lumen_main w readings tel =
     (case lumen_start w of
        Terminated \<Rightarrow> Killed
      | Broken \<Rightarrow> Derailed
      | Threw (e, pool, cl) \<Rightarrow>
          Exits \<lparr>exit_code = 1, exit_pool = pool, exit_closed = cl, exit_telemetry = None\<rparr>
      | Built (pool, srv) \<Rightarrow>
          (case main_loop impl_push readings srv of
             (False, srv') \<Rightarrow> Running
           | (True, srv') \<Rightarrow>
               Exits \<lparr>exit_code = 0,
                      exit_pool = Some (pool_shutdown impl_shutdown
                        (pool\<lparr>task_queue := srv_tasks srv', response_queue := srv_results srv'\<rparr>)),
                      exit_closed = closed_fds srv' @ server_destroy srv',
                      exit_telemetry = Some (telemetry_stop (telemetry_get tel))\<rparr>))"



subsection \<open>Properties\<close>

text \<open>The server of \<^verbatim>\<open>main\<close> with the log of offered tasks beside its queue.\<close>

definition with_log :: "'q TCPServer \<Rightarrow> ('q \<times> InferenceTask list) TCPServer" where
  "with_log srv =
     \<lparr>sockfd = sockfd srv, pollfds = pollfds srv, srv_pre = srv_pre srv, srv_post = srv_post srv,
      srv_tasks = (srv_tasks srv, []), srv_results = srv_results srv, sessions = sessions srv,
      trace_id_gen = trace_id_gen srv, captured = captured srv, closed_fds = closed_fds srv,
      wire = wire srv\<rparr>"

lemma server_new_log:
  "server_new a l st tq rq pr po = (cl, Inr srv) \<Longrightarrow> server_new a l st (tq, []) rq pr po = (cl, Inr (with_log srv))"
  by (auto simp: server_new_def with_log_def split: option.splits prod.splits if_splits)

lemma server_new_queues:
  "server_new a l st tq rq pr po = (cl, Inr srv) \<Longrightarrow> srv_tasks srv = tq \<and> srv_results srv = rq"
  by (auto simp: server_new_def split: option.splits prod.splits if_splits)

lemma lumen_startD:
  assumes "lumen_start w = Built (pool, srv)"
  obtains pr po cl where "select_processors (read_file w) (main_config w) = Inr (pr, po)"
    "pool_new (world_pod w) (thread_starts w) (hardware_concurrency w) (main_config w)
       (select_queue (m_queue_type (main_config w))) rq_new = Built pool"
    "server_new (addresses w) (listen_ok w) (stale w) (select_queue (m_queue_type (main_config w))) rq_new pr po = (cl, Inr srv)"
  using assms by (auto simp: lumen_start_def Let_def split: sum.splits prod.splits ctor.splits)

lemma new_pool_shutdown:
  "pool_new mk st hw c tq rq = Built pool \<Longrightarrow>
     stop (pool_shutdown q_sd pool) \<and> True \<notin> set (joinable (pool_shutdown q_sd pool))"
  using pool_new_Built(4) [of mk st hw c tq rq pool] by (auto simp: pool_shutdown_def)

lemma failed_server_closed: "server_new (Some cs) ls sl tq rq pr po = (cl, Inl e) \<Longrightarrow> cl = opened cs"
  using bind_first_opened [of cs] by (auto simp: server_new_def split: prod.splits option.splits if_splits)

lemma lumen_start_ThrewD:
  assumes "lumen_start w = Threw (e, p, cl)" "addresses w = Some cs"
  shows "(\<exists>e' pool. e = ServerError e' \<and> cl = opened cs \<and> p = Some pool \<and> stop pool \<and> True \<notin> set (joinable pool)) \<or>
    ((\<forall>e'. e \<noteq> ServerError e') \<and> cl = [] \<and> p = None)"
  using assms(1) unfolding lumen_start_def assms(2) Let_def
  by (auto split: sum.splits prod.splits ctor.splits dest: new_pool_shutdown failed_server_closed)

lemma opened_nonneg:
  assumes "\<forall>c \<in> set cs. -1 \<le> cand_socket c"
  shows "\<forall>fd \<in> set (opened cs). 0 \<le> fd"
proof -
  have "set (tried cs) \<subseteq> set cs"
    by (induction cs) auto
  then show ?thesis
    using assms by (fastforce simp: opened_def)
qed

lemma select_queue_ok: "impl_inv (select_queue qt)" "impl_contents (select_queue qt) = []"
  using spsc_new_inv mpmc_new_inv by (auto simp: select_queue_def impl_defs naive_new_def)

text \<open>
  C1: the whole program, for every configuration file, malformed or not: if \<^verbatim>\<open>main\<close> gets its parts
  built, then in every state that the server thread and the worker threads of the pool can reach
  together, on whichever queue and with whatever batch size was chosen, every connection in the
  sending state holds an answer to its own last request, which the engine of one of the pods that
  \<^verbatim>\<open>main\<close> built gave in a state that serving requests brought it to; at most one request per
  connection is under way, queued, in a worker's batch or answered and not yet delivered; and a
  single-consumer queue has exactly one worker.
\<close>

theorem any_configuration_serves:
  assumes start: "lumen_start w = Built (pool, srv)"
    and run: "(deployed_step impl_push impl_pop_batch env (m_batch_size (main_config w)))\<^sup>*\<^sup>*
      (deployment_start (with_log srv) pool) d"
  shows "(\<forall>fd s. sessions (server (front_end d)) fd = Some s \<longrightarrow> state s = RESPONSE_SENDING \<longrightarrow>
      (\<exists>t r. last_task fd (snd (srv_tasks (server (front_end d)))) = Some t \<and> client_fd t = fd \<and>
        pool_answers env (worker_pods pool) t r \<and> response_buffer s = response r)) \<and>
    distinct (under_way impl_contents d) \<and>
    (m_queue_type (main_config w) = SPSC \<longrightarrow> length (worker_pods pool) = 1)"
proof -
  let ?work = "pool_answers env (worker_pods pool)"
  obtain pr po cl where parts: "pool_new (world_pod w) (thread_starts w) (hardware_concurrency w) (main_config w)
      (select_queue (m_queue_type (main_config w))) rq_new = Built pool"
    "server_new (addresses w) (listen_ok w) (stale w) (select_queue (m_queue_type (main_config w))) rq_new pr po = (cl, Inr srv)"
    by (rule lumen_startD [OF start])
  have "refines (deployment_start (with_log srv) pool) (system_start (with_log srv))"
    using pool_new_Built(2,3) [OF parts(1)] server_new_queues [OF parts(2)] by (intro refines_start) (simp_all add: with_log_def)
  moreover have init: "system_inv impl_contents impl_inv ?work (system_start (with_log srv))"
    unfolding system_start_def by (rule isv.init_inv [OF server_new_log [OF parts(2)] select_queue_ok])
  moreover have "idp.pods_good env (worker_pods pool) (back_end (deployment_start (with_log srv) pool))"
    by (auto simp: deployment_start_def pod_of_def intro!: idp.pods_good_start pod_state.built)
  ultimately obtain \<tau> where \<tau>: "(system_step impl_push impl_pop_batch ?work)\<^sup>*\<^sup>* (system_start (with_log srv)) \<tau>" "refines d \<tau>"
    using idp.deployed_run_refines [OF run] by blast
  have inv: "core impl_contents impl_inv ?work (in_hand \<tau>) (server \<tau>)"
    using isv.steps_keep [OF \<tau>(1) init] by (simp add: system_inv_def)
  have srv: "server \<tau> = server (front_end d)"
    using \<tau>(2) by (simp add: refines_def)
  have "\<exists>t r. last_task fd (snd (srv_tasks (server (front_end d)))) = Some t \<and> client_fd t = fd \<and>
      ?work t r \<and> response_buffer s = response r"
    if "sessions (server (front_end d)) fd = Some s" "state s = RESPONSE_SENDING" for fd s
    using that inv last_task_client [of fd] unfolding srv core_def answers_last_def by metis
  moreover have "distinct (under_way impl_contents d)"
    using inv by (intro under_way_distinct [OF \<tau>(2)]) (simp add: core_def)
  moreover have "spsc_single (main_config w)"
    using load_json_spsc [of config_defaults]
    by (auto simp: main_config_def load_from_file_json spsc_single_def config_defaults_def split: option.splits)
  ultimately show ?thesis
    using pool_new_Built(1) [OF parts(1)] by (simp add: spsc_single_def pool_thread_count_def)
qed

definition raw_file :: json where
  "raw_file = JObject [(''model'', JObject [(''processor_type'', JString ''raw'')])]"

definition raw_world :: "unit world" where
  "raw_world =
     \<lparr>float_cast = (\<lambda>d. 0), json_parse = (\<lambda>s. Some raw_file), config_file = Some '''', read_file = (\<lambda>p. None),
      aligned_alloc = (\<lambda>i al n. 4096), create_memory_info = (\<lambda>i. Some 1), ort_api_version = 17,
      default_heap = (\<lambda>i. ()), runtime = (\<lambda>path i. example_runtime), thread_starts = (\<lambda>i. True),
      hardware_concurrency = 4, addresses = Some one_candidate, listen_ok = True, stale = 0\<rparr>"

lemma raw_world_config:
  "m_queue_type (main_config raw_world) = NAIVE_MUTEX" "m_proc_type (main_config raw_world) = RAW_TENSOR"
  "m_alloc_type (main_config raw_world) = STANDARD" "m_batch_size (main_config raw_world) = 1"
  by (simp_all add: main_config_def raw_world_def load_from_file_json raw_file_def config_defaults_def load_defs)

lemma raw_world_starts:
  "\<exists>pool srv pods. lumen_start raw_world = Built (pool, srv) \<and> with_log srv = start_server (NaiveImpl naive_new) \<and>
     srv_pre srv = None \<and> srv_post srv = None \<and> worker_pods pool = example_pod # pods \<and>
     task_queue pool = NaiveImpl naive_new \<and> response_queue pool = rq_new \<and> \<not> stop pool"
proof -
  have pod: "world_pod raw_world i = Built example_pod" for i
    unfolding world_pod_def raw_world_config by (simp add: raw_world_def example_runtime_pod)
  have pods: "make_pods (world_pod raw_world) (\<lambda>i. True) i n = Built (replicate n example_pod)" for i n
    by (induction n arbitrary: i) (simp_all add: pod)
  obtain n where n: "unat (pool_thread_count 4 (main_config raw_world)) = Suc n"
    using pool_thread_count_pos by (metis gr0_implies_Suc)
  let ?pool = "\<lparr>task_queue = NaiveImpl naive_new, response_queue = rq_new, worker_pods = replicate (Suc n) example_pod,
    joinable = replicate (Suc n) True, stop = False\<rparr>"
  have "pool_new (world_pod raw_world) (\<lambda>i. True) 4 (main_config raw_world) (NaiveImpl naive_new) rq_new = Built ?pool"
    unfolding pool_new_def n pods by simp
  moreover have fields: "thread_starts raw_world = (\<lambda>i. True)" "hardware_concurrency raw_world = 4"
    "addresses raw_world = Some one_candidate" "listen_ok raw_world" "stale raw_world = 0"
    by (simp_all add: raw_world_def)
  ultimately show ?thesis
    by (auto simp: lumen_start_def Let_def raw_world_config select_queue_def select_processors_def server_new_def
        one_candidate_def with_log_def start_server_def)
qed

lemma impl_sample:
  "impl_push sample_task (NaiveImpl naive_new) = Returns (True, NaiveImpl (naive_new\<lparr>nq_data := [sample_task]\<rparr>))"
  "impl_pop_batch [] 1 (NaiveImpl (naive_new\<lparr>nq_data := [sample_task]\<rparr>)) = Returns (1, [sample_task], NaiveImpl naive_new)"
  by (simp_all add: impl_push_def impl_pop_batch_def naive_sample)

theorem any_configuration_serves_witness:
  "\<exists>pool srv d s t r. lumen_start raw_world = Built (pool, srv) \<and>
     (deployed_step impl_push impl_pop_batch example_env 1)\<^sup>*\<^sup>* (deployment_start (with_log srv) pool) d \<and>
     sessions (server (front_end d)) 7 = Some s \<and> client_fd t = 7 \<and>
     pool_answers example_env (worker_pods pool) t r \<and> response_buffer s = response r"
proof -
  obtain pool srv pods where start: "lumen_start raw_world = Built (pool, srv)" "with_log srv = start_server (NaiveImpl naive_new)"
    and p: "task_queue pool = NaiveImpl naive_new" "response_queue pool = rq_new" "worker_pods pool = example_pod # pods" "\<not> stop pool"
    using raw_world_starts by blast
  obtain d s where run: "(deployed_step impl_push impl_pop_batch example_env 1)\<^sup>*\<^sup>* (deployment_start (with_log srv) pool) d"
    "sessions (server (front_end d)) 7 = Some s" "state s = RESPONSE_SENDING"
    using sample_deployed [where psh = impl_push and bat = impl_pop_batch, OF impl_sample _ p] start(2) by auto
  from any_configuration_serves [OF start(1) run(1) [folded raw_world_config(4)]] show ?thesis
    using start(1) run by blast
qed

text \<open>
  C13: the pool shuts down, whatever the configuration and whatever the workers and the server are
  doing when \<^verbatim>\<open>shutdown\<close> is called. Its first three steps (flag, queue, notification) never wait.
  From then on no worker can park, so the pool's threads together take a bounded number of
  steps, however many tasks are still pushed; and a state in which none of them can move is one
  in which \<^verbatim>\<open>shutdown\<close> has returned, provided that no inference ends in an exception. When it has
  returned, every worker has left its loop, so no thread uses a pod that is then destroyed.
\<close>

theorem shutdown_joins_workers:
  assumes start: "lumen_start w = Built (pool, srv)"
    and reach: "pool_run impl_push impl_pop_batch rq_push impl_shutdown env bs n (pool_sys_start pool) s"
  shows "(\<not> joining s \<longrightarrow> stop_step impl_shutdown s \<noteq> None) \<and>
    (joining s \<longrightarrow> pool_run impl_push impl_pop_batch rq_push impl_shutdown env bs k s s' \<longrightarrow>
       k \<le> length (phases s) * (unat bs + 5) + 1 \<and>
       ((\<forall>s''. \<not> pool_step impl_pop_batch rq_push impl_shutdown env bs s' s'') \<longrightarrow>
         inference_returns env rq_push s' \<longrightarrow> stopping s' = Stopped)) \<and>
    (stopping s = Stopped \<longrightarrow> set (phases s) \<subseteq> {Quit} \<and> True \<notin> set (joinable (the_pool s)))"
proof -
  obtain pr po cl where parts: "pool_new (world_pod w) (thread_starts w) (hardware_concurrency w) (main_config w)
      (select_queue (m_queue_type (main_config w))) rq_new = Built pool"
    by (rule lumen_startD [OF start])
  have "pool_sys_inv impl_inv impl_released bs (pool_sys_start pool)"
    using pool_new_Built [OF parts] select_queue_ok by (intro ist.start_inv) simp_all
  then have inv: "pool_sys_inv impl_inv impl_released bs s"
    by (rule ist.run_keeps [OF reach])
  have "\<not> joining s \<longrightarrow> stop_step impl_shutdown s \<noteq> None"
    by (auto simp: joining_def stop_step_def Let_def split: stop_phase.splits)
  moreover have "k \<le> length (phases s) * (unat bs + 5) + 1 \<and>
      ((\<forall>s''. \<not> pool_step impl_pop_batch rq_push impl_shutdown env bs s' s'') \<longrightarrow>
        inference_returns env rq_push s' \<longrightarrow> stopping s' = Stopped)"
    if "joining s" "pool_run impl_push impl_pop_batch rq_push impl_shutdown env bs k s s'"
  proof
    have used: "joining s'" "k \<le> pool_steps bs s"
      using ist.run_uses_steps [OF that(2) inv that(1)] by simp_all
    then show "k \<le> length (phases s) * (unat bs + 5) + 1"
      using pool_steps_bound [OF inv that(1)] by linarith
    show "(\<forall>s''. \<not> pool_step impl_pop_batch rq_push impl_shutdown env bs s' s'') \<longrightarrow>
        inference_returns env rq_push s' \<longrightarrow> stopping s' = Stopped"
      using ist.joining_progress [OF ist.run_keeps [OF that(2) inv] used(1)] by blast
  qed
  moreover have "stopping s = Stopped \<longrightarrow> set (phases s) \<subseteq> {Quit} \<and> True \<notin> set (joinable (the_pool s))"
    using inv by (auto simp: pool_sys_inv_def stop_stage_def Let_def)
  ultimately show ?thesis
    by blast
qed

theorem shutdown_joins_workers_witness:
  "\<exists>pool srv s. lumen_start raw_world = Built (pool, srv) \<and>
     pool_run impl_push impl_pop_batch rq_push impl_shutdown example_env 1 3 (pool_sys_start pool) s \<and>
     stopping s = Joining 0 \<and>
     (\<forall>k s'. pool_run impl_push impl_pop_batch rq_push impl_shutdown example_env 1 k s s' \<longrightarrow> k \<le> length (phases s) * 6 + 1)"
proof -
  obtain pool srv where start: "lumen_start raw_world = Built (pool, srv)"
    using raw_world_starts by blast
  then have run: "\<not> stop pool"
    by (auto elim!: lumen_startD dest: pool_new_Built)
  let ?s1 = "(pool_sys_start pool)\<lparr>the_pool := pool\<lparr>stop := True\<rparr>, stopping := FlagSet\<rparr>"
  let ?s2 = "?s1\<lparr>the_pool := (the_pool ?s1)\<lparr>task_queue := impl_shutdown (task_queue (the_pool ?s1))\<rparr>, stopping := QueueStopped\<rparr>"
  let ?s3 = "?s2\<lparr>phases := map wake (phases ?s2), stopping := Joining 0\<rparr>"
  have "stop_step impl_shutdown (pool_sys_start pool) = Some ?s1" "stop_step impl_shutdown ?s1 = Some ?s2"
    "stop_step impl_shutdown ?s2 = Some ?s3"
    using run by (simp_all add: stop_step_def pool_sys_start_def)
  then have "pool_run impl_push impl_pop_batch rq_push impl_shutdown example_env 1 (Suc (Suc (Suc 0))) (pool_sys_start pool) ?s3"
    by (meson pool_run.idle pool_run.own pool_step.halt)
  then have reach: "pool_run impl_push impl_pop_batch rq_push impl_shutdown example_env 1 3 (pool_sys_start pool) ?s3"
    by (simp add: numeral_3_eq_3)
  have "joining ?s3"
    by (simp add: joining_def)
  then have "k \<le> length (phases ?s3) * 6 + 1"
    if "pool_run impl_push impl_pop_batch rq_push impl_shutdown example_env 1 k ?s3 s'" for k s'
    using shutdown_joins_workers [OF start reach, of k s'] that by simp
  then show ?thesis
    using start reach by (intro exI [of _ pool] exI [of _ srv] exI [of _ ?s3]) simp
qed

text \<open>What the calls of \<^verbatim>\<open>run\<close> in \<^verbatim>\<open>main\<close> accept, and the promise of the kernel during them.\<close>

fun main_accepted ::
  "(InferenceTask \<Rightarrow> 'q \<Rightarrow> (bool \<times> 'q) call) \<Rightarrow> (bool \<times> (bool \<times> net) list) list \<Rightarrow> 'q TCPServer \<Rightarrow> int list" where
  "main_accepted psh [] srv = []"
| "main_accepted psh ((g, nets) # rest) srv =
     (if g then run_accepted psh nets srv @
        (case server_run psh nets srv of (returned, srv') \<Rightarrow> if returned then main_accepted psh rest srv' else [])
      else [])"

fun main_contract ::
  "(InferenceTask \<Rightarrow> 'q \<Rightarrow> (bool \<times> 'q) call) \<Rightarrow> (bool \<times> (bool \<times> net) list) list \<Rightarrow> 'q TCPServer \<Rightarrow> bool" where
  "main_contract psh [] srv = True"
| "main_contract psh ((g, nets) # rest) srv =
     (g \<longrightarrow> run_contract psh nets srv \<and>
        (case server_run psh nets srv of (returned, srv') \<Rightarrow> returned \<longrightarrow> main_contract psh rest srv'))"

lemma main_loop_descriptors:
  assumes "listener_first srv" "main_contract psh rs srv" "main_loop psh rs srv = (fin, srv')"
  shows "descriptors srv' = descriptors srv + mset (main_accepted psh rs srv) \<and>
    list_all (\<lambda>fd. 0 \<le> fd) (main_accepted psh rs srv)"
  using assms
proof (induction rs arbitrary: srv)
  case (Cons gn rs)
  obtain g nets where gn: "gn = (g, nets)"
    by (cases gn)
  obtain returned srv1 where run: "server_run psh nets srv = (returned, srv1)"
    by fastforce
  show ?case
  proof (cases g)
    case True
    then have "run_contract psh nets srv"
      using Cons.prems(2) gn by simp
    note one = run_descriptors [OF Cons.prems(1) this run]
    show ?thesis
      using Cons.IH [of srv1] one Cons.prems(2,3) gn True run by (cases returned) auto
  qed (use Cons.prems gn in auto)
qed simp

text \<open>
  C15: \<^verbatim>\<open>main\<close> leaves nothing open, neither when it leaves its loop nor when it cannot start (an
  exception that leaves \<^verbatim>\<open>run\<close> is treated in \<^verbatim>\<open>Signals\<close>). When it returns, the sockets that were closed
  are exactly those it was given, each closed once: the candidates its constructor tried, the
  listening socket and every accepted connection, however many iterations ran and whatever the
  clients did; after a failed start, those the constructor opened. A pool that was built has been
  shut down with no thread left to join. The hypotheses are what the kernel promises of \<^verbatim>\<open>socket\<close>,
  \<^verbatim>\<open>accept\<close> and \<^verbatim>\<open>poll\<close>.
\<close>

theorem main_closes_every_socket:
  assumes "lumen_main w readings tel = Exits x" "addresses w = Some cs" "\<forall>c \<in> set cs. -1 \<le> cand_socket c"
    and "\<And>pool srv. lumen_start w = Built (pool, srv) \<Longrightarrow> main_contract impl_push readings srv"
  shows "(case lumen_start w of
      Built (pool, srv) \<Rightarrow> exit_code x = 0 \<and> mset (exit_closed x) = mset (opened cs) + mset (main_accepted impl_push readings srv)
    | Threw (ServerError e, _) \<Rightarrow> exit_code x = 1 \<and> exit_closed x = opened cs
    | _ \<Rightarrow> exit_code x = 1 \<and> exit_closed x = []) \<and>
    (\<forall>pool. exit_pool x = Some pool \<longrightarrow> stop pool \<and> True \<notin> set (joinable pool))"
proof (cases "lumen_start w")
  case (Built ps)
  obtain pool srv where ps: "lumen_start w = Built (pool, srv)"
    using Built by (cases ps) simp
  obtain pr po cl where parts: "pool_new (world_pod w) (thread_starts w) (hardware_concurrency w) (main_config w)
      (select_queue (m_queue_type (main_config w))) rq_new = Built pool"
    "server_new (Some cs) (listen_ok w) (stale w) (select_queue (m_queue_type (main_config w))) rq_new pr po = (cl, Inr srv)"
    using lumen_startD [OF ps] assms(2) by metis
  obtain srv' where loop: "main_loop impl_push readings srv = (True, srv')"
    "exit_closed x = closed_fds srv' @ server_destroy srv'" "exit_code x = 0"
    "exit_pool x = Some (pool_shutdown impl_shutdown (pool\<lparr>task_queue := srv_tasks srv', response_queue := srv_results srv'\<rparr>))"
    using assms(1) ps by (auto simp: lumen_main_def split: prod.splits bool.splits)
  note new = new_server_descriptors [OF parts(2)]
  have fds: "descriptors srv' = mset (opened cs) + mset (main_accepted impl_push readings srv)"
    "list_all (\<lambda>fd. 0 \<le> fd) (main_accepted impl_push readings srv)"
    using main_loop_descriptors [OF new(1) assms(4) [OF ps] loop(1)] new(2) by simp_all
  then have "mset (exit_closed x) = mset (opened cs) + mset (main_accepted impl_push readings srv)"
    using destroy_closes [of srv'] opened_nonneg [OF assms(3)] unfolding loop(2) by (auto simp: list_all_iff)
  then show ?thesis
    using ps loop(3,4) pool_new_Built(4) [OF parts(1)] by (auto simp: pool_shutdown_def)
next
  case (Threw ep)
  obtain e p cl where ep: "lumen_start w = Threw (e, p, cl)"
    using Threw by (cases ep) auto
  then have x: "x = \<lparr>exit_code = 1, exit_pool = p, exit_closed = cl, exit_telemetry = None\<rparr>"
    using assms(1) by (simp add: lumen_main_def)
  show ?thesis
    using lumen_start_ThrewD [OF ep assms(2)] by (cases e) (auto simp: ep x)
qed (use assms(1) in \<open>auto simp: lumen_main_def\<close>)

definition visit :: net where
  "visit = sample_net\<lparr>accept_ret := 7, poll_revents := (\<lambda>fd. if fd = 3 then POLLIN else 0)\<rparr>"

definition one_visit :: "(bool \<times> (bool \<times> net) list) list" where
  "one_visit = [(True, [(True, visit), (False, visit)]), (False, [])]"

theorem main_closes_every_socket_witness:
  "\<exists>x. lumen_main raw_world one_visit None = Exits x \<and> exit_code x = 0 \<and> mset (exit_closed x) = {#3, 7#}"
proof -
  obtain pool srv where start: "lumen_start raw_world = Built (pool, srv)" "with_log srv = start_server (NaiveImpl naive_new)"
    using raw_world_starts by blast
  have "sockfd (with_log srv) = 3" "map pfd_fd (pollfds (with_log srv)) = [3]"
    unfolding start(2) by (simp_all add: start_server_def)
  then have map: "sockfd srv = 3" "map pfd_fd (pollfds srv) = [3]"
    by (simp_all add: with_log_def)
  have srv: "sockfd srv = 3" "pfd_fd ` set (pollfds srv) = {3}"
    using map(1) arg_cong [OF map(2), of set] by simp_all
  have visit: "descriptor_contract visit srv" "accepted_in visit srv = [7]"
    by (simp_all add: descriptor_contract_def accepted_in_def visit_def sample_net_def srv POLLIN_def POLLOUT_def)
  have "\<exists>x. lumen_main raw_world one_visit None = Exits x"
    by (simp add: lumen_main_def start(1) one_visit_def)
  then obtain x where x: "lumen_main raw_world one_visit None = Exits x"
    by blast
  have cs: "addresses raw_world = Some one_candidate" "\<forall>c \<in> set one_candidate. -1 \<le> cand_socket c" "opened one_candidate = [3]"
    by (simp_all add: raw_world_def one_candidate_def opened_def)
  have "main_contract impl_push one_visit srv'" if "lumen_start raw_world = Built (pool', srv')" for pool' srv'
    using that start(1) visit(1) by (simp add: one_visit_def)
  then have "exit_code x = 0" "mset (exit_closed x) = mset (opened one_candidate) + mset (main_accepted impl_push one_visit srv)"
    using main_closes_every_socket [OF x cs(1,2)] start(1) by simp_all
  then show ?thesis
    using x cs(3) visit(2) by (simp add: one_visit_def)
qed

text \<open>
  A configuration with a processor type other than \<^verbatim>\<open>imagenet\<close> starts without complaint, with no
  processors; then the first request with a full payload dereferences a null preprocessor in
  the worker, whatever the runtime and the allocator do.
\<close>

theorem null_processor_is_dereferenced:
  assumes "lumen_start w = Built (pool, srv)" "m_proc_type (main_config w) \<noteq> IMAGENET"
    and "engine_shapes eng mem = Some (ish, osh)" "\<not> of_nat (length body) < element_count ish"
  shows "fst (engine_run al fr sess g clk eng mem (new_task fd body (srv_pre srv) (srv_post srv) tr) st) = Undefined"
proof -
  obtain pr po cl where parts: "select_processors (read_file w) (main_config w) = Inr (pr, po)"
    "server_new (addresses w) (listen_ok w) (stale w) (select_queue (m_queue_type (main_config w))) rq_new pr po = (cl, Inr srv)"
    by (rule lumen_startD [OF assms(1)])
  have "pr = None"
    using parts(1) assms(2) by (simp add: select_processors_def)
  then have "srv_pre srv = None"
    using parts(2) by (auto simp: server_new_def split: option.splits prod.splits if_splits)
  then show ?thesis
    using assms(3,4) by (simp add: engine_run_def Let_def new_task_def split: prod.splits)
qed

theorem null_processor_is_dereferenced_witness:
  "\<exists>pool srv. lumen_start raw_world = Built (pool, srv) \<and>
     fst (engine_run (\<lambda>n s. (4096, s)) (\<lambda>p s. s) example_session 0 int (example_engine [1, 3, 1, 2]) Map.empty
       (new_task 7 [0, 0, 0, 0, 0, 0] (srv_pre srv) (srv_post srv) None) ()) = Undefined"
proof -
  obtain pool srv where start: "lumen_start raw_world = Built (pool, srv)"
    using raw_world_starts by blast
  have "\<not> of_nat (length [0, 0, 0, 0, 0, 0 :: byte]) < element_count [1, 3, 1, 2]"
    by (simp add: element_count_def)
  from null_processor_is_dereferenced [OF start _ example_engine_shapes this] show ?thesis
    using start raw_world_config(2) by auto
qed

end
