(* ===== verification/Pool_Liveness.thy ===== *)
theory Pool_Liveness
  imports Pool_Lifecycle "HOL-Library.Multiset"
begin

section \<open>The pool answers what it is given\<close>

text \<open>
  The workers of the pool on the mutex queue with the notifications of \<^verbatim>\<open>push\<close>: a push leaves one
  notification due, which wakes one parked worker, if there is one. The pool's own steps, of the
  workers and of due notifications, end when nothing more is pushed; then every task has been
  answered and the workers sleep. No wake-up out of the blue is needed for that, though such
  wake-ups may happen.
\<close>

subsection \<open>Workers and notifications\<close>

record 'h notified =
  workers :: "(NaiveTaskQueue, NaiveResultQueue, 'h) pool_sys"
  due :: nat

text \<open>The steps of the pool itself.\<close>

inductive own_step :: "'h pod_env \<Rightarrow> size_t \<Rightarrow> 'h notified \<Rightarrow> 'h notified \<Rightarrow> bool" for env bs where
  work: "i < length (phases (workers c)) \<Longrightarrow>
     worker_step naive_pop_batch rq_push env bs t0 clk i (workers c) = Some s' \<Longrightarrow>
     own_step env bs c (c\<lparr>workers := s'\<rparr>)"
| notify_one: "due c = Suc d \<Longrightarrow> i < length (phases (workers c)) \<Longrightarrow> phases (workers c) ! i = Parked \<Longrightarrow>
     own_step env bs c (c\<lparr>workers := set_phase i Popping (workers c), due := d\<rparr>)"
| notify_nobody: "due c = Suc d \<Longrightarrow> Parked \<notin> set (phases (workers c)) \<Longrightarrow> own_step env bs c (c\<lparr>due := d\<rparr>)"

text \<open>What happens around it: pushes, results fetched by the server, spurious wake-ups.\<close>

inductive other_step :: "'h notified \<Rightarrow> 'h notified \<Rightarrow> bool" where
  offer: "naive_push t (task_queue (the_pool (workers c))) = Returns (ok, q') \<Longrightarrow>
     other_step c (c\<lparr>workers := (workers c)\<lparr>the_pool := (the_pool (workers c))\<lparr>task_queue := q'\<rparr>\<rparr>, due := due c + 1\<rparr>)"
| fetch: "other_step c (c\<lparr>workers := (workers c)\<lparr>the_pool := (the_pool (workers c))\<lparr>response_queue := r'\<rparr>\<rparr>\<rparr>)"
| spurious: "i < length (phases (workers c)) \<Longrightarrow> phases (workers c) ! i = Parked \<Longrightarrow>
     other_step c (c\<lparr>workers := set_phase i Popping (workers c)\<rparr>)"

definition any_step :: "'h pod_env \<Rightarrow> size_t \<Rightarrow> 'h notified \<Rightarrow> 'h notified \<Rightarrow> bool" where
  "any_step env bs c c' \<longleftrightarrow> own_step env bs c c' \<or> other_step c c'"

definition notified_start :: "(NaiveTaskQueue, NaiveResultQueue, 'h) ThreadPool \<Rightarrow> 'h notified" where
  "notified_start p = \<lparr>workers = pool_sys_start p, due = 0\<rparr>"

abbreviation queued :: "'h notified \<Rightarrow> InferenceTask list" where
  "queued c \<equiv> nq_data (task_queue (the_pool (workers c)))"


subsection \<open>No worker sleeps while there is work\<close>

text \<open>
  The pool is running, and while a worker is parked each queued task has a worker that is about
  to look at the queue, or a notification that is due.
\<close>

definition popping :: "worker_phase \<Rightarrow> nat" where
  "popping ph = (if ph = Popping then 1 else 0)"

definition awake :: "'h notified \<Rightarrow> bool" where
  "awake c \<longleftrightarrow>
     \<not> stop (the_pool (workers c)) \<and> \<not> nq_stop (task_queue (the_pool (workers c))) \<and>
     Quit \<notin> set (phases (workers c)) \<and>
     (Parked \<in> set (phases (workers c)) \<longrightarrow>
        length (queued c) \<le> sum_list (map popping (phases (workers c))) + due c)"

text \<open>A sum over the workers when one of them changes its phase.\<close>

lemma sum_phases_update:
  fixes f :: "'a \<Rightarrow> 'b :: comm_monoid_add"
  shows "i < length xs \<Longrightarrow> sum_list (map f (xs[i := y])) + f (xs ! i) = sum_list (map f xs) + f y"
proof (induction xs arbitrary: i)
  case (Cons a xs)
  show ?case
  proof (cases i)
    case (Suc j)
    then show ?thesis
      using Cons.IH [of j] Cons.prems by (simp add: add.assoc)
  qed (simp add: ac_simps)
qed simp

text \<open>What \<^verbatim>\<open>pop_batch\<close> gives a worker of a running pool: at least one task, or it waits.\<close>

lemma naive_batch_cases:
  assumes "bs \<noteq> 0" "\<not> nq_stop q"
  obtains "nq_data q = []" "naive_pop_batch [] bs q = Waits"
  | n ts rest where "nq_data q = ts @ rest" "ts \<noteq> []" "n \<noteq> 0" "naive_pop_batch [] bs q = Returns (n, ts, q\<lparr>nq_data := rest\<rparr>)"
proof (cases "nq_data q")
  case Nil
  then show thesis
    using assms(2) that(1) by (simp add: naive_defs)
next
  case (Cons x xs)
  obtain k where k: "unat bs = Suc k"
    using assms(1) by (metis not0_implies_Suc unat_eq_zero)
  have ret: "naive_pop_batch [] bs q =
      Returns (of_nat (min (Suc k) (length (x # xs))), x # take k xs, q\<lparr>nq_data := drop k xs\<rparr>)"
    using Cons k naive_take_result [of 0 bs "x # xs" "[]"] by (simp add: naive_defs)
  have "min (Suc k) (length (x # xs)) < 18446744073709551616"
    using unat_less_2p64 [of bs] k by simp
  then have "unat (of_nat (min (Suc k) (length (x # xs))) :: size_t) = min (Suc k) (length (x # xs))"
    by (rule unat_of_nat_size_t)
  then have "(of_nat (min (Suc k) (length (x # xs))) :: size_t) \<noteq> 0"
    by auto
  then show thesis
    using Cons ret by (intro that(2)) auto
qed

text \<open>A step of a worker with a batch: it leaves an empty one and answers the first task of another.\<close>

lemma busy_worker_cases:
  assumes step: "worker_step pop_batch rq_push env bs t0 clk i s = Some s'" and "phases s ! i = Busy ts"
  obtains (leave) "ts = []" "s' = set_phase i Testing s"
  | (answer) t rest pod' r where "ts = t # rest" "answers r t"
      "s' = set_phase i (Busy rest) (s\<lparr>the_pool := (the_pool s)\<lparr>worker_pods := (worker_pods (the_pool s))[i := pod'],
         response_queue := rq_push r (response_queue (the_pool s))\<rparr>\<rparr>)"
proof (cases ts)
  case Nil
  then show thesis
    using assms by (intro leave) (auto simp: worker_step_def Let_def)
next
  case (Cons t rest)
  then obtain pod' rq' where served: "serve_task env rq_push t0 clk t (worker_pods (the_pool s) ! i, response_queue (the_pool s)) = Some (pod', rq')"
    and s': "s' = set_phase i (Busy rest) (s\<lparr>the_pool := (the_pool s)\<lparr>worker_pods := (worker_pods (the_pool s))[i := pod'],
      response_queue := rq'\<rparr>\<rparr>)"
    using assms by (auto simp: worker_step_def Let_def split: option.splits)
  then show thesis
    using serve_task_answers [OF served] Cons answer by blast
qed

text \<open>A step of a worker of a running pool, as a change of its phase.\<close>

lemma running_worker_cases:
  assumes step: "worker_step naive_pop_batch rq_push env bs t0 clk i s = Some s'"
    and run: "bs \<noteq> 0" "\<not> stop (the_pool s)" "\<not> nq_stop (task_queue (the_pool s))"
  obtains (move) ph where "s' = set_phase i ph s" "(phases s ! i, ph) \<in> {(Testing, Popping), (Busy [], Testing)}"
  | (park) "phases s ! i = Popping" "nq_data (task_queue (the_pool s)) = []" "s' = set_phase i Parked s"
  | (take) ts rest where "phases s ! i = Popping" "nq_data (task_queue (the_pool s)) = ts @ rest" "ts \<noteq> []"
      "s' = set_phase i (Busy ts) (s\<lparr>the_pool := (the_pool s)\<lparr>task_queue := (task_queue (the_pool s))\<lparr>nq_data := rest\<rparr>\<rparr>\<rparr>)"
  | (answer) t ts pod' r where "phases s ! i = Busy (t # ts)" "answers r t"
      "s' = set_phase i (Busy ts) (s\<lparr>the_pool := (the_pool s)\<lparr>worker_pods := (worker_pods (the_pool s))[i := pod'],
         response_queue := rq_push r (response_queue (the_pool s))\<rparr>\<rparr>)"
proof (cases "phases s ! i")
  case Testing
  then show thesis
    using step run(2) by (intro move [of Popping]) (auto simp: worker_step_def Let_def)
next
  case Popping
  from run(1,3) show thesis
  proof (cases rule: naive_batch_cases)
    case 1
    then show thesis
      using step Popping by (intro park) (auto simp: worker_step_def Let_def)
  next
    case (2 n ts rest)
    then show thesis
      using step Popping by (intro take [of ts rest]) (auto simp: worker_step_def Let_def)
  qed
next
  case (Busy ts)
  from step this show thesis
    by (cases rule: busy_worker_cases) (use Busy move answer in auto)
qed (use step in \<open>auto simp: worker_step_def Let_def\<close>)


text \<open>Every step keeps the pool awake.\<close>

lemma set_update_Quit:
  "Quit \<notin> set xs \<Longrightarrow> y \<noteq> Quit \<Longrightarrow> Quit \<notin> set (xs[i := y])"
  using set_update_subset_insert [of xs i y] by auto

lemma awake_phase:
  assumes "awake c" "i < length (phases (workers c))" "ph \<noteq> Quit"
    and "stop p' = stop (the_pool (workers c))" "nq_stop (task_queue p') = nq_stop (task_queue (the_pool (workers c)))"
    and "ph = Parked \<Longrightarrow> nq_data (task_queue p') = []"
    and "length (nq_data (task_queue p')) + popping (phases (workers c) ! i) + due c \<le> length (queued c) + popping ph + d
      \<or> nq_data (task_queue p') = []"
  shows "awake (c\<lparr>workers := set_phase i ph ((workers c)\<lparr>the_pool := p'\<rparr>), due := d\<rparr>)"
proof -
  let ?xs = "phases (workers c)"
  have "Quit \<notin> set (?xs[i := ph])"
    using assms(1,3) by (intro set_update_Quit) (simp_all add: awake_def)
  moreover have "length (nq_data (task_queue p')) \<le> sum_list (map popping (?xs[i := ph])) + d"
    if "Parked \<in> set (?xs[i := ph])"
  proof (cases "nq_data (task_queue p') = []")
    case False
    then have "ph \<noteq> Parked"
      using assms(6) by blast
    then have "Parked \<in> set ?xs"
      using that set_update_subset_insert [of ?xs i ph] by auto
    then show ?thesis
      using assms(1,7) False sum_phases_update [OF assms(2), of popping ph] by (simp add: awake_def)
  qed simp
  ultimately show ?thesis
    using assms(1,4,5) by (simp add: awake_def set_phase_def)
qed

lemma awake_own:
  assumes "own_step env bs c c'" "awake c" "bs \<noteq> 0"
  shows "awake c'"
  using assms(1)
proof cases
  case (work i t0 clk s')
  note run = assms(3) assms(2)[unfolded awake_def, THEN conjunct1] assms(2)[unfolded awake_def, THEN conjunct2, THEN conjunct1]
  note keep = awake_phase [OF assms(2) work(2), where d = "due c"]
  from work(3) run show ?thesis
  proof (cases rule: running_worker_cases)
    case (move ph)
    then show ?thesis
      using work(1) keep [of ph "the_pool (workers c)"] by (auto simp: popping_def)
  next
    case park
    then show ?thesis
      using work(1) keep [of Parked "the_pool (workers c)"] by auto
  next
    case (take ts rest)
    then show ?thesis
      using work(1) keep [of "Busy ts" "(the_pool (workers c))\<lparr>task_queue := _\<rparr>"]
      by (auto simp: popping_def Suc_le_eq)
  next
    case (answer t ts pod' r)
    then show ?thesis
      using work(1) keep [of "Busy ts" "(the_pool (workers c))\<lparr>worker_pods := _, response_queue := _\<rparr>"]
      by (auto simp: popping_def)
  qed
next
  case (notify_one d i)
  then show ?thesis
    using awake_phase [OF assms(2) notify_one(3), of Popping "the_pool (workers c)" d] by (simp add: popping_def)
next
  case (notify_nobody d)
  then show ?thesis
    using assms(2) by (simp add: awake_def)
qed

lemma awake_other:
  assumes "other_step c c'" "awake c"
  shows "awake c'"
  using assms(1)
proof cases
  case (offer t q' ok)
  then show ?thesis
    using assms(2) by (auto simp: awake_def naive_defs)
next
  case (fetch r')
  then show ?thesis
    using assms(2) by (simp add: awake_def)
next
  case (spurious i)
  then show ?thesis
    using awake_phase [OF assms(2) spurious(2), of Popping "the_pool (workers c)" "due c"] by (simp add: popping_def)
qed


lemma awake_start:
  assumes "pool_new mk st hw cf naive_new rq = Built p"
  shows "awake (notified_start p)"
  using pool_new_Built [OF assms]
  by (auto simp: awake_def notified_start_def pool_sys_start_def naive_new_def)

lemma awake_reachable:
  "(any_step env bs)\<^sup>*\<^sup>* c c' \<Longrightarrow> awake c \<Longrightarrow> bs \<noteq> 0 \<Longrightarrow> awake c'"
  by (induction rule: rtranclp_induct) (auto simp: any_step_def intro: awake_own awake_other)


lemma any_step_workers: "any_step env bs c c' \<Longrightarrow> length (phases (workers c')) = length (phases (workers c))"
  by (auto simp: any_step_def set_phase_def worker_step_def Let_def elim!: own_step.cases other_step.cases
      split: worker_phase.splits call.splits list.splits option.splits prod.splits)

lemma reachable_workers:
  "(any_step env bs)\<^sup>*\<^sup>* c c' \<Longrightarrow> length (phases (workers c')) = length (phases (workers c))"
  by (induction rule: rtranclp_induct) (auto dest: any_step_workers)


subsection \<open>The pool's own steps end\<close>

text \<open>Each step of the pool itself uses up one of these.\<close>

definition phase_work :: "worker_phase \<Rightarrow> nat" where
  "phase_work ph =
     (case ph of Parked \<Rightarrow> 0 | Quit \<Rightarrow> 0 | Popping \<Rightarrow> 1 | Testing \<Rightarrow> 2 | Busy ts \<Rightarrow> length ts + 3)"

definition work_left :: "'h notified \<Rightarrow> nat" where
  "work_left c = 4 * length (queued c) + sum_list (map phase_work (phases (workers c))) + 2 * due c"

text \<open>The tasks the pool has not answered yet: those in the queue and those in a worker's batch.\<close>

definition batch_held :: "worker_phase \<Rightarrow> InferenceTask multiset" where
  "batch_held ph = (case ph of Busy ts \<Rightarrow> mset ts | _ \<Rightarrow> {#})"

definition unanswered :: "'h notified \<Rightarrow> InferenceTask multiset" where
  "unanswered c = mset (queued c) + sum_list (map batch_held (phases (workers c)))"

abbreviation given :: "'h notified \<Rightarrow> InferenceResult list" where
  "given c \<equiv> rq_data (response_queue (the_pool (workers c)))"

lemma phase_simps [simp]:
  "phase_work Parked = 0" "phase_work Popping = 1" "phase_work Testing = 2" "phase_work (Busy ts) = length ts + 3"
  "batch_held Parked = {#}" "batch_held Popping = {#}" "batch_held Testing = {#}" "batch_held (Busy ts) = mset ts"
  by (simp_all add: phase_work_def batch_held_def)

lemma own_step_effect:
  assumes "own_step env bs c c'" "awake c" "bs \<noteq> 0"
  shows "work_left c' < work_left c \<and> length (phases (workers c')) = length (phases (workers c)) \<and>
    (\<exists>ts rs. given c' = given c @ rs \<and> list_all2 answers rs ts \<and> unanswered c = mset ts + unanswered c')"
  using assms(1)
proof cases
  case (work i t0 clk s')
  note run = assms(3) assms(2)[unfolded awake_def, THEN conjunct1] assms(2)[unfolded awake_def, THEN conjunct2, THEN conjunct1]
  note sums = sum_phases_update [OF work(2), of phase_work] sum_phases_update [OF work(2), of batch_held]
  from work(3) run show ?thesis
  proof (cases rule: running_worker_cases)
    case (move ph)
    then show ?thesis
      using work(1) sums [of ph]
      by (auto simp: work_left_def unanswered_def set_phase_def intro!: exI [of _ "[]"])
  next
    case park
    then show ?thesis
      using work(1) sums [of Parked]
      by (auto simp: work_left_def unanswered_def set_phase_def intro!: exI [of _ "[]"])
  next
    case (take ts rest)
    then show ?thesis
      using work(1) sums [of "Busy ts"]
      by (cases ts) (auto simp: work_left_def unanswered_def set_phase_def intro!: exI [of _ "[]"])
  next
    case (answer t ts pod' r)
    then show ?thesis
      using work(1) sums [of "Busy ts"]
      by (auto simp: work_left_def unanswered_def set_phase_def rq_push_def intro!: exI [of _ "[t]"])
  qed
next
  case (notify_one d i)
  then show ?thesis
    using sum_phases_update [OF notify_one(3), of phase_work Popping] sum_phases_update [OF notify_one(3), of batch_held Popping]
    by (auto simp: work_left_def unanswered_def set_phase_def intro!: exI [of _ "[]"])
next
  case (notify_nobody d)
  then show ?thesis
    by (auto simp: work_left_def unanswered_def intro!: exI [of _ "[]"])
qed

lemma own_run_effect:
  assumes "(own_step env bs ^^ k) c c'" "awake c" "bs \<noteq> 0"
  shows "awake c' \<and> k + work_left c' \<le> work_left c \<and> length (phases (workers c')) = length (phases (workers c)) \<and>
    (\<exists>ts rs. given c' = given c @ rs \<and> list_all2 answers rs ts \<and> unanswered c = mset ts + unanswered c')"
  using assms(1)
proof (induction k arbitrary: c')
  case 0
  then show ?case
    using assms(2) by (auto intro!: exI [of _ "[]"])
next
  case (Suc k)
  then obtain d where d: "(own_step env bs ^^ k) c d" "own_step env bs d c'"
    by auto
  obtain ts rs where earlier: "awake d" "k + work_left d \<le> work_left c"
    "length (phases (workers d)) = length (phases (workers c))"
    "given d = given c @ rs" "list_all2 answers rs ts" "unanswered c = mset ts + unanswered d"
    using Suc.IH [OF d(1)] by blast
  obtain ts' rs' where last: "work_left c' < work_left d" "length (phases (workers c')) = length (phases (workers d))"
    "given c' = given d @ rs'" "list_all2 answers rs' ts'" "unanswered d = mset ts' + unanswered c'"
    using own_step_effect [OF d(2) earlier(1) assms(3)] by blast
  have "given c' = given c @ (rs @ rs') \<and> list_all2 answers (rs @ rs') (ts @ ts') \<and>
      unanswered c = mset (ts @ ts') + unanswered c'"
    using earlier last by (simp add: list_all2_appendI ac_simps)
  then show ?case
    using earlier(2,3) last(1,2) awake_own [OF d(2) earlier(1) assms(3)] by (metis add_Suc less_eq_Suc_le order_less_le_trans nat_add_left_cancel_less)
qed

text \<open>When no step of its own is left, the pool is asleep and has nothing to do.\<close>

lemma settled_phase:
  assumes quiet: "\<And>c'. \<not> own_step env bs c c'" and "awake c" and serves: "inference_returns env rq_push (workers c)"
    and i: "i < length (phases (workers c))"
  shows "phases (workers c) ! i = Parked"
proof (rule ccontr)
  assume "phases (workers c) ! i \<noteq> Parked"
  moreover have "phases (workers c) ! i \<noteq> Quit"
    using assms(2) nth_mem [OF i] by (auto simp: awake_def)
  ultimately have "\<exists>t0 clk. worker_step naive_pop_batch rq_push env bs t0 clk i (workers c) \<noteq> None"
  proof (cases "phases (workers c) ! i")
    case (Busy ts)
    then show ?thesis
      using serves i by (cases ts) (auto simp: inference_returns_def worker_step_def Let_def split: option.splits)
  qed (auto simp: worker_step_def Let_def split: call.splits)
  then show False
    using quiet own_step.work [OF i] by blast
qed

lemma sum_list_zero: "(\<And>x. x \<in> set xs \<Longrightarrow> f x = (0 :: 'b :: comm_monoid_add)) \<Longrightarrow> sum_list (map f xs) = 0"
  by (induction xs) simp_all

lemma settled_pool:
  assumes quiet: "\<And>c'. \<not> own_step env bs c c'" and "awake c" and "inference_returns env rq_push (workers c)"
    and "phases (workers c) \<noteq> []"
  shows "set (phases (workers c)) = {Parked} \<and> due c = 0 \<and> unanswered c = {#}"
proof -
  have "phases (workers c) = replicate (length (phases (workers c))) Parked"
    using settled_phase [OF assms(1-3)] by (intro nth_equalityI) simp_all
  then have parked: "set (phases (workers c)) = {Parked}"
    using assms(4) by (metis length_0_conv set_replicate)
  have due: "due c = 0"
  proof (rule ccontr)
    assume "due c \<noteq> 0"
    then obtain d where "due c = Suc d"
      by (cases "due c") auto
    then show False
      using quiet own_step.notify_one [of c d 0] settled_phase [OF assms(1-3), of 0] assms(4) by auto
  qed
  have "sum_list (map popping (phases (workers c))) = 0" "sum_list (map batch_held (phases (workers c))) = 0"
    using parked by (intro sum_list_zero; simp add: popping_def)+
  then show ?thesis
    using parked due assms(2) by (simp add: awake_def unanswered_def del: sum_list_eq_0_iff)
qed



subsection \<open>Properties\<close>

text \<open>
  C4: the pool answers what it is given. Take a pool on the mutex queue with any number of workers
  and a positive batch size, after any interleaving of its workers, notifications, pushes,
  fetched results and spurious wake-ups. From there on the steps of the pool itself are bounded
  in number; and when none is left, provided that the inferences return, every worker sleeps,
  nothing is queued or in a batch, and each task that was unanswered has exactly one result
  behind the results that were already there. No wake-up out of the blue is needed.
\<close>

theorem pool_answers_everything:
  assumes "pool_new mk st hw cf naive_new rq = Built p" "bs \<noteq> 0"
    and "(any_step env bs)\<^sup>*\<^sup>* (notified_start p) c"
    and "(own_step env bs ^^ k) c c'"
  shows "k \<le> work_left c \<and>
    ((\<forall>c''. \<not> own_step env bs c' c'') \<longrightarrow> inference_returns env rq_push (workers c') \<longrightarrow>
       set (phases (workers c')) = {Parked} \<and> queued c' = [] \<and>
       (\<exists>ts rs. given c' = given c @ rs \<and> list_all2 answers rs ts \<and> mset ts = unanswered c))"
proof -
  have c: "awake c" "phases (workers c) \<noteq> []"
    using awake_reachable [OF assms(3) awake_start [OF assms(1)] assms(2)] reachable_workers [OF assms(3)]
      pool_new_Built(1) [OF assms(1)] pool_thread_count_pos [of hw cf]
    by (auto simp: notified_start_def pool_sys_start_def)
  obtain ts rs where run: "awake c'" "k + work_left c' \<le> work_left c"
    "length (phases (workers c')) = length (phases (workers c))"
    "given c' = given c @ rs" "list_all2 answers rs ts" "unanswered c = mset ts + unanswered c'"
    using own_run_effect [OF assms(4) c(1) assms(2)] by blast
  show ?thesis
  proof (intro conjI impI)
    assume "\<forall>c''. \<not> own_step env bs c' c''" "inference_returns env rq_push (workers c')"
    then have settled: "set (phases (workers c')) = {Parked} \<and> due c' = 0 \<and> unanswered c' = {#}"
      using run(1,3) c(2) by (intro settled_pool) auto
    then show "set (phases (workers c')) = {Parked}" "queued c' = []"
      by (simp_all add: unanswered_def)
    show "\<exists>ts rs. given c' = given c @ rs \<and> list_all2 answers rs ts \<and> mset ts = unanswered c"
      using run(4-6) settled by auto
  qed (use run(2) in simp)
qed

text \<open>One worker and one request that was pushed before the worker looked at the queue.\<close>

definition example_serving :: "worker_phase \<Rightarrow> InferenceTask list \<Rightarrow> InferenceResult list \<Rightarrow> nat \<Rightarrow> unit notified" where
  "example_serving ph ts rs n =
     \<lparr>workers = \<lparr>the_pool = \<lparr>task_queue = naive_new\<lparr>nq_data := ts\<rparr>,
         response_queue = rq_new\<lparr>rq_data := rs\<rparr>, worker_pods = [example_pod], joinable = [True], stop = False\<rparr>,
       phases = [ph], stopping = NotStopping\<rparr>, due = n\<rparr>"


abbreviation example_reply :: InferenceResult where
  "example_reply \<equiv> new_result 7 payload_error None"

lemma example_serves:
  "serve_task example_env rq_push t0 clk (example_task 5) (example_pod, r) = Some (example_pod, rq_push example_reply r)"
  by (simp add: serve_task_def pod_run_def engine_run_def example_pod_def stamp_wait_def example_task_def
      pod_reset_def element_count_def new_task_def)

lemma example_work:
  "worker_step naive_pop_batch rq_push example_env 8 0 (\<lambda>_. 0) 0 (workers (example_serving ph ts rs n)) =
     Some (workers (example_serving ph' ts' rs' n)) \<Longrightarrow>
   own_step example_env 8 (example_serving ph ts rs n) (example_serving ph' ts' rs' n)"
  using own_step.work [of 0 "example_serving ph ts rs n"] by (fastforce simp: example_serving_def)

lemma example_turn:
  shows example_test: "own_step example_env 8 (example_serving Testing ts rs n) (example_serving Popping ts rs n)"
    and example_take: "own_step example_env 8 (example_serving Popping [example_task 5] rs n)
      (example_serving (Busy [example_task 5]) [] rs n)"
    and example_answer: "own_step example_env 8 (example_serving (Busy [example_task 5]) [] rs n)
      (example_serving (Busy []) [] (rs @ [example_reply]) n)"
    and example_leave: "own_step example_env 8 (example_serving (Busy []) ts rs n) (example_serving Testing ts rs n)"
    and example_park: "own_step example_env 8 (example_serving Popping [] rs n) (example_serving Parked [] rs n)"
  by (rule example_work; simp add: example_serving_def worker_step_def set_phase_def naive_defs naive_new_def
      example_serves rq_push_def; fail)+

lemma example_notify:
  "own_step example_env 8 (example_serving Testing ts rs (Suc n)) (example_serving Testing ts rs n)"
  using own_step.notify_nobody [of "example_serving Testing ts rs (Suc n)" n] by (simp add: example_serving_def)

lemma example_settled: "\<not> own_step example_env 8 (example_serving Parked [] rs 0) c"
  by (auto simp: example_serving_def worker_step_def elim!: own_step.cases)

lemma relpowp_7I:
  assumes "R a b" "R b c" "R c d" "R d e" "R e f" "R f g" "R g h"
  shows "(R ^^ 7) a h"
proof -
  have seven: "(7 :: nat) = Suc (Suc (Suc (Suc (Suc (Suc (Suc 0))))))"
    by simp
  show ?thesis
    unfolding seven
    by (rule relpowp_Suc_I, rule relpowp_Suc_I, rule relpowp_Suc_I, rule relpowp_Suc_I, rule relpowp_Suc_I, rule relpowp_Suc_I,
        rule relpowp_Suc_I, rule relpowp_0_I) (rule assms)+
qed

lemma example_drains:
  "(own_step example_env 8 ^^ 7) (example_serving Testing [example_task 5] [] 1) (example_serving Parked [] [example_reply] 0)"
  using example_notify [of "[example_task 5]" "[]" 0] example_test [of "[example_task 5]" "[]" 0] example_take [of "[]" 0]
    example_answer [of "[]" 0] example_leave [of "[]" "[example_reply]" 0] example_test [of "[]" "[example_reply]" 0]
    example_park [of "[example_reply]" 0]
  by (intro relpowp_7I [where b = "example_serving Testing [example_task 5] [] 0"]) simp_all

lemma example_offered:
  assumes "p = the_pool (workers (example_serving Testing [] [] 0))"
  shows "(any_step example_env 8)\<^sup>*\<^sup>* (notified_start p) (example_serving Testing [example_task 5] [] 1)"
proof -
  have "other_step (notified_start p) (example_serving Testing [example_task 5] [] 1)"
    using other_step.offer [of "example_task 5" "notified_start p" True "naive_new\<lparr>nq_data := [example_task 5]\<rparr>"] assms
    by (simp add: example_serving_def notified_start_def pool_sys_start_def naive_defs naive_new_def)
  then show ?thesis
    by (simp add: any_step_def r_into_rtranclp)
qed

theorem pool_answers_everything_witness:
  "\<exists>c c'. unanswered c = {#example_task 5#} \<and> (own_step example_env 8 ^^ 7) c c' \<and> 7 \<le> work_left c \<and>
     queued c' = [] \<and> (\<exists>r. given c' = [r] \<and> answers r (example_task 5))"
proof -
  let ?c = "example_serving Testing [example_task 5] [] 1" and ?c' = "example_serving Parked [] [example_reply] 0"
  define p where "p = the_pool (workers (example_serving Testing [] [] 0))"
  have built: "pool_new (\<lambda>i. Built example_pod) (\<lambda>i. True) 1 (config_defaults\<lparr>m_thread_count := 1\<rparr>) naive_new rq_new = Built p"
    by (simp add: pool_new_def pool_thread_count_def p_def example_serving_def naive_new_def rq_new_def)
  have "(\<exists>ts rs. given ?c' = given ?c @ rs \<and> list_all2 answers rs ts \<and> mset ts = unanswered ?c) \<and> 7 \<le> work_left ?c \<and> queued ?c' = []"
    using pool_answers_everything [OF built _ example_offered [OF p_def] example_drains] example_settled
    by (simp add: inference_returns_def) (simp add: example_serving_def)
  moreover have "unanswered ?c = {#example_task 5#}" "given ?c = []" "given ?c' = [example_reply]"
    by (simp_all add: unanswered_def example_serving_def rq_new_def)
  ultimately show ?thesis
    using example_drains by (intro exI [of _ ?c] exI [of _ ?c']) (auto simp: list_all2_Cons1)
qed

end
