(* ===== verification/Polling_Pool.thy ===== *)
theory Polling_Pool
  imports Pool_Liveness
begin

section \<open>The pool on a queue that never waits\<close>

text \<open>
  On a ring, \<^verbatim>\<open>pop_batch\<close> returns zero when there is nothing to take and the worker tests \<^verbatim>\<open>stop\<close>
  and tries again, so no worker ever sleeps and nobody has to wake one. The steps of such a pool
  never end; what can be promised is that no worker is ever blocked, and that everything is
  answered as soon as each worker has been given enough steps, in whatever order they are
  scheduled. The locale \<open>polling_queue\<close> states what this needs of the queue.
\<close>

subsection \<open>Schedules\<close>

text \<open>The workers take the steps of a schedule, a list of the numbers of workers.\<close>

inductive schedule_run ::
  "(InferenceTask list \<Rightarrow> size_t \<Rightarrow> 'q \<Rightarrow> (size_t \<times> InferenceTask list \<times> 'q) call) \<Rightarrow>
   'h pod_env \<Rightarrow> size_t \<Rightarrow> nat list \<Rightarrow>
   ('q, NaiveResultQueue, 'h) pool_sys \<Rightarrow> ('q, NaiveResultQueue, 'h) pool_sys \<Rightarrow> bool"
  for pop_batch env bs where
  none: "schedule_run pop_batch env bs [] s s"
| turn: "schedule_run pop_batch env bs js s s' \<Longrightarrow> i < length (phases s') \<Longrightarrow>
     worker_step pop_batch rq_push env bs t0 clk i s' = Some s'' \<Longrightarrow>
     schedule_run pop_batch env bs (js @ [i]) s s''"

text \<open>What has happened before: steps of the workers, pushes, results fetched by the server.\<close>

inductive working_step ::
  "(InferenceTask \<Rightarrow> 'q \<Rightarrow> (bool \<times> 'q) call) \<Rightarrow>
   (InferenceTask list \<Rightarrow> size_t \<Rightarrow> 'q \<Rightarrow> (size_t \<times> InferenceTask list \<times> 'q) call) \<Rightarrow> 'h pod_env \<Rightarrow> size_t \<Rightarrow>
   ('q, NaiveResultQueue, 'h) pool_sys \<Rightarrow> ('q, NaiveResultQueue, 'h) pool_sys \<Rightarrow> bool"
  for push pop_batch env bs where
  work: "i < length (phases s) \<Longrightarrow> worker_step pop_batch rq_push env bs t0 clk i s = Some s' \<Longrightarrow>
     working_step push pop_batch env bs s s'"
| outer: "outer_step push s s' \<Longrightarrow> working_step push pop_batch env bs s s'"

inductive_cases working_stepE: "working_step push pop_batch env bs s s'"

inductive_cases schedule_run_NilE: "schedule_run pop_batch env bs [] s s'"
inductive_cases schedule_run_snocE: "schedule_run pop_batch env bs (js @ [i]) s s'"

lemma schedule_run_split:
  assumes "schedule_run pop_batch env bs (xs @ ys) s s'"
  shows "\<exists>s1. schedule_run pop_batch env bs xs s s1 \<and> schedule_run pop_batch env bs ys s1 s'"
  using assms
proof (induction ys arbitrary: s' rule: rev_induct)
  case Nil
  then show ?case
    by (auto intro: schedule_run.none)
next
  case (snoc y ys)
  have "schedule_run pop_batch env bs ((xs @ ys) @ [y]) s s'"
    using snoc.prems by simp
  then obtain d t0 clk where d: "schedule_run pop_batch env bs (xs @ ys) s d" "y < length (phases d)"
    "worker_step pop_batch rq_push env bs t0 clk y d = Some s'"
    by (rule schedule_run_snocE) blast
  obtain s1 where "schedule_run pop_batch env bs xs s s1" "schedule_run pop_batch env bs ys s1 d"
    using snoc.IH [OF d(1)] by blast
  then show ?case
    using d(2,3) by (blast intro: schedule_run.turn)
qed

text \<open>The tasks that are not answered: in the queue, and in the batches of the workers.\<close>

definition pending :: "('q \<Rightarrow> InferenceTask list) \<Rightarrow> ('q, 'r, 'h) pool_sys \<Rightarrow> InferenceTask multiset" where
  "pending contents s = mset (contents (task_queue (the_pool s))) + sum_list (map batch_held (phases s))"

text \<open>The workers of a running pool are at work.\<close>

definition at_work :: "('q \<Rightarrow> bool) \<Rightarrow> ('q, 'r, 'h) pool_sys \<Rightarrow> bool" where
  "at_work q_inv s \<longleftrightarrow> q_inv (task_queue (the_pool s)) \<and> \<not> stop (the_pool s) \<and> Quit \<notin> set (phases s) \<and> Parked \<notin> set (phases s)"

definition steps_left :: "('q \<Rightarrow> InferenceTask list) \<Rightarrow> ('q, 'r, 'h) pool_sys \<Rightarrow> nat" where
  "steps_left contents s = 4 * length (contents (task_queue (the_pool s))) + sum_list (map phase_work (phases s))"

lemma phase_work_held: "phase_work ph \<le> size (batch_held ph) + 3"
  by (cases ph) (simp_all add: phase_work_def batch_held_def)

lemma size_sum_held: "size (sum_list (map batch_held xs)) = sum_list (map (\<lambda>ph. size (batch_held ph)) xs)"
  by (induction xs) simp_all

lemma sum_phase_work: "sum_list (map phase_work xs) \<le> size (sum_list (map batch_held xs)) + 3 * length xs"
proof (induction xs)
  case (Cons x xs)
  then show ?case
    using phase_work_held [of x] by simp
qed simp

lemma steps_left_bound: "steps_left contents s \<le> 4 * size (pending contents s) + 3 * length (phases s)"
  using sum_phase_work [of "phases s"] by (simp add: steps_left_def pending_def)

lemma batch_held_le_pending:
  assumes "i < length (phases s)"
  shows "size (batch_held (phases s ! i)) \<le> size (pending contents s)"
proof -
  have "batch_held (phases s ! i) \<in># mset (map batch_held (phases s))"
    using assms by simp
  then have "batch_held (phases s ! i) \<subseteq># sum_list (map batch_held (phases s))"
    by (metis in_set_conv_nth multi_member_split mset_subset_eq_add_left set_mset_mset sum_mset.add_mset sum_mset_sum_list)
  then show ?thesis
    by (simp add: pending_def size_mset_mono le_add2 trans_le_add2)
qed



subsection \<open>The contract\<close>

locale polling_queue = task_queue push pop pop_batch shutdown contents accepts inv
  for push :: "InferenceTask \<Rightarrow> 'q \<Rightarrow> (bool \<times> 'q) call"
    and pop :: "'q \<Rightarrow> (InferenceTask option \<times> 'q) call"
    and pop_batch :: "InferenceTask list \<Rightarrow> size_t \<Rightarrow> 'q \<Rightarrow> (size_t \<times> InferenceTask list \<times> 'q) call"
    and shutdown :: "'q \<Rightarrow> 'q"
    and contents :: "'q \<Rightarrow> InferenceTask list"
    and accepts :: "'q \<Rightarrow> bool"
    and inv :: "'q \<Rightarrow> bool" +
  assumes never_waits: "inv q \<Longrightarrow> pop_batch b m q \<noteq> Waits"
begin

text \<open>What \<^verbatim>\<open>pop_batch\<close> gives a worker: nothing from an empty queue, otherwise at least one task.\<close>

lemma batch_cases:
  assumes "inv q" "bs \<noteq> 0"
  obtains "contents q = []" "pop_batch [] bs q = Returns (0, [], q)"
  | n ts q' where "contents q = ts @ contents q'" "ts \<noteq> []" "n \<noteq> 0" "inv q'" "pop_batch [] bs q = Returns (n, ts, q')"
proof (cases "contents q = []")
  case True
  then show thesis
    using pop_batch_none [OF assms(1), of "[]" bs] never_waits [OF assms(1), of "[]" bs] that(1) by auto
next
  case False
  let ?k = "batch_count bs (contents q)"
  obtain q' where q': "pop_batch [] bs q = Returns (of_nat ?k, take ?k (contents q), q')" "inv q'" "contents q' = drop ?k (contents q)"
    using pop_batch_some [OF assms(1) False, of "[]" bs] by auto
  have k: "0 < ?k" "?k \<le> unat bs"
    using batch_count_pos [OF assms(2) False] by simp_all
  have "(of_nat ?k :: size_t) \<noteq> 0"
    using k unat_less_2p64 [of bs] unat_of_nat_size_t [of ?k] by (metis less_irrefl order_le_less_trans unat_0)
  then show thesis
    using q' k False by (intro that(2) [of "take ?k (contents q)" q']) auto
qed

text \<open>A step of a worker that is at work, as a change of its phase.\<close>

lemma worker_cases:
  assumes step: "worker_step pop_batch rq_push env bs t0 clk i s = Some s'"
    and work: "at_work inv s" "bs \<noteq> 0" "i < length (phases s)"
  obtains (move) ph where "s' = set_phase i ph s" "(phases s ! i, ph) \<in> {(Testing, Popping), (Busy [], Testing)}"
  | (retry) "phases s ! i = Popping" "contents (task_queue (the_pool s)) = []" "s' = set_phase i Testing s"
  | (take) ts q' where "phases s ! i = Popping" "contents (task_queue (the_pool s)) = ts @ contents q'" "ts \<noteq> []" "inv q'"
      "s' = set_phase i (Busy ts) (s\<lparr>the_pool := (the_pool s)\<lparr>task_queue := q'\<rparr>\<rparr>)"
  | (answer) t ts pod' r where "phases s ! i = Busy (t # ts)" "answers r t"
      "s' = set_phase i (Busy ts) (s\<lparr>the_pool := (the_pool s)\<lparr>worker_pods := (worker_pods (the_pool s))[i := pod'],
         response_queue := rq_push r (response_queue (the_pool s))\<rparr>\<rparr>)"
proof (cases "phases s ! i")
  case Testing
  then show thesis
    using step work(1) by (intro move [of Popping]) (auto simp: worker_step_def Let_def at_work_def)
next
  case Popping
  have "inv (task_queue (the_pool s))"
    using work(1) by (simp add: at_work_def)
  from this work(2) show thesis
  proof (cases rule: batch_cases)
    case 1
    then show thesis
      using step Popping by (intro retry) (auto simp: worker_step_def Let_def)
  next
    case (2 n ts q')
    then show thesis
      using step Popping by (intro take [of ts q']) (auto simp: worker_step_def Let_def)
  qed
next
  case (Busy ts)
  from step this show thesis
    by (cases rule: busy_worker_cases) (use Busy move answer in auto)
qed (use step in \<open>auto simp: worker_step_def Let_def\<close>)

end


text \<open>
  What one step of a worker does: it stays at work, gives at most one result, and conserves the
  tasks. It uses up one of the steps left, unless it found the queue empty.
\<close>

context polling_queue
begin

lemma at_work_phase:
  assumes "at_work inv s" "ph \<noteq> Quit" "ph \<noteq> Parked" "inv (task_queue p')" "stop p' = stop (the_pool s)"
  shows "at_work inv (set_phase i ph (s\<lparr>the_pool := p'\<rparr>))"
  using assms set_update_subset_insert [of "phases s" i ph] by (auto simp: at_work_def set_phase_def)

lemma worker_effect:
  assumes step: "worker_step pop_batch rq_push env bs t0 clk i s = Some s'"
    and work: "at_work inv s" "bs \<noteq> 0" "i < length (phases s)"
  shows "at_work inv s' \<and> length (phases s') = length (phases s) \<and> (\<forall>j. j \<noteq> i \<longrightarrow> phases s' ! j = phases s ! j) \<and>
    (contents (task_queue (the_pool s)) \<noteq> [] \<longrightarrow> steps_left contents s' < steps_left contents s) \<and>
    (contents (task_queue (the_pool s)) = [] \<longrightarrow> contents (task_queue (the_pool s')) = [] \<and>
       size (batch_held (phases s' ! i)) \<le> size (batch_held (phases s ! i)) - 1) \<and>
    (\<exists>ts rs. rq_data (response_queue (the_pool s')) = rq_data (response_queue (the_pool s)) @ rs \<and>
       list_all2 answers rs ts \<and> pending contents s = mset ts + pending contents s')"
proof -
  note sums = sum_phases_update [OF work(3), of phase_work] sum_phases_update [OF work(3), of batch_held]
  note keep = at_work_phase [OF work(1), where i = i]
  have q: "inv (task_queue (the_pool s))"
    using work(1) by (simp add: at_work_def)
  from step work show ?thesis
  proof (cases rule: worker_cases)
    case (move ph)
    then show ?thesis
      using sums [of ph] keep [of ph "the_pool s"] q work(3)
      by (auto simp: steps_left_def pending_def set_phase_def intro!: exI [of _ "[]"])
  next
    case retry
    then show ?thesis
      using sums [of Testing] keep [of Testing "the_pool s"] q work(3)
      by (auto simp: steps_left_def pending_def set_phase_def intro!: exI [of _ "[]"])
  next
    case (take ts q')
    then show ?thesis
      using sums [of "Busy ts"] keep [of "Busy ts" "(the_pool s)\<lparr>task_queue := q'\<rparr>"]
      by (cases ts) (auto simp: steps_left_def pending_def set_phase_def intro!: exI [of _ "[]"])
  next
    case (answer t ts pod' r)
    then show ?thesis
      using sums [of "Busy ts"] keep [of "Busy ts" "(the_pool s)\<lparr>worker_pods := _, response_queue := _\<rparr>"] q work(3)
      by (auto simp: steps_left_def pending_def set_phase_def rq_push_def intro!: exI [of _ "[t]"])
  qed
qed

end


text \<open>The same over a schedule.\<close>

context polling_queue
begin

lemma schedule_keeps:
  assumes "schedule_run pop_batch env bs js s s'" "at_work inv s" "bs \<noteq> 0"
  shows "at_work inv s' \<and> length (phases s') = length (phases s) \<and>
    (\<exists>ts rs. rq_data (response_queue (the_pool s')) = rq_data (response_queue (the_pool s)) @ rs \<and>
       list_all2 answers rs ts \<and> pending contents s = mset ts + pending contents s')"
  using assms(1,2)
proof (induction rule: schedule_run.induct)
  case (none s)
  then show ?case
    by (auto intro!: exI [of _ "[]"])
next
  case (turn js s s' i t0 clk s'')
  obtain ts rs where earlier: "at_work inv s'" "length (phases s') = length (phases s)"
    "rq_data (response_queue (the_pool s')) = rq_data (response_queue (the_pool s)) @ rs" "list_all2 answers rs ts"
    "pending contents s = mset ts + pending contents s'"
    using turn.IH turn.prems by blast
  note effect = worker_effect [OF turn.hyps(3) earlier(1) assms(3) turn.hyps(2)]
  then obtain ts' rs' where "rq_data (response_queue (the_pool s'')) = rq_data (response_queue (the_pool s')) @ rs'"
    "list_all2 answers rs' ts'" "pending contents s' = mset ts' + pending contents s''"
    by blast
  then show ?case
    using earlier effect list_all2_appendI [OF earlier(4), of rs' ts']
    by (intro conjI exI [of _ "ts @ ts'"] exI [of _ "rs @ rs'"]) (simp_all add: ac_simps)
qed

text \<open>While the queue is not empty every step counts.\<close>

lemma schedule_drains:
  assumes "schedule_run pop_batch env bs js s s'" "at_work inv s" "bs \<noteq> 0"
  shows "contents (task_queue (the_pool s')) = [] \<or> length js + steps_left contents s' \<le> steps_left contents s"
  using assms(1,2)
proof (induction rule: schedule_run.induct)
  case (turn js s s' i t0 clk s'')
  have s': "at_work inv s'"
    using schedule_keeps [OF turn.hyps(1) turn.prems assms(3)] by simp
  show ?case
    using turn.IH [OF turn.prems] worker_effect [OF turn.hyps(3) s' assms(3) turn.hyps(2)] by fastforce
qed simp

text \<open>Once it is empty, each worker finishes its batch, at one task a step.\<close>

lemma schedule_finishes:
  assumes "schedule_run pop_batch env bs js s s'" "at_work inv s" "bs \<noteq> 0"
    "contents (task_queue (the_pool s)) = []"
  shows "contents (task_queue (the_pool s')) = [] \<and>
    size (batch_held (phases s' ! i)) \<le> size (batch_held (phases s ! i)) - count_list js i"
  using assms(1,2,4)
proof (induction rule: schedule_run.induct)
  case (turn js s s' j t0 clk s'')
  have s': "at_work inv s'"
    using schedule_keeps [OF turn.hyps(1) turn.prems(1) assms(3)] by simp
  have IH: "contents (task_queue (the_pool s')) = []"
    "size (batch_held (phases s' ! i)) \<le> size (batch_held (phases s ! i)) - count_list js i"
    using turn.IH [OF turn.prems] by simp_all
  note effect = worker_effect [OF turn.hyps(3) s' assms(3) turn.hyps(2)]
  show ?case
  proof (cases "j = i")
    case True
    then show ?thesis
      using effect IH by auto
  next
    case False
    then show ?thesis
      using effect IH by simp
  qed
qed simp

lemma schedule_answers:
  assumes run: "schedule_run pop_batch env bs js s s'" and work: "at_work inv s" "bs \<noteq> 0" "phases s \<noteq> []"
    and fair: "\<And>i. i < length (phases s) \<Longrightarrow> 5 * size (pending contents s) + 3 * length (phases s) \<le> count_list js i"
  shows "pending contents s' = {#}"
proof -
  define k where "k = steps_left contents s"
  have k: "k \<le> 4 * size (pending contents s) + 3 * length (phases s)"
    by (simp add: k_def steps_left_bound)
  have "0 < length (phases s)"
    using work(3) by simp
  then have "k \<le> length js"
    using fair [of 0] k count_le_length [of js 0] by linarith
  have "schedule_run pop_batch env bs (take k js @ drop k js) s s'"
    using run by simp
  then obtain s1 where s1: "schedule_run pop_batch env bs (take k js) s s1" "schedule_run pop_batch env bs (drop k js) s1 s'"
    using schedule_run_split by blast
  have first: "at_work inv s1" "length (phases s1) = length (phases s)" "size (pending contents s1) \<le> size (pending contents s)"
    using schedule_keeps [OF s1(1) work(1,2)] by auto
  have empty: "contents (task_queue (the_pool s1)) = []"
    using schedule_drains [OF s1(1) work(1,2)] \<open>k \<le> length js\<close>
    by (auto simp: k_def [symmetric]) (simp add: steps_left_def)
  have final: "contents (task_queue (the_pool s')) = []" "length (phases s') = length (phases s)"
    using schedule_finishes [OF s1(2) first(1) work(2) empty] schedule_keeps [OF run work(1,2)] by simp_all
  have "batch_held (phases s' ! i) = 0" if i: "i < length (phases s)" for i
  proof -
    have "count_list js i = count_list (take k js) i + count_list (drop k js) i"
      by (metis append_take_drop_id count_list_append)
    moreover have "count_list (take k js) i \<le> k"
      using count_le_length [of "take k js" i] by simp
    ultimately have "size (pending contents s) \<le> count_list (drop k js) i"
      using fair [OF i] k by linarith
    then have "size (batch_held (phases s1 ! i)) \<le> count_list (drop k js) i"
      using batch_held_le_pending [of i s1 contents] first(2,3) i by linarith
    then show ?thesis
      using schedule_finishes [OF s1(2) first(1) work(2) empty, of i] by simp
  qed
  then have "sum_list (map batch_held (phases s')) = 0"
    using final(2) by (intro sum_list_zero) (auto simp: in_set_conv_nth)
  then show ?thesis
    using final(1) by (simp add: pending_def)
qed

end


text \<open>No worker is ever blocked, and what happens around the workers leaves them at work.\<close>

context polling_queue
begin

lemma never_blocked:
  assumes "at_work inv s" "i < length (phases s)" "inference_returns env rq_push s"
  shows "\<exists>t0 clk. worker_step pop_batch rq_push env bs t0 clk i s \<noteq> None"
proof (cases "phases s ! i")
  case Popping
  have "inv (task_queue (the_pool s))"
    using assms(1) by (simp add: at_work_def)
  then have "pop_batch [] bs (task_queue (the_pool s)) \<noteq> Waits"
    by (rule never_waits)
  then show ?thesis
    using Popping by (auto simp: worker_step_def Let_def split: call.splits)
next
  case (Busy ts)
  then show ?thesis
    using assms(2,3) by (cases ts) (auto simp: inference_returns_def worker_step_def Let_def split: option.splits)
qed (use assms(1) nth_mem [OF assms(2)] in \<open>auto simp: at_work_def worker_step_def Let_def\<close>)

lemma working_step_keeps:
  assumes "working_step push pop_batch env bs s s'" "at_work inv s" "bs \<noteq> 0"
  shows "at_work inv s' \<and> length (phases s') = length (phases s)"
  using assms(1)
proof (cases rule: working_step.cases)
  case (work i t0 clk)
  then show ?thesis
    using worker_effect [OF work(2) assms(2,3) work(1)] by simp
next
  case outer
  then show ?thesis
  proof (cases rule: outer_step.cases)
    case (offer t ok q')
    have "inv (task_queue (the_pool s))"
      using assms(2) by (simp add: at_work_def)
    then have "inv q'"
      using push_taken [of "task_queue (the_pool s)" t] push_refused [of "task_queue (the_pool s)" t] offer(2)
      by (cases "accepts (task_queue (the_pool s))") auto
    then show ?thesis
      using offer(1) assms(2) by (simp add: at_work_def)
  next
    case (wakeup i)
    then show ?thesis
      using assms(2) nth_mem [OF wakeup(2)] by (auto simp: at_work_def)
  qed (use assms(2) in \<open>simp add: at_work_def\<close>)
qed

lemma working_run_keeps:
  assumes "(working_step push pop_batch env bs)\<^sup>*\<^sup>* s s'" "at_work inv s" "bs \<noteq> 0"
  shows "at_work inv s' \<and> length (phases s') = length (phases s)"
  using assms by (induction rule: rtranclp_induct) (auto dest: working_step_keeps)

lemma start_at_work: "inv (task_queue p) \<Longrightarrow> \<not> stop p \<Longrightarrow> at_work inv (pool_sys_start p)"
  by (auto simp: at_work_def pool_sys_start_def)

text \<open>From any state a running pool can reach, a fair schedule answers everything.\<close>

theorem fair_schedule:
  assumes start: "inv (task_queue p)" "\<not> stop p" "worker_pods p \<noteq> []" "bs \<noteq> 0"
    and reach: "(working_step push pop_batch env bs)\<^sup>*\<^sup>* (pool_sys_start p) s"
    and run: "schedule_run pop_batch env bs js s s'"
  shows "(inference_returns env rq_push s' \<longrightarrow>
      (\<forall>i < length (phases s'). \<exists>t0 clk. worker_step pop_batch rq_push env bs t0 clk i s' \<noteq> None)) \<and>
    ((\<forall>i < length (phases s). 5 * size (pending contents s) + 3 * length (phases s) \<le> count_list js i) \<longrightarrow>
      pending contents s' = {#} \<and>
      (\<exists>ts rs. rq_data (response_queue (the_pool s')) = rq_data (response_queue (the_pool s)) @ rs \<and>
         list_all2 answers rs ts \<and> mset ts = pending contents s))"
proof -
  have s: "at_work inv s" "phases s \<noteq> []"
    using working_run_keeps [OF reach start_at_work [OF start(1,2)] start(4)] start(3)
    by (auto simp: pool_sys_start_def)
  have s': "at_work inv s'" "\<exists>ts rs. rq_data (response_queue (the_pool s')) = rq_data (response_queue (the_pool s)) @ rs \<and>
      list_all2 answers rs ts \<and> pending contents s = mset ts + pending contents s'"
    using schedule_keeps [OF run s(1) start(4)] by auto
  show ?thesis
    using never_blocked [OF s'(1)] schedule_answers [OF run s(1) start(4) s(2)] s'(2) by force
qed

end


subsection \<open>The two rings\<close>

interpretation spl: polling_queue spsc_push spsc_pop spsc_pop_batch spsc_shutdown spsc_contents spsc_accepts spsc_inv
  by (intro polling_queue.intro sq.task_queue_axioms polling_queue_axioms.intro spsc_pop_batch_returns)

interpretation mpl: polling_queue mpmc_push mpmc_pop mpmc_pop_batch mpmc_shutdown mpmc_contents mpmc_accepts mpmc_inv
  by (intro polling_queue.intro mq.task_queue_axioms polling_queue_axioms.intro mpmc_pop_batch_returns)

end
