(* ===== verification/Program_Liveness.thy ===== *)
theory Program_Liveness
  imports Main_Program Polling_Pool
begin

section \<open>The pool of the program on a ring\<close>

text \<open>
  The queue \<^verbatim>\<open>main\<close> uses through \<^verbatim>\<open>ITaskQueue\<close>, when the configuration has chosen one of the rings,
  is an instance of \<open>polling_queue\<close>; so the pool \<^verbatim>\<open>main\<close> builds answers everything in every fair
  schedule of its workers.
\<close>

definition impl_ring :: "task_queue_impl \<Rightarrow> bool" where
  "impl_ring q \<longleftrightarrow> impl_inv q \<and> (case q of NaiveImpl n \<Rightarrow> False | _ \<Rightarrow> True)"

text \<open>An operation leaves the implementation what it is.\<close>

lemma impl_ring_keeps:
  "impl_ring q \<Longrightarrow> impl_push t q = Returns (ok, q') \<Longrightarrow> impl_inv q' \<Longrightarrow> impl_ring q'"
  "impl_ring q \<Longrightarrow> impl_pop q = Returns (r, q') \<Longrightarrow> impl_inv q' \<Longrightarrow> impl_ring q'"
  "impl_ring q \<Longrightarrow> impl_pop_batch b m q = Returns (n, b', q') \<Longrightarrow> impl_inv q' \<Longrightarrow> impl_ring q'"
  "impl_ring q \<Longrightarrow> impl_inv (impl_shutdown q) \<Longrightarrow> impl_ring (impl_shutdown q)"
  by (cases q; auto simp: impl_ring_def impl_push_def impl_pop_def impl_pop_batch_def impl_shutdown_def elim!: map_call_Returns)+

lemma impl_ring_inv: "impl_ring q \<Longrightarrow> impl_inv q"
  by (simp add: impl_ring_def)

lemma impl_ring_released: "impl_ring q \<Longrightarrow> impl_released q"
  by (auto simp: impl_ring_def impl_released_def split: task_queue_impl.splits)

interpretation irg: polling_queue impl_push impl_pop impl_pop_batch impl_shutdown impl_contents impl_accepts impl_ring
proof
  fix q t ts b m
  assume q: "impl_ring q"
  note inv = impl_ring_inv [OF q]
  show "\<exists>q'. impl_push t q = Returns (True, q') \<and> impl_ring q' \<and> impl_contents q' = impl_contents q @ [t]" if "impl_accepts q"
    using impl_push_taken [OF inv that, of t] impl_ring_keeps(1) [OF q] by blast
  show "impl_push t q = Returns (False, q)" if "\<not> impl_accepts q"
    using iq.push_refused [OF inv that] .
  show "\<exists>q'. impl_pop q = Returns (Some t, q') \<and> impl_ring q' \<and> impl_contents q' = ts" if "impl_contents q = t # ts"
    using impl_pop_some [OF inv that] impl_ring_keeps(2) [OF q] by blast
  show "impl_pop q = Waits \<or> impl_pop q = Returns (None, q)" "impl_pop_batch b m q = Waits \<or> impl_pop_batch b m q = Returns (0, b, q)"
    if "impl_contents q = []"
    using impl_none [OF inv that] by blast+
  show "\<exists>q'. impl_pop_batch b m q =
          Returns (of_nat (batch_count m (impl_contents q)), b @ take (batch_count m (impl_contents q)) (impl_contents q), q') \<and>
        impl_ring q' \<and> impl_contents q' = drop (batch_count m (impl_contents q)) (impl_contents q)" if "impl_contents q \<noteq> []"
    using impl_pop_batch_some [OF inv that, of b m] impl_ring_keeps(3) [OF q] by blast
  show "impl_ring (impl_shutdown q) \<and> impl_contents (impl_shutdown q) = impl_contents q"
    using iq.shutdown_keeps [OF inv] impl_ring_keeps(4) [OF q] by blast
  show "impl_pop_batch b m q \<noteq> Waits"
    using ist.released_pop_batch [OF inv impl_ring_released [OF q]] .
qed

lemma select_ring: "qt \<in> {SPSC, MPMC} \<Longrightarrow> impl_ring (select_queue qt)"
  using select_queue_ok(1) [of qt] by (auto simp: impl_ring_def select_queue_def)


subsection \<open>Properties\<close>

text \<open>
  C5: on the rings the pool answers every task that its queue has accepted, under fair schedules in
  which the inferences return. For every configuration file that selects a ring and a positive
  batch size, take the pool \<^verbatim>\<open>main\<close> builds, in any state its workers, the pushes and the fetched
  results can lead to. No worker is ever blocked, as long as inferences return; and in any
  schedule that runs (so every inference in it returns) and gives each worker at least five steps
  for every task that is pending and three for every worker, all of the pending tasks are
  answered, each once, behind the results that were there. A request that a full ring refuses is
  never a pending task, and it is not answered at all.
\<close>

theorem ring_pool_answers_everything:
  assumes start: "lumen_start w = Built (pool, srv)"
    and ring: "m_queue_type (main_config w) \<in> {SPSC, MPMC}" "m_batch_size (main_config w) \<noteq> 0"
    and reach: "(working_step impl_push impl_pop_batch env (m_batch_size (main_config w)))\<^sup>*\<^sup>* (pool_sys_start pool) s"
    and run: "schedule_run impl_pop_batch env (m_batch_size (main_config w)) turns s s'"
  shows "(inference_returns env rq_push s' \<longrightarrow> (\<forall>i < length (phases s').
      \<exists>t0 clk. worker_step impl_pop_batch rq_push env (m_batch_size (main_config w)) t0 clk i s' \<noteq> None)) \<and>
    ((\<forall>i < length (phases s). 5 * size (pending impl_contents s) + 3 * length (phases s) \<le> count_list turns i) \<longrightarrow>
      pending impl_contents s' = {#} \<and>
      (\<exists>ts rs. rq_data (response_queue (the_pool s')) = rq_data (response_queue (the_pool s)) @ rs \<and>
         list_all2 answers rs ts \<and> mset ts = pending impl_contents s))"
proof -
  obtain pr po cl where "pool_new (world_pod w) (thread_starts w) (hardware_concurrency w) (main_config w)
      (select_queue (m_queue_type (main_config w))) rq_new = Built pool"
    by (rule lumen_startD [OF start])
  note pool = pool_new_Built [OF this]
  have "worker_pods pool \<noteq> []"
    using pool(1) pool_thread_count_pos by (metis length_greater_0_conv)
  then show ?thesis
    using select_ring [OF ring(1)] pool(2,4) by (intro irg.fair_schedule [OF _ _ _ ring(2) reach run]) simp_all
qed


text \<open>A program with the single-producer ring, and a pool with one worker and one request.\<close>

definition ring_file :: json where
  "ring_file = JObject [(''engine'', JObject [(''queue_type'', JString ''spsc'')]),
     (''model'', JObject [(''processor_type'', JString ''raw'')])]"

definition ring_world :: "unit world" where
  "ring_world = raw_world\<lparr>json_parse := (\<lambda>s. Some ring_file)\<rparr>"

lemma ring_world_config:
  "m_queue_type (main_config ring_world) = SPSC" "m_proc_type (main_config ring_world) = RAW_TENSOR"
  "m_alloc_type (main_config ring_world) = STANDARD" "m_batch_size (main_config ring_world) = 1"
  "m_thread_count (main_config ring_world) = 1"
  by (simp_all add: main_config_def ring_world_def raw_world_def load_from_file_json ring_file_def config_defaults_def load_defs)

definition ring_serving :: "task_queue_impl \<Rightarrow> worker_phase \<Rightarrow> InferenceResult list \<Rightarrow> (task_queue_impl, NaiveResultQueue, unit) pool_sys" where
  "ring_serving q ph rs =
     \<lparr>the_pool = \<lparr>task_queue = q, response_queue = rq_new\<lparr>rq_data := rs\<rparr>, worker_pods = [example_pod], joinable = [True], stop = False\<rparr>,
      phases = [ph], stopping = NotStopping\<rparr>"

lemma ring_world_starts:
  "\<exists>srv. lumen_start ring_world = Built (the_pool (ring_serving (SpscImpl spsc_new) Testing []), srv)"
proof -
  have pod: "world_pod ring_world i = Built example_pod" for i
    unfolding world_pod_def ring_world_config by (simp add: ring_world_def raw_world_def example_runtime_pod)
  have n: "unat (pool_thread_count 4 (main_config ring_world)) = Suc 0"
    by (simp add: pool_thread_count_def ring_world_config)
  have "pool_new (world_pod ring_world) (\<lambda>i. True) 4 (main_config ring_world) (SpscImpl spsc_new) rq_new =
      Built (the_pool (ring_serving (SpscImpl spsc_new) Testing []))"
    unfolding pool_new_def n by (simp add: pod ring_serving_def rq_new_def)
  moreover have fields: "thread_starts ring_world = (\<lambda>i. True)" "hardware_concurrency ring_world = 4"
    "addresses ring_world = Some one_candidate" "listen_ok ring_world" "stale ring_world = 0"
    by (simp_all add: ring_world_def raw_world_def)
  ultimately show ?thesis
    by (simp add: lumen_start_def Let_def ring_world_config select_queue_def select_processors_def server_new_def one_candidate_def)
qed

text \<open>Eight steps of the worker, from a queue with one task.\<close>

lemma ring_turn:
  "schedule_run impl_pop_batch example_env 1 js s (ring_serving q ph rs) \<Longrightarrow>
   worker_step impl_pop_batch rq_push example_env 1 0 (\<lambda>_. 0) 0 (ring_serving q ph rs) = Some s' \<Longrightarrow>
   schedule_run impl_pop_batch example_env 1 (js @ [0]) s s'"
  by (rule schedule_run.turn) (simp_all add: ring_serving_def)

lemma ring_steps:
  "worker_step impl_pop_batch rq_push example_env 1 0 (\<lambda>_. 0) 0 (ring_serving q Testing rs) = Some (ring_serving q Popping rs)"
  "worker_step impl_pop_batch rq_push example_env 1 0 (\<lambda>_. 0) 0 (ring_serving q (Busy [example_task 5]) rs) =
     Some (ring_serving q (Busy []) (rs @ [example_reply]))"
  "worker_step impl_pop_batch rq_push example_env 1 0 (\<lambda>_. 0) 0 (ring_serving q (Busy []) rs) = Some (ring_serving q Testing rs)"
  "impl_pop_batch [] 1 q = Returns (0, b, q') \<Longrightarrow>
     worker_step impl_pop_batch rq_push example_env 1 0 (\<lambda>_. 0) 0 (ring_serving q Popping rs) = Some (ring_serving q' Testing rs)"
  "impl_pop_batch [] 1 q = Returns (1, b, q') \<Longrightarrow>
     worker_step impl_pop_batch rq_push example_env 1 0 (\<lambda>_. 0) 0 (ring_serving q Popping rs) = Some (ring_serving q' (Busy b) rs)"
  by (simp_all add: ring_serving_def worker_step_def set_phase_def example_serves rq_push_def)

lemma ring_example:
  "\<exists>q1 q2. impl_push (example_task 5) (SpscImpl spsc_new) = Returns (True, q1) \<and> impl_contents q1 = [example_task 5] \<and>
     impl_pop_batch [] 1 q1 = Returns (1, [example_task 5], q2) \<and> impl_pop_batch [] 1 q2 = Returns (0, [], q2)"
proof -
  have new: "impl_ring (SpscImpl spsc_new)" "impl_contents (SpscImpl spsc_new) = []" "impl_accepts (SpscImpl spsc_new)"
    using select_ring [of SPSC] select_queue_ok(2) [of SPSC] spsc_new_inv
    by (simp_all add: select_queue_def impl_accepts_def spsc_accepts_def spsc_new_def)
  obtain q1 where q1: "impl_push (example_task 5) (SpscImpl spsc_new) = Returns (True, q1)" "impl_ring q1" "impl_contents q1 = [example_task 5]"
    using irg.push_taken [OF new(1,3)] new(2) by fastforce
  obtain q2 where q2: "impl_pop_batch [] 1 q1 = Returns (1, [example_task 5], q2)" "impl_ring q2" "impl_contents q2 = []"
    using irg.pop_batch_some [OF q1(2), of "[]" 1] q1(3) by (auto simp: batch_count_def)
  have "impl_pop_batch [] 1 q2 = Returns (0, [], q2)"
    using irg.pop_batch_none [OF q2(2,3), of "[]" 1] irg.never_waits [OF q2(2), of "[]" 1] by auto
  then show ?thesis
    using q1 q2 by blast
qed

lemma ring_example_run:
  assumes "impl_pop_batch [] 1 q1 = Returns (1, [example_task 5], q2)" "impl_pop_batch [] 1 q2 = Returns (0, [], q2)"
  shows "schedule_run impl_pop_batch example_env 1 (replicate 8 0) (ring_serving q1 Testing []) (ring_serving q2 Testing [example_reply])"
proof -
  let ?run = "\<lambda>js. schedule_run impl_pop_batch example_env 1 js (ring_serving q1 Testing [])"
  have "?run ([] @ [0]) (ring_serving q1 Popping [])"
    by (rule ring_turn [OF schedule_run.none ring_steps(1)])
  from ring_turn [OF this ring_steps(5) [OF assms(1)]] have "?run [0, 0] (ring_serving q2 (Busy [example_task 5]) [])"
    by simp
  from ring_turn [OF this ring_steps(2)] have "?run [0, 0, 0] (ring_serving q2 (Busy []) [example_reply])"
    by simp
  from ring_turn [OF this ring_steps(3)] have "?run [0, 0, 0, 0] (ring_serving q2 Testing [example_reply])"
    by simp
  from ring_turn [OF ring_turn [OF this ring_steps(1)] ring_steps(4) [OF assms(2)]]
  have "?run [0, 0, 0, 0, 0, 0] (ring_serving q2 Testing [example_reply])"
    by simp
  from ring_turn [OF ring_turn [OF this ring_steps(1)] ring_steps(4) [OF assms(2)]] show ?thesis
    by (simp add: eval_nat_numeral)
qed

theorem ring_pool_answers_everything_witness:
  "\<exists>pool srv s s' r. lumen_start ring_world = Built (pool, srv) \<and> pending impl_contents s = {#example_task 5#} \<and>
     schedule_run impl_pop_batch example_env 1 (replicate 8 0) s s' \<and> pending impl_contents s' = {#} \<and>
     rq_data (response_queue (the_pool s')) = [r] \<and> answers r (example_task 5)"
proof -
  obtain srv where start: "lumen_start ring_world = Built (the_pool (ring_serving (SpscImpl spsc_new) Testing []), srv)"
    using ring_world_starts by blast
  obtain q1 q2 where q: "impl_push (example_task 5) (SpscImpl spsc_new) = Returns (True, q1)" "impl_contents q1 = [example_task 5]"
    "impl_pop_batch [] 1 q1 = Returns (1, [example_task 5], q2)" "impl_pop_batch [] 1 q2 = Returns (0, [], q2)"
    using ring_example by blast
  let ?s = "ring_serving q1 Testing []" and ?p = "the_pool (ring_serving (SpscImpl spsc_new) Testing [])"
  have "outer_step impl_push (pool_sys_start ?p) ?s"
    using outer_step.offer [of impl_push "example_task 5" "pool_sys_start ?p" True q1] q(1)
    by (simp add: ring_serving_def pool_sys_start_def)
  then have reach: "(working_step impl_push impl_pop_batch example_env (m_batch_size (main_config ring_world)))\<^sup>*\<^sup>* (pool_sys_start ?p) ?s"
    by (blast intro: working_step.outer r_into_rtranclp)
  note run = ring_example_run [OF q(3,4)]
  have s: "pending impl_contents ?s = {#example_task 5#}" "length (phases ?s) = 1" "rq_data (response_queue (the_pool ?s)) = []"
    using q(2) by (simp_all add: pending_def ring_serving_def)
  have "\<forall>i < length (phases ?s). 5 * size (pending impl_contents ?s) + 3 * length (phases ?s) \<le> count_list (replicate 8 0) i"
    by (simp add: s(1,2) eval_nat_numeral)
  then have "pending impl_contents (ring_serving q2 Testing [example_reply]) = {#} \<and>
      (\<exists>ts rs. rq_data (response_queue (the_pool (ring_serving q2 Testing [example_reply]))) = rq_data (response_queue (the_pool ?s)) @ rs \<and>
         list_all2 answers rs ts \<and> mset ts = pending impl_contents ?s)"
    using ring_pool_answers_everything [OF start _ _ reach run [folded ring_world_config(4)]] by (simp add: ring_world_config)
  then show ?thesis
    using start run s by (auto simp: list_all2_Cons2 list_all2_Cons1 intro!: exI)
qed

end
