(* ===== verification/Signals.thy ===== *)
theory Signals
  imports Main_Program
begin

section \<open>The end of the program\<close>

text \<open>
  The flag \<^verbatim>\<open>g_running\<close> of \<^verbatim>\<open>src/main.cpp\<close>, its signal handler, and the two loops that read it: the
  one in \<^verbatim>\<open>main\<close> and the one in \<^verbatim>\<open>TCPServer::run\<close>. \<^verbatim>\<open>Main_Program\<close> takes the readings of the flag
  as given; here they come from the flag, which only the handler clears. An iteration of the
  event loop is one step, since it does not read the flag; a signal that arrives during an
  iteration is read by the next test, as if it had arrived behind it (the call to \<^verbatim>\<open>poll\<close> that it
  interrupts is an iteration with a negative count). An iteration need not complete: an exception,
  such as that of a \<^verbatim>\<open>resize\<close> to the announced length, leaves \<^verbatim>\<open>run\<close> and is caught in \<^verbatim>\<open>main\<close>, and
  a \<^verbatim>\<open>send\<close> to a client that is gone raises SIGPIPE, which is not handled and kills the process.
  So does whatever ends the process from outside the loops: an exception that leaves a worker's
  thread, or another signal.
\<close>

datatype main_position = InMain | InRun | Left_loop | Thrown | Process_killed

record 'q main_state =
  g_running :: bool
  position :: main_position
  main_server :: "'q TCPServer"

text \<open>How an iteration ends; an exception leaves the server in some state, which \<^verbatim>\<open>main\<close> then destroys.\<close>

datatype 'q iteration_end = Completes | Throws "'q TCPServer" | Breaks_pipe




text \<open>A test of the flag, in \<^verbatim>\<open>main\<close> or in \<^verbatim>\<open>run\<close>, with the iteration of the event loop behind it.\<close>

definition main_turn ::
  "(InferenceTask \<Rightarrow> 'q \<Rightarrow> (bool \<times> 'q) call) \<Rightarrow> net \<Rightarrow> 'q iteration_end \<Rightarrow> 'q main_state \<Rightarrow> 'q main_state" where
  "main_turn psh net fate m =
     (case position m of
        InMain \<Rightarrow> m\<lparr>position := if g_running m then InRun else Left_loop\<rparr>
      | InRun \<Rightarrow>
          if g_running m
          then (case fate of
                  Completes \<Rightarrow> m\<lparr>main_server := server_iteration psh net (main_server m)\<rparr>
                | Throws srv \<Rightarrow> m\<lparr>position := Thrown, main_server := srv\<rparr>
                | Breaks_pipe \<Rightarrow> m\<lparr>position := Process_killed\<rparr>)
          else m\<lparr>position := InMain\<rparr>
      | _ \<Rightarrow> m)"





subsection \<open>The readings of the flag\<close>








text \<open>Only the handler clears the flag, and it stays cleared.\<close>

lemma main_turn_flag [simp]: "g_running (main_turn psh net fate m) = g_running m"
  by (simp add: main_turn_def split: main_position.splits iteration_end.splits)








subsection \<open>Properties\<close>






end
