(* ===== verification/Spec2Isabelle.thy ===== *)
theory Spec2Isabelle
  imports Naive_Waiting SPSC_Concurrent MPMC_Concurrent Program_Liveness Signals
begin

text \<open>
  \<^bold>\<open>Lumen\<close> is an inference server. A TCP server thread reads requests (a four-byte big-endian
  length and an image) and queues them as tasks; a pool of workers, each with its own allocator
  and ONNX session (a pod), takes batches of tasks from the queue, runs preprocessing, inference
  and postprocessing, and pushes results to a result queue; the server thread sends each result
  to the connection it belongs to and hands its trace to the telemetry thread. The
  configuration file selects one of three task queues (mutex, single-producer ring,
  multi-producer ring), one of two allocators and the processors. The paths below are relative
  to \<^verbatim>\<open>src/\<close>.

  \<^bold>\<open>The theories\<close>, with the code each one models:

  \<^item> \<^verbatim>\<open>Lumen_Prelude\<close>: machine types (\<^verbatim>\<open>size_t\<close> is a 64-bit word, sums wrap), calls that may wait,
    shared facts on words, ring positions and lists.
  \<^item> \<^verbatim>\<open>Lumen_Core\<close>: traces, tasks, results and the scoped timer (\<^verbatim>\<open>include/lumen/core\<close>,
    \<^verbatim>\<open>utils/Timer.hpp\<close>). Clock readings are integers of nanoseconds, doubles and floats are reals.
  \<^item> \<^verbatim>\<open>Queue_Interfaces\<close>: \<^verbatim>\<open>ITaskQueue\<close> and \<^verbatim>\<open>IResultQueue\<close> as the locales \<open>task_queue\<close>,
    \<open>sized_task_queue\<close> and \<open>result_queue\<close>, over the FIFO list a queue stands for.
  \<^item> \<^verbatim>\<open>Naive_Queue\<close>, \<^verbatim>\<open>Naive_Waiting\<close>: the mutex queues, and the condition variable with its parked
    and woken threads.
  \<^item> \<^verbatim>\<open>Ring_Buffer\<close>, \<^verbatim>\<open>SPSC_Queue\<close>, \<^verbatim>\<open>SPSC_Concurrent\<close>: the single-producer ring, called one method
    at a time and with the shared accesses of producer and consumer interleaved.
  \<^item> \<^verbatim>\<open>MPMC_Queue\<close>, \<^verbatim>\<open>MPMC_Concurrent\<close>: the multi-producer ring (Vyukov's sequence numbers), likewise,
    for any number of threads.
  \<^item> \<^verbatim>\<open>Arena\<close>, \<^verbatim>\<open>Allocators\<close>: \<^verbatim>\<open>LumenArena\<close>, \<^verbatim>\<open>StandardOrtAllocator\<close>, and the interface
    \<^verbatim>\<open>ILumenAllocator\<close> as the locale \<open>lumen_allocator\<close>.
  \<^item> \<^verbatim>\<open>Config\<close>: \<^verbatim>\<open>LumenConfigManager\<close>, with the exceptions of the JSON accessors it uses.
  \<^item> \<^verbatim>\<open>ImageNet_Processor\<close>: the pre- and postprocessor of \<^verbatim>\<open>models/ImageNetProcessor.hpp\<close>.
  \<^item> \<^verbatim>\<open>Inference_Engine\<close>, \<^verbatim>\<open>Engine_Metadata\<close>: \<^verbatim>\<open>InferenceEngine.cpp\<close>, its constructor with the move of
    the metadata to arena memory (an explicit store), and \<^verbatim>\<open>run\<close>.
  \<^item> \<^verbatim>\<open>Thread_Pool\<close>, \<^verbatim>\<open>Pool_Workers\<close>: \<^verbatim>\<open>ThreadPool.cpp\<close>; the worker over the queue interfaces is the
    locale \<open>pool_worker\<close>, interpreted on the three queues.
  \<^item> \<^verbatim>\<open>Pool_Lifecycle\<close>: how the constructor of the pool ends, and the worker threads with the thread
    in \<^verbatim>\<open>shutdown\<close>, interleaved (\<open>pool_step\<close>); what \<^verbatim>\<open>shutdown\<close> of a queue promises its consumers is
    the locale \<open>stoppable_queue\<close>.
  \<^item> \<^verbatim>\<open>Pool_Liveness\<close>: the workers on the mutex queue with the notifications \<^verbatim>\<open>push\<close> sends them
    (\<open>own_step\<close>, \<open>other_step\<close>).
  \<^item> \<^verbatim>\<open>Polling_Pool\<close>: the workers on a queue that never waits, under any schedule; the locale
    \<open>polling_queue\<close> is interpreted on the two rings.
  \<^item> \<^verbatim>\<open>Server\<close>, \<^verbatim>\<open>Server_Requests\<close>, \<^verbatim>\<open>Server_Replies\<close>: \<^verbatim>\<open>TCPServer.cpp\<close>: sessions, the poll set and the
    event loop as functions on the server's record, which also keeps what each \<^verbatim>\<open>send\<close> put on
    the wire; reading of requests; sending of responses, refusals, construction.
  \<^item> \<^verbatim>\<open>Server_System\<close>, \<^verbatim>\<open>Server_Progress\<close>, \<^verbatim>\<open>Service\<close>: the server thread and the workers
    interleaved, as the step relation
    \<open>system_step\<close>; the locale \<open>lumen_service\<close> proves its invariant for any queue of the interface and
    any engine, and is interpreted on the three queues with the engine of the pods.
  \<^item> \<^verbatim>\<open>Server_Descriptors\<close>: the descriptors the event loop is given and closes.
  \<^item> \<^verbatim>\<open>Deployment\<close>: the server thread and the worker threads of the pool, each with its pod and batch,
    on the shared queues (\<open>deployed_step\<close>); the locale \<open>lumen_deployment\<close>, which extends
    \<open>lumen_service\<close>, proves that its runs are runs of the service.
  \<^item> \<^verbatim>\<open>Telemetry\<close>: \<^verbatim>\<open>TelemetryManager.cpp\<close>: the reporter thread, statistics, the CSV file.
  \<^item> \<^verbatim>\<open>Main_Program\<close>: \<^verbatim>\<open>main.cpp\<close>, from the configuration file to the exit code, with the
    destructors on each way out; calls through \<^verbatim>\<open>ITaskQueue\<close> dispatch on the queue that was chosen,
    which is again an instance of \<open>task_queue\<close>, \<open>stoppable_queue\<close> and \<open>lumen_deployment\<close>.
  \<^item> \<^verbatim>\<open>Program_Liveness\<close>: the queue of \<^verbatim>\<open>main\<close> as an instance of \<open>polling_queue\<close>, when it is a ring.
  \<^item> \<^verbatim>\<open>Signals\<close>: \<^verbatim>\<open>g_running\<close>, its signal handler, the two loops that read it, and the other ways out
    of an iteration of the event loop: an exception that \<^verbatim>\<open>main\<close> catches, SIGPIPE, a kill.

  \<^bold>\<open>What is shown.\<close>

  \<^item> Queues: in every interleaving the rings lose, duplicate and reorder nothing, two threads
    never access the data of one cell at the same time, a push or pop gives up only when the ring
    is full or empty, and a thread left alone finishes; the mutex queue loses no wake-up.
  \<^item> Memory: live blocks of an arena are disjoint, aligned and inside the block; requests reuse
    the same memory; one inference frees what it allocates; the shapes read from arena memory are
    those of the model.
  \<^item> Inference: the preprocessor equals its planar description and stays in its buffers, the
    answer is the label of the best class, the confidence is the softmax; each task that is
    served has one result, for its client; a pool on the mutex queue answers every task within a
    bounded number of its own steps and then sleeps, and a pool on a ring under every schedule
    that gives each worker enough steps, as long as the inferences return.
  \<^item> Server: a request arrives intact however the network cuts it (framing), no receive or send
    leaves its buffer, a response leaves byte for byte, the poll set and the sessions agree, and
    nobody gets another client's answer; on the single-producer ring, with at most 1023
    connections, nobody is forgotten, and a request the queue refuses leaves its connection waiting.
  \<^item> Configuration and telemetry: the template round trip, the CSV round trip, the statistics, the
    shutdown of the reporter.
  \<^item> The program: the properties of the service hold of the server and worker threads for every
    configuration file, with the answers of the pods that were built; the shutdown of the pool
    terminates and leaves no thread behind; every socket is closed once when \<^verbatim>\<open>main\<close> returns;
    it returns 0 only after SIGINT, which ends the loops, and otherwise ends by an exception or by
    SIGPIPE in an iteration that began before the signal, or is killed from outside.

  Theorems that show defects say so in the text before them: a refused push leaves a connection
  waiting for ever; an uninitialised poll entry can close a new connection; a model with one
  channel overruns the input buffer; processors other than \<^verbatim>\<open>imagenet\<close> are null; an arena request
  near 2^64 bytes is granted; traces are dropped at shutdown; a batch size of zero starves the
  workers; a failing configuration file is half applied; a pod that cannot be built after the
  first one brings the process down.

  \<^bold>\<open>Failures.\<close> A constructor gives a value of \<open>ctor\<close>: an object, an exception, the termination of
  the process (an exception that meets a joinable thread) or undefined behaviour. A worker whose
  engine throws has no next step, since the exception ends the process. An inference ends in a
  result, an exception or undefined behaviour; a null input buffer is written to, a null output
  buffer is handed to the runtime, which may throw, crash or return without an output
  (\<open>session_run_null\<close>).

  \<^bold>\<open>Loops and bounds.\<close> Every function is total. The retry loop of the multi-producer ring is a
  sequence of steps of one thread; alone, it ends within six. The event loop, the worker loop
  and the loop of \<^verbatim>\<open>main\<close> run over the list of the successive readings of their flag (with what the
  system calls return), and report whether they have returned (\<^verbatim>\<open>Signals\<close> derives these readings
  from \<^verbatim>\<open>g_running\<close>); the batch loops recurse on the
  number of iterations left; \<^verbatim>\<open>handle_responses\<close> ends because each turn takes one result. The
  framing and sending theorems ask for as many readable or writable events as there are bytes,
  which is enough because each event moves at least one byte.

  \<^bold>\<open>Not modelled.\<close> Memory orders weaker than sequential consistency (the shared accesses are
  interleaved); IEEE rounding (doubles are reals); where exactly \<^verbatim>\<open>std::vector\<close> and
  \<^verbatim>\<open>std::string\<close> run out of memory (in the event loop, \<^verbatim>\<open>Signals\<close> lets any iteration end in an
  exception, with the server left in any state); console output; the ONNX runtime, the JSON parser and printer, the C library
  allocator and the system calls, which are arguments with their documented contracts; tests,
  benchmarks, scripts and the dashboard.
\<close>

end
